(* ===== verification/Prelude.thy ===== *)
theory Prelude
  imports Main "HOL-Library.Word"
begin

text \<open>
  Shared ground of the development: Python results with their exceptions as
  values, byte strings, \<open>int.to_bytes\<close> / \<open>int.from_bytes\<close>, the
  \<open>io.BytesIO\<close> cursor, slicing into chunks and byte-wise exclusive or, with
  the lemmas that the component theories use.  Nothing in this theory models a
  line of the repository: it models what the repository uses of Python and of
  its standard library.
\<close>

unbundle bit_operations_syntax

named_theorems res_simps \<open>rewriting of Python results\<close>
named_theorems codec_simps \<open>facts about fixed-width integer encodings\<close>
named_theorems stream_simps \<open>rewriting of \<open>BytesIO\<close> cursors\<close>

section \<open>Results\<close>

text \<open>
  One constructor per exception class the modelled code raises or lets through.
  Messages are dropped except where another function inspects them.
\<close>

datatype py_error =
    ValueError
  | OverflowError
  | KeyError int
  | IndexError
  | TypeError
  | AttributeError
  | StructError
  | UnicodeError
  | RuntimeError
  | NotImplementedError
  | OSError
  | TimeoutError
  | ConnectionError
  | ZeroDivisionError
  | RecursionError
  | SecurityCheckMismatch
  | PlainException

type_synonym 'a res = "py_error + 'a"

definition bindR :: "'a res \<Rightarrow> ('a \<Rightarrow> 'b res) \<Rightarrow> 'b res" where
  "bindR r f = (case r of Inl e \<Rightarrow> Inl e | Inr x \<Rightarrow> f x)"

lemma bindR_simps [simp, res_simps]:
  "bindR (Inl e) f = Inl e"
  "bindR (Inr x) f = f x"
  by (simp_all add: bindR_def)

lemma bindR_eq_Inr [res_simps]:
  "bindR r f = Inr y \<longleftrightarrow> (\<exists>x. r = Inr x \<and> f x = Inr y)"
  by (cases r) auto

lemma bindR_eq_Inl [res_simps]:
  "bindR r f = Inl e \<longleftrightarrow> r = Inl e \<or> (\<exists>x. r = Inr x \<and> f x = Inl e)"
  by (cases r) auto

lemma bindR_assoc: "bindR (bindR r f) g = bindR r (\<lambda>x. bindR (f x) g)"
  by (cases r) auto

text \<open>A guard such as \<open>if not cond: raise exc\<close>.\<close>

definition checkR :: "bool \<Rightarrow> py_error \<Rightarrow> unit res" where
  "checkR c e = (if c then Inr () else Inl e)"

lemma checkR_simps [simp, res_simps]:
  "checkR True e = Inr ()"
  "checkR False e = Inl e"
  by (simp_all add: checkR_def)

lemma checkR_eq_Inr [res_simps]: "checkR c e = Inr u \<longleftrightarrow> c"
  by (simp add: checkR_def)

text \<open>A list comprehension whose element expression may raise.\<close>

primrec mapR :: "('a \<Rightarrow> 'b res) \<Rightarrow> 'a list \<Rightarrow> 'b list res" where
  "mapR f [] = Inr []"
| "mapR f (x # xs) = bindR (f x) (\<lambda>y. bindR (mapR f xs) (\<lambda>ys. Inr (y # ys)))"

lemma mapR_length: "mapR f xs = Inr ys \<Longrightarrow> length ys = length xs"
  by (induction xs arbitrary: ys) (auto simp: res_simps)

lemma mapR_total: "(\<And>x. x \<in> set xs \<Longrightarrow> f x = Inr (g x)) \<Longrightarrow> mapR f xs = Inr (map g xs)"
  by (induction xs) auto

section \<open>Byte strings and integers\<close>

type_synonym byte = "8 word"
type_synonym bytes = "byte list"

text \<open>\<open>le_bytes k n\<close> are the \<open>k\<close> low bytes of \<open>n\<close> in two's complement, least
  significant first; \<open>le_int\<close> reads them back as an unsigned number.\<close>

primrec le_bytes :: "nat \<Rightarrow> int \<Rightarrow> bytes" where
  "le_bytes 0 n = []"
| "le_bytes (Suc k) n = word_of_int n # le_bytes k (n div 256)"

primrec le_int :: "bytes \<Rightarrow> int" where
  "le_int [] = 0"
| "le_int (b # bs) = uint b + 256 * le_int bs"

definition be_bytes :: "nat \<Rightarrow> int \<Rightarrow> bytes" where
  "be_bytes k n = rev (le_bytes k n)"

definition be_int :: "bytes \<Rightarrow> int" where
  "be_int bs = le_int (rev bs)"

lemma length_le_bytes [simp]: "length (le_bytes k n) = k"
  by (induction k arbitrary: n) auto

lemma length_be_bytes [simp]: "length (be_bytes k n) = k"
  by (simp add: be_bytes_def)

lemma uint_byte_bounds [simp]: "0 \<le> uint (b :: byte)" "uint (b :: byte) < 256"
  using uint_bounded [of b] by auto

lemma le_int_bounds: "0 \<le> le_int bs \<and> le_int bs < 256 ^ length bs"
proof (induction bs)
  case Nil
  then show ?case by simp
next
  case (Cons b bs)
  have step: "u + 256 * l < 256 + 256 * (p - 1)" if "l < p" "u < 256" for u l p :: int
    using that by simp
  have "uint b + 256 * le_int bs < 256 + 256 * (256 ^ length bs - 1)"
    using Cons uint_byte_bounds(2) [of b] by (intro step) auto
  also have "\<dots> = 256 ^ length (b # bs)"
    by (simp add: algebra_simps)
  finally show ?case using Cons uint_byte_bounds(1) [of b] by simp
qed

lemma le_int_nonneg [simp]: "0 \<le> le_int bs"
  using le_int_bounds by simp

lemma le_int_less: "le_int bs < 256 ^ length bs"
  using le_int_bounds by simp

lemma uint_word_of_int_byte: "uint (word_of_int n :: byte) = n mod 256"
  by (simp add: uint_word_of_int)

lemma le_int_le_bytes [codec_simps]: "le_int (le_bytes k n) = n mod 256 ^ k"
proof (induction k arbitrary: n)
  case 0
  then show ?case by simp
next
  case (Suc k)
  have "n mod 256 ^ Suc k = n mod 256 + 256 * ((n div 256) mod 256 ^ k)"
    using zmod_zmult2_eq [of "256 ^ k" n 256] by simp
  then show ?case by (simp add: Suc uint_word_of_int_byte)
qed

lemma le_bytes_le_int [codec_simps]: "le_bytes (length bs) (le_int bs) = bs"
proof (induction bs)
  case Nil
  then show ?case by simp
next
  case (Cons b bs)
  have "(uint b + 256 * le_int bs) div 256 = le_int bs"
    by simp
  moreover have "word_of_int (uint b + 256 * le_int bs) = b"
    by (rule word_uint_eqI) (simp only: uint_word_of_int_byte, simp)
  ultimately show ?case using Cons by simp
qed

lemma le_bytes_le_int' [codec_simps]: "length bs = k \<Longrightarrow> le_bytes k (le_int bs) = bs"
  using le_bytes_le_int by blast

lemma le_bytes_inj_mod: "le_bytes k m = le_bytes k n \<longleftrightarrow> m mod 256 ^ k = n mod 256 ^ k"
proof
  assume "le_bytes k m = le_bytes k n"
  then have "le_int (le_bytes k m) = le_int (le_bytes k n)" by simp
  then show "m mod 256 ^ k = n mod 256 ^ k" by (simp add: le_int_le_bytes)
next
  show "m mod 256 ^ k = n mod 256 ^ k \<Longrightarrow> le_bytes k m = le_bytes k n"
    by (metis le_bytes_le_int' le_int_le_bytes length_le_bytes)
qed

text \<open>
  \<open>value.to_bytes(k, "little", signed=s)\<close> raises \<open>OverflowError\<close> outside the
  range of \<open>k\<close> bytes; \<open>int.from_bytes\<close> accepts any length, and the empty byte
  string is 0.
\<close>

definition in_range :: "bool \<Rightarrow> nat \<Rightarrow> int \<Rightarrow> bool" where
  "in_range sg k n =
     (if sg then - (256 ^ k) \<le> 2 * n \<and> 2 * n < 256 ^ k
      else 0 \<le> n \<and> n < 256 ^ k)"

lemma be_int_be_bytes: "in_range False k n \<Longrightarrow> be_int (be_bytes k n) = n"
  by (simp add: be_int_def be_bytes_def le_int_le_bytes in_range_def)

definition to_bytes_le :: "nat \<Rightarrow> bool \<Rightarrow> int \<Rightarrow> bytes res" where
  "to_bytes_le k sg n =
     (if in_range sg k n then Inr (le_bytes k n) else Inl OverflowError)"

definition from_bytes_le :: "bool \<Rightarrow> bytes \<Rightarrow> int" where
  "from_bytes_le sg bs =
     (let u = le_int bs in
      if sg \<and> 256 ^ length bs \<le> 2 * u then u - 256 ^ length bs else u)"

definition to_bytes_be :: "nat \<Rightarrow> bool \<Rightarrow> int \<Rightarrow> bytes res" where
  "to_bytes_be k sg n =
     (if in_range sg k n then Inr (be_bytes k n) else Inl OverflowError)"

definition from_bytes_be :: "bool \<Rightarrow> bytes \<Rightarrow> int" where
  "from_bytes_be sg bs = from_bytes_le sg (rev bs)"

lemma from_bytes_le_le_bytes [codec_simps]:
  assumes "in_range sg k n"
  shows "from_bytes_le sg (le_bytes k n) = n"
proof (cases "sg \<and> n < 0")
  case True
  with assms have b: "- (256 ^ k) \<le> 2 * n" by (simp add: in_range_def)
  have "n mod 256 ^ k = n + 256 ^ k"
  proof -
    have "n mod 256 ^ k = (n + 256 ^ k) mod 256 ^ k" by simp
    also have "\<dots> = n + 256 ^ k" using True b by (intro mod_pos_pos_trivial) auto
    finally show ?thesis .
  qed
  with True b show ?thesis by (simp add: from_bytes_le_def Let_def le_int_le_bytes)
next
  case False
  with assms have "0 \<le> n" "n < 256 ^ k" "sg \<longrightarrow> 2 * n < 256 ^ k"
    by (auto simp: in_range_def split: if_splits)
  then show ?thesis
    by (auto simp: from_bytes_le_def Let_def le_int_le_bytes mod_pos_pos_trivial)
qed

lemma from_bytes_le_range: "in_range sg (length bs) (from_bytes_le sg bs)"
proof -
  have "if sg then - p \<le> 2 * v \<and> 2 * v < p else 0 \<le> v \<and> v < p"
    if "0 \<le> u" "u < p" "v = (if sg \<and> p \<le> 2 * u then u - p else u)" for u v p :: int
    using that by (cases sg) auto
  from this [OF _ _ refl] show ?thesis
    unfolding in_range_def from_bytes_le_def Let_def using le_int_bounds [of bs] by blast
qed

lemma le_bytes_from_bytes_le [codec_simps]:
  "length bs = k \<Longrightarrow> le_bytes k (from_bytes_le sg bs) = bs"
proof -
  assume k: "length bs = k"
  have "from_bytes_le sg bs mod 256 ^ k = le_int bs mod 256 ^ k"
    using k by (auto simp: from_bytes_le_def Let_def)
  then have "le_bytes k (from_bytes_le sg bs) = le_bytes k (le_int bs)"
    by (simp add: le_bytes_inj_mod)
  with k show ?thesis by (simp add: le_bytes_le_int')
qed

lemma from_bytes_be_be_bytes [codec_simps]:
  "in_range sg k n \<Longrightarrow> from_bytes_be sg (be_bytes k n) = n"
  by (simp add: from_bytes_be_def be_bytes_def from_bytes_le_le_bytes)

lemma be_bytes_from_bytes_be [codec_simps]:
  "length bs = k \<Longrightarrow> be_bytes k (from_bytes_be sg bs) = bs"
  by (simp add: from_bytes_be_def be_bytes_def le_bytes_from_bytes_le)

lemma from_bytes_le_unsigned [codec_simps]: "from_bytes_le False bs = le_int bs"
  by (simp add: from_bytes_le_def)

lemma to_bytes_le_ok [res_simps]:
  "to_bytes_le k s n = Inr bs \<longleftrightarrow> in_range s k n \<and> bs = le_bytes k n"
  by (auto simp: to_bytes_le_def)

lemma to_bytes_be_ok [res_simps]:
  "to_bytes_be k s n = Inr bs \<longleftrightarrow> in_range s k n \<and> bs = be_bytes k n"
  by (auto simp: to_bytes_be_def)

lemma in_range_unsigned: "in_range False k n \<longleftrightarrow> 0 \<le> n \<and> n < 256 ^ k"
  by (simp add: in_range_def)

section \<open>The \<open>BytesIO\<close> cursor\<close>

text \<open>
  A \<open>BytesIO\<close> is its buffer and its position.  \<open>read(n)\<close> returns what is there,
  at most \<open>n\<close> bytes, and everything for a negative \<open>n\<close>; \<open>seek(k, 1)\<close> moves
  relative to the position and stops at 0.
\<close>

record bytesio =
  buf :: bytes
  pos :: nat

definition bio :: "bytes \<Rightarrow> bytesio" where
  "bio bs = \<lparr>buf = bs, pos = 0\<rparr>"

definition rest :: "bytesio \<Rightarrow> bytes" where
  "rest b = drop (pos b) (buf b)"

definition bio_read :: "int \<Rightarrow> bytesio \<Rightarrow> bytes \<times> bytesio" where
  "bio_read n b =
     (let r = rest b; x = (if n < 0 then r else take (nat n) r)
      in (x, b\<lparr>pos := pos b + length x\<rparr>))"

definition bio_read_all :: "bytesio \<Rightarrow> bytes \<times> bytesio" where
  "bio_read_all b = bio_read (-1) b"

definition bio_seek_cur :: "int \<Rightarrow> bytesio \<Rightarrow> bytesio" where
  "bio_seek_cur k b = b\<lparr>pos := nat (int (pos b) + k)\<rparr>"

definition bio_seek :: "nat \<Rightarrow> bytesio \<Rightarrow> bytesio" where
  "bio_seek k b = b\<lparr>pos := k\<rparr>"

definition skip :: "nat \<Rightarrow> bytesio \<Rightarrow> bytesio" where
  "skip n b = b\<lparr>pos := pos b + n\<rparr>"

lemma rest_bio [simp, stream_simps]: "rest (bio bs) = bs"
  by (simp add: rest_def bio_def)

lemma buf_bio [simp]: "buf (bio bs) = bs"
  by (simp add: bio_def)

lemma rest_skip [simp, stream_simps]: "rest (skip n b) = drop n (rest b)"
  by (simp add: rest_def skip_def add.commute)

lemma rest_after: "rest b = xs @ ys \<Longrightarrow> rest (skip (length xs) b) = ys"
  by simp

lemma buf_skip [simp]: "buf (skip n b) = buf b"
  by (simp add: skip_def)

lemma skip_skip [simp, stream_simps]: "skip m (skip n b) = skip (n + m) b"
  by (simp add: skip_def add.assoc)

lemma skip_0 [simp, stream_simps]: "skip 0 b = b"
  by (simp add: skip_def)

lemma bio_read_skip [stream_simps]:
  "rest b = xs @ ys \<Longrightarrow> n = int (length xs) \<Longrightarrow> bio_read n b = (xs, skip (length xs) b)"
  by (simp add: bio_read_def skip_def)

lemma bio_read_nonneg:
  "0 \<le> n \<Longrightarrow> bio_read n b = (take (nat n) (rest b), skip (length (take (nat n) (rest b))) b)"
  by (simp add: bio_read_def skip_def Let_def)

lemma bio_read_all_eq [stream_simps]: "bio_read_all b = (rest b, skip (length (rest b)) b)"
  by (simp add: bio_read_all_def bio_read_def skip_def Let_def)

lemma bio_read_buf [simp]: "buf (snd (bio_read n b)) = buf b"
  by (simp add: bio_read_def Let_def)

lemma seek_back_skip [simp, stream_simps]: "bio_seek_cur (- int n) (skip n b) = b"
  by (simp add: bio_seek_cur_def skip_def)

section \<open>Slices\<close>

text \<open>\<open>xs[i:j]\<close> for bounds that are not negative, and \<open>xs[i:]\<close>, where a negative
  bound counts from the end.\<close>

definition pyslice :: "nat \<Rightarrow> nat \<Rightarrow> 'a list \<Rightarrow> 'a list" where
  "pyslice i j xs = take (j - i) (drop i xs)"

definition slice_from :: "int \<Rightarrow> 'a list \<Rightarrow> 'a list" where
  "slice_from i xs = drop (nat (if i < 0 then int (length xs) + i else i)) xs"

lemma length_pyslice [simp]: "length (pyslice i j xs) = min (j - i) (length xs - i)"
  by (simp add: pyslice_def)

section \<open>Chunks and exclusive or\<close>

text \<open>\<open>[xs[i : i + n] for i in range(0, len(xs), n)]\<close>, for a positive \<open>n\<close>.\<close>

function chunks :: "nat \<Rightarrow> 'a list \<Rightarrow> 'a list list" where
  "chunks n xs = (if n = 0 \<or> xs = [] then [] else take n xs # chunks n (drop n xs))"
  by pat_completeness auto
termination
  by (relation "measure (\<lambda>(n, xs). length xs)") auto

declare chunks.simps [simp del]

lemma chunks_Nil [simp]: "chunks n [] = []"
  by (simp add: chunks.simps)

lemma chunks_step: "0 < n \<Longrightarrow> xs \<noteq> [] \<Longrightarrow> chunks n xs = take n xs # chunks n (drop n xs)"
  by (subst chunks.simps) simp

lemma concat_chunks [simp]: "0 < n \<Longrightarrow> concat (chunks n xs) = xs"
proof (induction n xs rule: chunks.induct)
  case (1 n xs)
  then show ?case by (cases "xs = []") (auto simp: chunks_step)
qed

lemma chunks_lengths: "0 < n \<Longrightarrow> c \<in> set (chunks n xs) \<Longrightarrow> 0 < length c \<and> length c \<le> n"
proof (induction n xs rule: chunks.induct)
  case (1 n xs)
  then show ?case by (cases "xs = []") (auto simp: chunks_step)
qed

lemma chunks_exact:
  "0 < n \<Longrightarrow> n dvd length xs \<Longrightarrow> c \<in> set (chunks n xs) \<Longrightarrow> length c = n"
proof (induction n xs rule: chunks.induct)
  case (1 n xs)
  show ?case
  proof (cases "xs = []")
    case True
    with 1 show ?thesis by simp
  next
    case False
    with 1(3) have "n \<le> length xs" by (simp add: dvd_imp_le)
    moreover have "n dvd length (drop n xs)"
      using 1(3) by (simp add: dvd_diff_nat)
    ultimately show ?thesis
      using 1 False by (auto simp: chunks_step)
  qed
qed

lemma chunks_concat:
  "0 < n \<Longrightarrow> (\<And>c. c \<in> set cs \<Longrightarrow> length c = n) \<Longrightarrow> chunks n (concat cs) = cs"
proof (induction cs)
  case Nil
  then show ?case by simp
next
  case (Cons c cs)
  then have "length c = n" by simp
  moreover from this Cons.prems(1) have "c @ concat cs \<noteq> []" by auto
  ultimately show ?case
    using Cons by (simp add: chunks_step)
qed

definition xor_bytes :: "bytes \<Rightarrow> bytes \<Rightarrow> bytes" where
  "xor_bytes a b = map2 (XOR) a b"

lemma length_xor_bytes [simp]: "length (xor_bytes a b) = min (length a) (length b)"
  by (simp add: xor_bytes_def)

lemma xor_bytes_Nil [simp]: "xor_bytes [] b = []" "xor_bytes a [] = []"
  by (simp_all add: xor_bytes_def)

lemma xor_bytes_Cons [simp]: "xor_bytes (x # a) (y # b) = (x XOR y) # xor_bytes a b"
  by (simp add: xor_bytes_def)

lemma xor_byte_cancel [simp]: "(x XOR y) XOR y = (x :: byte)"
  by (simp add: xor.assoc)

lemma xor_bytes_cancel:
  "length a \<le> length b \<Longrightarrow> xor_bytes (xor_bytes a b) b = a"
proof (induction a arbitrary: b)
  case Nil
  then show ?case by simp
next
  case (Cons x a)
  then show ?case by (cases b) auto
qed

end
