(* ===== verification/TL_Primitives.thy ===== *)
theory TL_Primitives
  imports Prelude
begin

text \<open>
  The TL primitives of \<open>kurigram/pyrogram/raw/core/primitives\<close>: \<open>Bool\<close>,
  \<open>Int\<close> / \<open>Long\<close> / \<open>Int128\<close> / \<open>Int256\<close>, \<open>Bytes\<close>, \<open>String\<close> and the typed \<open>Vector\<close>.
  Writing may raise (\<open>OverflowError\<close>); reading follows Python exactly: a short
  stream yields a short byte string and no exception.  The locale
  \<open>wire_codec\<close> states what a reader owes its writer, and every primitive is an
  interpretation of it.
\<close>

section \<open>Integers and booleans\<close>

definition Int_SIZE :: nat where "Int_SIZE = 4"
definition Long_SIZE :: nat where "Long_SIZE = 8"
definition Int128_SIZE :: nat where "Int128_SIZE = 16"
definition Int256_SIZE :: nat where "Int256_SIZE = 32"

lemmas size_defs = Int_SIZE_def Long_SIZE_def Int128_SIZE_def Int256_SIZE_def

definition Int_read :: "nat \<Rightarrow> bool \<Rightarrow> bytesio \<Rightarrow> int \<times> bytesio" where
  "Int_read SIZE sg data = (let (x, data') = bio_read (int SIZE) data in (from_bytes_le sg x, data'))"

definition Int_new :: "nat \<Rightarrow> bool \<Rightarrow> int \<Rightarrow> bytes res" where
  "Int_new SIZE sg value = to_bytes_le SIZE sg value"

definition BoolFalse_ID :: int where "BoolFalse_ID = 0xBC799737"
definition BoolTrue_ID :: int where "BoolTrue_ID = 0x997275B5"

definition BoolFalse_new :: bytes where
  "BoolFalse_new = le_bytes 4 BoolFalse_ID"

definition BoolTrue_new :: bytes where
  "BoolTrue_new = le_bytes 4 BoolTrue_ID"

definition Bool_new :: "bool \<Rightarrow> bytes" where
  "Bool_new value = (if value then BoolTrue_new else BoolFalse_new)"

definition Bool_read :: "bytesio \<Rightarrow> bool \<times> bytesio" where
  "Bool_read data = (let (x, data') = bio_read 4 data in (le_int x = BoolTrue_ID, data'))"

section \<open>Byte strings\<close>

definition Bytes_read :: "bytesio \<Rightarrow> bytes \<times> bytesio" where
  "Bytes_read data =
     (let (l1, data1) = bio_read 1 data;
          len = le_int l1
      in if len \<le> 253 then
           (let (x, data2) = bio_read len data1;
                (_, data3) = bio_read (- (len + 1) mod 4) data2
            in (x, data3))
         else
           (let (l3, data2) = bio_read 3 data1;
                len = le_int l3;
                (x, data3) = bio_read len data2;
                (_, data4) = bio_read (- len mod 4) data3
            in (x, data4)))"

definition Bytes_new :: "bytes \<Rightarrow> bytes res" where
  "Bytes_new value =
     (let len = int (length value)
      in if len \<le> 253 then
           Inr ([word_of_int len] @ value @ replicate (nat (- (len + 1) mod 4)) 0)
         else
           bindR (to_bytes_le 3 False len) (\<lambda>l.
             Inr ([254] @ l @ value @ replicate (nat (- len mod 4)) 0)))"

section \<open>Text\<close>

text \<open>
  A Python \<open>str\<close> is a list of code points.  \<open>str.encode()\<close> is UTF-8 and
  refuses surrogates; \<open>bytes.decode(errors="replace")\<close> never fails and puts one
  U+FFFD for every maximal prefix of an ill-formed sequence.
\<close>

type_synonym pystr = "nat list"

definition is_scalar :: "nat \<Rightarrow> bool" where
  "is_scalar c = (c < 0xD800 \<or> 0xE000 \<le> c \<and> c < 0x110000)"

definition utf8_char :: "nat \<Rightarrow> bytes" where
  "utf8_char c =
     (if c < 0x80 then [of_nat c]
      else if c < 0x800 then [of_nat (0xC0 + c div 64), of_nat (0x80 + c mod 64)]
      else if c < 0x10000 then
        [of_nat (0xE0 + c div 4096), of_nat (0x80 + c div 64 mod 64), of_nat (0x80 + c mod 64)]
      else
        [of_nat (0xF0 + c div 262144), of_nat (0x80 + c div 4096 mod 64),
         of_nat (0x80 + c div 64 mod 64), of_nat (0x80 + c mod 64)])"

definition utf8_encode :: "pystr \<Rightarrow> bytes res" where
  "utf8_encode s =
     (if list_all is_scalar s then Inr (concat (map utf8_char s)) else Inl UnicodeError)"

definition is_cont :: "nat \<Rightarrow> bool" where
  "is_cont b = (0x80 \<le> b \<and> b < 0xC0)"

text \<open>The second byte a lead byte accepts.\<close>

definition second_ok :: "nat \<Rightarrow> nat \<Rightarrow> bool" where
  "second_ok b0 b1 =
     (is_cont b1 \<and> (b0 = 0xE0 \<longrightarrow> 0xA0 \<le> b1) \<and> (b0 = 0xED \<longrightarrow> b1 < 0xA0) \<and>
      (b0 = 0xF0 \<longrightarrow> 0x90 \<le> b1) \<and> (b0 = 0xF4 \<longrightarrow> b1 < 0x90))"

text \<open>One decoding step on the byte values: the code point and how many bytes it used.\<close>

fun utf8_step :: "nat list \<Rightarrow> nat \<times> nat" where
  "utf8_step [] = (0xFFFD, 1)"
| "utf8_step (b0 # bs) =
     (if b0 < 0x80 then (b0, 1)
      else if b0 < 0xC2 \<or> 0xF5 \<le> b0 then (0xFFFD, 1)
      else (case bs of [] \<Rightarrow> (0xFFFD, 1)
        | b1 # bs1 \<Rightarrow>
          (if \<not> second_ok b0 b1 then (0xFFFD, 1)
           else if b0 < 0xE0 then ((b0 - 0xC0) * 64 + (b1 - 0x80), 2)
           else (case bs1 of [] \<Rightarrow> (0xFFFD, 2)
             | b2 # bs2 \<Rightarrow>
               (if \<not> is_cont b2 then (0xFFFD, 2)
                else if b0 < 0xF0 then
                  ((b0 - 0xE0) * 4096 + (b1 - 0x80) * 64 + (b2 - 0x80), 3)
                else (case bs2 of [] \<Rightarrow> (0xFFFD, 3)
                  | b3 # bs3 \<Rightarrow>
                    (if \<not> is_cont b3 then (0xFFFD, 3)
                     else ((b0 - 0xF0) * 262144 + (b1 - 0x80) * 4096
                           + (b2 - 0x80) * 64 + (b3 - 0x80), 4))))))))"

lemma utf8_step_pos: "0 < snd (utf8_step bs)"
  by (cases bs) (auto split: list.splits)

function utf8_decode_nats :: "nat list \<Rightarrow> pystr" where
  "utf8_decode_nats bs =
     (if bs = [] then []
      else (case utf8_step bs of (c, n) \<Rightarrow> c # utf8_decode_nats (drop n bs)))"
  by pat_completeness auto
termination
proof (relation "measure length")
  show "(drop y bs, bs) \<in> measure length" if "bs \<noteq> []" "(x, y) = utf8_step bs" for bs x y
    using that utf8_step_pos [of bs] by (metis diff_less in_measure length_drop length_greater_0_conv snd_conv)
qed simp

declare utf8_decode_nats.simps [simp del]

definition utf8_decode_replace :: "bytes \<Rightarrow> pystr" where
  "utf8_decode_replace bs = utf8_decode_nats (map unat bs)"

definition String_new :: "pystr \<Rightarrow> bytes res" where
  "String_new value = bindR (utf8_encode value) Bytes_new"

definition String_read :: "bytesio \<Rightarrow> pystr \<times> bytesio" where
  "String_read data = (let (x, data') = Bytes_read data in (utf8_decode_replace x, data'))"

section \<open>Typed vectors\<close>

definition Vector_ID :: int where "Vector_ID = 0x1CB5C415"

text \<open>\<open>[t.read(data) for _ in range(n)]\<close>: the reader threads the stream.\<close>

primrec repeatR :: "(bytesio \<Rightarrow> ('a \<times> bytesio) res) \<Rightarrow> nat \<Rightarrow> bytesio \<Rightarrow> ('a list \<times> bytesio) res" where
  "repeatR rd 0 b = Inr ([], b)"
| "repeatR rd (Suc n) b =
     bindR (rd b) (\<lambda>(x, b1). bindR (repeatR rd n b1) (\<lambda>(xs, b2). Inr (x # xs, b2)))"

definition Vector_read :: "(bytesio \<Rightarrow> ('a \<times> bytesio) res) \<Rightarrow> bytesio \<Rightarrow> ('a list \<times> bytesio) res" where
  "Vector_read t_read data = (let (count, data') = Int_read Int_SIZE True data
                              in repeatR t_read (nat count) data')"

definition Vector_body :: "('a \<Rightarrow> bytes res) \<Rightarrow> 'a list \<Rightarrow> bytes res" where
  "Vector_body t value =
     bindR (Int_new Int_SIZE True (int (length value))) (\<lambda>n.
     bindR (mapR t value) (\<lambda>ws. Inr (n @ concat ws)))"

definition Vector_new :: "('a \<Rightarrow> bytes res) \<Rightarrow> 'a list \<Rightarrow> bytes res" where
  "Vector_new t value =
     bindR (Int_new Int_SIZE False Vector_ID) (\<lambda>i.
     bindR (Vector_body t value) (\<lambda>w. Inr (i @ w)))"

section \<open>What a reader owes its writer\<close>

text \<open>
  A total reader as one that may raise, so that all readers share an interface.
\<close>

definition okR :: "(bytesio \<Rightarrow> 'a \<times> bytesio) \<Rightarrow> bytesio \<Rightarrow> ('a \<times> bytesio) res" where
  "okR rd b = Inr (rd b)"

lemma okR_simp [simp]: "okR rd b = Inr (rd b)"
  by (simp add: okR_def)

locale wire_codec =
  fixes wr :: "'a \<Rightarrow> bytes res"
    and rd :: "bytesio \<Rightarrow> ('a \<times> bytesio) res"
  assumes read_back: "wr x = Inr w \<Longrightarrow> rest b = w @ ys \<Longrightarrow> rd b = Inr (x, skip (length w) b)"
begin

lemma read_back_bio: "wr x = Inr w \<Longrightarrow> rd (bio (w @ ys)) = Inr (x, skip (length w) (bio (w @ ys)))"
  by (rule read_back) simp_all

lemma write_inj: "wr x = Inr w \<Longrightarrow> wr y = Inr w \<Longrightarrow> x = y"
  using read_back_bio [of x w "[]"] read_back_bio [of y w "[]"] by simp

text \<open>No encoding is a proper prefix of another one.\<close>

lemma write_prefix_free:
  assumes "wr x = Inr w" "wr y = Inr v" "w @ s = v @ t"
  shows "x = y \<and> w = v"
proof -
  have "rd (bio (w @ s)) = Inr (x, skip (length w) (bio (w @ s)))"
    using assms(1) by (rule read_back_bio)
  moreover have "rd (bio (w @ s)) = Inr (y, skip (length v) (bio (v @ t)))"
    unfolding assms(3) using assms(2) by (rule read_back_bio)
  ultimately have "x = y" by simp
  with assms(1,2) show ?thesis by simp
qed

lemma repeat_read_back:
  "mapR wr xs = Inr ws \<Longrightarrow> rest b = concat ws @ ys \<Longrightarrow>
   repeatR rd (length xs) b = Inr (xs, skip (length (concat ws)) b)"
proof (induction xs arbitrary: ws b)
  case Nil
  then show ?case by simp
next
  case (Cons x xs)
  from Cons.prems(1) obtain w ws' where w: "wr x = Inr w" and ws': "mapR wr xs = Inr ws'"
    and ws: "ws = w # ws'"
    by (auto simp: res_simps)
  from Cons.prems(2) ws have r: "rest b = w @ (concat ws' @ ys)" by simp
  then have "rest (skip (length w) b) = concat ws' @ ys" by simp
  from Cons.IH [OF ws' this] read_back [OF w r] ws show ?case by simp
qed

end

lemma Int_read_back:
  assumes "Int_new k sg x = Inr w" "rest b = w @ ys"
  shows "Int_read k sg b = (x, skip (length w) b)"
proof -
  from assms(1) have w: "w = le_bytes k x" and r: "in_range sg k x"
    by (simp_all add: Int_new_def res_simps)
  have "bio_read (int k) b = (w, skip (length w) b)"
    using assms(2) w by (intro bio_read_skip) auto
  with w r show ?thesis by (simp add: Int_read_def from_bytes_le_le_bytes)
qed

context wire_codec
begin

lemma vector_read_back:
  assumes "Vector_body wr xs = Inr w" "rest b = w @ ys"
  shows "Vector_read rd b = Inr (xs, skip (length w) b)"
proof -
  from assms(1) obtain n ws where n: "Int_new Int_SIZE True (int (length xs)) = Inr n"
    and ws: "mapR wr xs = Inr ws" and w: "w = n @ concat ws"
    by (auto simp: Vector_body_def res_simps)
  from assms(2) w have r: "rest b = n @ (concat ws @ ys)" by simp
  then have r': "rest (skip (length n) b) = concat ws @ ys" by simp
  show ?thesis
    using Int_read_back [OF n r] repeat_read_back [OF ws r'] w
    by (simp add: Vector_read_def)
qed

lemma vector_codec: "wire_codec (Vector_body wr) (Vector_read rd)"
  by unfold_locales (rule vector_read_back)

end

section \<open>The primitives meet the contract\<close>

interpretation tl_int: wire_codec "Int_new Int_SIZE True" "okR (Int_read Int_SIZE True)"
  by unfold_locales (simp add: Int_read_back)

interpretation tl_long: wire_codec "Int_new Long_SIZE True" "okR (Int_read Long_SIZE True)"
  by unfold_locales (simp add: Int_read_back)

interpretation tl_int128: wire_codec "Int_new Int128_SIZE True" "okR (Int_read Int128_SIZE True)"
  by unfold_locales (simp add: Int_read_back)

interpretation tl_int256: wire_codec "Int_new Int256_SIZE True" "okR (Int_read Int256_SIZE True)"
  by unfold_locales (simp add: Int_read_back)

lemma length_Int_new: "Int_new k sg v = Inr w \<Longrightarrow> length w = k"
  by (auto simp: Int_new_def res_simps)

lemma Bool_read_back:
  assumes "rest b = Bool_new v @ ys"
  shows "Bool_read b = (v, skip 4 b)"
proof -
  have l: "length (Bool_new v) = 4"
    by (simp add: Bool_new_def BoolTrue_new_def BoolFalse_new_def)
  have "bio_read 4 b = (Bool_new v, skip 4 b)"
    using bio_read_skip [OF assms, of 4] l by simp
  then show ?thesis
    by (simp add: Bool_read_def Bool_new_def BoolTrue_new_def BoolFalse_new_def le_int_le_bytes
        BoolTrue_ID_def BoolFalse_ID_def)
qed

interpretation tl_bool: wire_codec "\<lambda>v. Inr (Bool_new v)" "okR Bool_read"
  by unfold_locales (auto simp: Bool_read_back Bool_new_def BoolTrue_new_def BoolFalse_new_def)

text \<open>\<open>Bytes\<close>: both length forms, with their padding to a multiple of four.\<close>

lemma Bytes_new_short:
  "length v \<le> 253 \<Longrightarrow>
   Bytes_new v = Inr ([word_of_int (int (length v))] @ v @ replicate (nat (- (int (length v) + 1) mod 4)) 0)"
  by (simp add: Bytes_new_def Let_def)

lemma Bytes_new_long:
  "253 < length v \<Longrightarrow> int (length v) < 256 ^ 3 \<Longrightarrow>
   Bytes_new v = Inr ([254] @ le_bytes 3 (int (length v)) @ v @ replicate (nat (- int (length v) mod 4)) 0)"
  by (simp add: Bytes_new_def Let_def to_bytes_le_def in_range_def)

lemma Bytes_new_overflow: "256 ^ 3 \<le> int (length v) \<Longrightarrow> Bytes_new v = Inl OverflowError"
  by (simp add: Bytes_new_def Let_def to_bytes_le_def in_range_def)

lemma Bytes_new_ok: "Bytes_new v = Inr w \<Longrightarrow> int (length v) < 256 ^ 3"
  using Bytes_new_overflow [of v] by (cases "256 ^ 3 \<le> int (length v)") auto

lemma bio_read_step:
  "rest b = xs @ ys \<Longrightarrow> n = int (length xs) \<Longrightarrow> rest (snd (bio_read n b)) = ys"
  by (simp add: bio_read_skip)

lemma Bytes_read_back:
  assumes w: "Bytes_new v = Inr w" and r: "rest b = w @ ys"
  shows "Bytes_read b = (v, skip (length w) b)"
proof (cases "length v \<le> 253")
  case True
  let ?n = "int (length v)" and ?p = "replicate (nat (- (int (length v) + 1) mod 4)) (0 :: byte)"
  have w': "w = [word_of_int ?n] @ v @ ?p"
    using w Bytes_new_short [OF True] by simp
  have l: "le_int [word_of_int ?n] = ?n"
    using True by (simp only: le_int.simps uint_word_of_int_byte) simp
  have r0: "rest b = [word_of_int ?n] @ (v @ ?p @ ys)" using r w' by simp
  have b1: "bio_read 1 b = ([word_of_int ?n], skip 1 b)"
    using bio_read_skip [OF r0, of 1] by simp
  have r1: "rest (skip 1 b) = v @ (?p @ ys)" using r0 by simp
  have b2: "bio_read ?n (skip 1 b) = (v, skip (1 + length v) b)"
    using bio_read_skip [OF r1, of ?n] by simp
  have r2: "rest (skip (1 + length v) b) = ?p @ ys"
    using r0 by simp
  have b3: "bio_read (- (?n + 1) mod 4) (skip (1 + length v) b)
            = (?p, skip (1 + length v + length ?p) b)"
    using bio_read_skip [OF r2, of "- (?n + 1) mod 4"] by simp
  show ?thesis
    using True b1 b2 b3 l w' by (simp add: Bytes_read_def Let_def)
next
  case False
  let ?n = "int (length v)" and ?p = "replicate (nat (- int (length v) mod 4)) (0 :: byte)"
  have n: "?n < 256 ^ 3" using w by (rule Bytes_new_ok)
  have w': "w = [254] @ le_bytes 3 ?n @ v @ ?p"
    using w Bytes_new_long [OF _ n] False by simp
  have l: "le_int (le_bytes 3 ?n) = ?n"
    using n by (simp add: le_int_le_bytes)
  have r0: "rest b = [254] @ (le_bytes 3 ?n @ v @ ?p @ ys)" using r w' by simp
  have b1: "bio_read 1 b = ([254], skip 1 b)"
    using bio_read_skip [OF r0, of 1] by simp
  have r1: "rest (skip 1 b) = le_bytes 3 ?n @ (v @ ?p @ ys)" using r0 by simp
  have b2: "bio_read 3 (skip 1 b) = (le_bytes 3 ?n, skip 4 b)"
    using bio_read_skip [OF r1, of 3] by simp
  have r2: "rest (skip 4 b) = v @ (?p @ ys)" using r0 by simp
  have b3: "bio_read ?n (skip 4 b) = (v, skip (4 + length v) b)"
    using bio_read_skip [OF r2, of ?n] by simp
  have r3: "rest (skip (4 + length v) b) = ?p @ ys"
    using r2 by (metis rest_skip skip_skip append_eq_conv_conj)
  have b4: "bio_read (- ?n mod 4) (skip (4 + length v) b) = (?p, skip (4 + length v + length ?p) b)"
    using bio_read_skip [OF r3, of "- ?n mod 4"] by simp
  show ?thesis
    using b1 b2 b3 b4 l w' by (simp add: Bytes_read_def Let_def add.assoc)
qed

interpretation tl_bytes: wire_codec Bytes_new "okR Bytes_read"
  by unfold_locales (simp add: Bytes_read_back)

lemma Bytes_new_aligned: "Bytes_new v = Inr w \<Longrightarrow> 4 dvd length w"
proof -
  assume w: "Bytes_new v = Inr w"
  have al: "4 dvd (int m + - int m mod 4)" for m
    by (simp add: dvd_eq_mod_eq_0 mod_simps)
  show ?thesis
  proof (cases "length v \<le> 253")
    case True
    then have "int (length w) = int (length v + 1) + - int (length v + 1) mod 4"
      using w Bytes_new_short [OF True] by (auto simp: algebra_simps)
    with al [of "length v + 1"] show ?thesis by presburger
  next
    case False
    then have "int (length w) = 4 + (int (length v) + - int (length v) mod 4)"
      using w Bytes_new_long [of v] Bytes_new_ok [OF w] by auto
    with al [of "length v"] show ?thesis by presburger
  qed
qed

text \<open>UTF-8: what \<open>str.encode\<close> writes, \<open>bytes.decode\<close> reads.\<close>

lemma unat_of_nat_byte: "n < 256 \<Longrightarrow> unat (of_nat n :: byte) = n"
  by (simp add: unat_of_nat take_bit_nat_eq_self)

lemma base64_digits:
  obtains h m l where "(c :: nat) = 4096 * h + 64 * m + l" "m < 64" "l < 64"
    "c div 4096 = h" "c div 64 mod 64 = m" "c mod 64 = l"
proof
  have d: "c div 4096 = c div 64 div 64"
    using div_mult2_eq [of c 64 64] by simp
  show "c = 4096 * (c div 4096) + 64 * (c div 64 mod 64) + c mod 64"
    unfolding d using div_mult_mod_eq [of "c div 64" 64] div_mult_mod_eq [of c 64] by linarith
qed auto

lemma utf8_step_char:
  assumes "is_scalar c"
  shows "utf8_step (map unat (utf8_char c) @ ys) = (c, length (utf8_char c))"
proof -
  consider "c < 0x80" | "0x80 \<le> c" "c < 0x800" | "0x800 \<le> c" "c < 0x10000"
    | "0x10000 \<le> c" "c < 0x110000"
    using assms unfolding is_scalar_def by fastforce
  then show ?thesis
  proof cases
    case 1
    then show ?thesis by (simp add: utf8_char_def unat_of_nat_byte)
  next
    case 2
    then have q: "c div 64 < 32" "c mod 64 < 64" "2 \<le> c div 64" by auto
    have s: "second_ok (0xC0 + c div 64) (0x80 + c mod 64)"
      using q unfolding second_ok_def is_cont_def by simp
    have m: "map unat (utf8_char c) = [0xC0 + c div 64, 0x80 + c mod 64]"
      using 2 q by (simp add: utf8_char_def unat_of_nat_byte del: of_nat_add)
    have l: "length (utf8_char c) = 2"
      using m by (metis length_map length_Cons list.size(3) numeral_2_eq_2)
    from q s show ?thesis unfolding m l by simp
  next
    case 3
    then have q: "c div 4096 < 16" "c div 64 mod 64 < 64" "c mod 64 < 64" by auto
    obtain h n l where d: "c = 4096 * h + 64 * n + l" "n < 64" "l < 64"
      "c div 4096 = h" "c div 64 mod 64 = n" "c mod 64 = l"
      by (rule base64_digits)
    have e: "c div 4096 * 4096 + c div 64 mod 64 * 64 + c mod 64 = c"
      unfolding d(4-6) using d(1) by simp
    have s: "second_ok (0xE0 + c div 4096) (0x80 + c div 64 mod 64)"
      unfolding d(4-6) using 3 assms d(1-3) unfolding second_ok_def is_cont_def is_scalar_def
      by auto
    have m: "map unat (utf8_char c) = [0xE0 + c div 4096, 0x80 + c div 64 mod 64, 0x80 + c mod 64]"
      using 3 q by (simp add: utf8_char_def unat_of_nat_byte del: of_nat_add)
    have l: "length (utf8_char c) = 3"
      using m by (metis length_map length_Cons list.size(3) numeral_3_eq_3)
    from q e s show ?thesis unfolding m l by (simp add: is_cont_def)
  next
    case 4
    then have q: "c div 262144 < 5" "c div 4096 mod 64 < 64" "c div 64 mod 64 < 64" "c mod 64 < 64"
      by auto
    obtain h n l where d: "c = 4096 * h + 64 * n + l" "n < 64" "l < 64"
      "c div 4096 = h" "c div 64 mod 64 = n" "c mod 64 = l"
      by (rule base64_digits)
    have h: "c div 262144 = h div 64"
      using div_mult2_eq [of c 4096 64] d(4) by simp
    have h': "h div 64 * 64 + h mod 64 = h" by simp
    have e: "c div 262144 * 262144 + c div 4096 mod 64 * 4096 + c div 64 mod 64 * 64 + c mod 64 = c"
      unfolding d(4-6) h using d(1) h' by linarith
    have s: "second_ok (0xF0 + c div 262144) (0x80 + c div 4096 mod 64)"
    proof -
      have "(q = 0 \<longrightarrow> 16 \<le> r) \<and> (q = 4 \<longrightarrow> r < 16)" if "q * 64 + r = h" "r < 64" for q r
        using that 4 d(1-3) by auto
      from this [OF h'] show ?thesis
        unfolding d(4) h second_ok_def is_cont_def by auto
    qed
    have m: "map unat (utf8_char c)
      = [0xF0 + c div 262144, 0x80 + c div 4096 mod 64, 0x80 + c div 64 mod 64, 0x80 + c mod 64]"
      using 4 q by (simp add: utf8_char_def unat_of_nat_byte del: of_nat_add)
    have l: "length (utf8_char c) = 4"
      using 4 by (simp add: utf8_char_def)
    from q e s show ?thesis unfolding m l by (simp add: is_cont_def)
  qed
qed

lemma utf8_char_nonempty [simp]: "utf8_char c \<noteq> []"
  by (simp add: utf8_char_def)

lemma utf8_decode_encode:
  "list_all is_scalar s \<Longrightarrow> utf8_decode_replace (concat (map utf8_char s)) = s"
proof (induction s)
  case Nil
  then show ?case by (simp add: utf8_decode_replace_def utf8_decode_nats.simps)
next
  case (Cons c s)
  then show ?case
    by (subst utf8_decode_replace_def, subst utf8_decode_nats.simps)
      (simp add: utf8_step_char utf8_decode_replace_def)
qed

lemma String_read_back:
  assumes "String_new s = Inr w" "rest b = w @ ys"
  shows "String_read b = (s, skip (length w) b)"
proof -
  from assms(1) obtain u where u: "utf8_encode s = Inr u" and w: "Bytes_new u = Inr w"
    by (auto simp: String_new_def res_simps)
  from u have "utf8_decode_replace u = s"
    by (auto simp: utf8_encode_def utf8_decode_encode split: if_splits)
  with Bytes_read_back [OF w assms(2)] show ?thesis
    by (simp add: String_read_def)
qed

interpretation tl_string: wire_codec String_new "okR String_read"
  by unfold_locales (simp add: String_read_back)

end
