(* ===== verification/TL_Objects.thy ===== *)
theory TL_Objects
  imports TL_Primitives
begin

text \<open>
  The hand-written TL objects of \<open>kurigram/pyrogram/raw/core\<close>: \<open>Message\<close>,
  \<open>MsgContainer\<close>, \<open>GzipPacked\<close>, \<open>FutureSalt\<close>, \<open>FutureSalts\<close>, the untyped \<open>Vector\<close>
  and the dispatch \<open>TLObject.read\<close>.  The table \<open>objects\<close> is written by
  \<open>compiler/api/compiler.py\<close> into \<open>raw/all.py\<close>: its eight core entries are
  modelled, the generated constructors are the parameter \<open>gen_read\<close> /
  \<open>gen_write\<close> of the environment, and so are gzip's two functions.
\<close>

section \<open>Data\<close>

record future_salt =
  valid_since :: int
  valid_until :: int
  salt :: int

text \<open>
  What \<open>TLObject.read\<close> can return and \<open>write\<close> can be called on.  \<open>TLBool\<close> and
  \<open>TLInt\<close> are the plain Python values a bare vector yields, \<open>TLVector\<close> is the
  class \<open>List\<close>, \<open>Gen\<close> an object of a generated class.
\<close>

datatype 'g tl =
    TLBool bool
  | TLInt int
  | TLVector "'g tl list"
  | TLMessage "'g message"
  | MsgContainer "'g message list"
  | GzipPacked "'g tl"
  | TLFutureSalt future_salt
  | FutureSalts int int "future_salt list"
  | Gen 'g
and 'g message = Message (body: "'g tl") (msg_id: int) (seq_no: int) (len: int)

record 'g tl_env =
  gen_read :: "int \<Rightarrow> (bytesio \<Rightarrow> ('g \<times> bytesio) res) option"
  gen_write :: "'g \<Rightarrow> bytes res"
  gz_compress :: "bytes \<Rightarrow> bytes"
  gz_decompress :: "bytes \<Rightarrow> bytes res"

definition MsgContainer_ID :: int where "MsgContainer_ID = 0x73F1F8DC"
definition GzipPacked_ID :: int where "GzipPacked_ID = 0x3072CFA1"
definition FutureSalt_ID :: int where "FutureSalt_ID = 0x0949D9DC"
definition FutureSalts_ID :: int where "FutureSalts_ID = 0xAE500895"
definition Message_ID :: int where "Message_ID = 0x5BB8E511"

lemmas ID_defs = BoolFalse_ID_def BoolTrue_ID_def Vector_ID_def MsgContainer_ID_def
  GzipPacked_ID_def FutureSalt_ID_def FutureSalts_ID_def Message_ID_def

definition core_ids :: "int set" where
  "core_ids = {BoolFalse_ID, BoolTrue_ID, Vector_ID, MsgContainer_ID, GzipPacked_ID,
               FutureSalt_ID, FutureSalts_ID, Message_ID}"

section \<open>Salts\<close>

definition FutureSalt_read :: "bytesio \<Rightarrow> future_salt \<times> bytesio" where
  "FutureSalt_read data =
     (let (vs, data1) = Int_read Int_SIZE True data;
          (vu, data2) = Int_read Int_SIZE True data1;
          (sa, data3) = Int_read Long_SIZE True data2
      in (\<lparr>valid_since = vs, valid_until = vu, salt = sa\<rparr>, data3))"

definition FutureSalt_write :: "future_salt \<Rightarrow> bytes res" where
  "FutureSalt_write f =
     bindR (Int_new Int_SIZE True (valid_since f)) (\<lambda>a.
     bindR (Int_new Int_SIZE True (valid_until f)) (\<lambda>b.
     bindR (Int_new Long_SIZE True (salt f)) (\<lambda>c. Inr (a @ b @ c))))"

definition FutureSalts_read ::
    "bytesio \<Rightarrow> ((int \<times> int \<times> future_salt list) \<times> bytesio) res" where
  "FutureSalts_read data =
     (let (req_msg_id, data1) = Int_read Long_SIZE True data;
          (now, data2) = Int_read Int_SIZE True data1;
          (count, data3) = Int_read Int_SIZE True data2
      in bindR (repeatR (okR FutureSalt_read) (nat count) data3) (\<lambda>(salts, data4).
           Inr ((req_msg_id, now, salts), data4)))"

definition FutureSalts_write :: "int \<Rightarrow> int \<Rightarrow> future_salt list \<Rightarrow> bytes res" where
  "FutureSalts_write req_msg_id now salts =
     bindR (Int_new Int_SIZE False FutureSalts_ID) (\<lambda>i.
     bindR (Int_new Long_SIZE True req_msg_id) (\<lambda>r.
     bindR (Int_new Int_SIZE True now) (\<lambda>n.
     bindR (Int_new Int_SIZE True (int (length salts))) (\<lambda>c.
     bindR (mapR FutureSalt_write salts) (\<lambda>ws. Inr (i @ r @ n @ c @ concat ws))))))"

section \<open>Writing\<close>

lemma bindR_cong [fundef_cong]:
  "r = r' \<Longrightarrow> (\<And>x. r' = Inr x \<Longrightarrow> f x = g x) \<Longrightarrow> bindR r f = bindR r' g"
  by (cases r') auto

lemma mapR_cong [fundef_cong]:
  "xs = ys \<Longrightarrow> (\<And>x. x \<in> set ys \<Longrightarrow> f x = g x) \<Longrightarrow> mapR f xs = mapR g ys"
  by (induction ys arbitrary: xs) auto

text \<open>
  \<open>Message.write\<close> and \<open>FutureSalt.write\<close> put no constructor id in front.  Python
  booleans and integers have no \<open>write\<close>, and \<open>List\<close> inherits the one that raises.
\<close>

fun tl_write :: "'g tl_env \<Rightarrow> 'g tl \<Rightarrow> bytes res"
  and Message_write :: "'g tl_env \<Rightarrow> 'g message \<Rightarrow> bytes res" where
  "tl_write env (TLBool _) = Inl AttributeError"
| "tl_write env (TLInt _) = Inl AttributeError"
| "tl_write env (TLVector _) = Inl NotImplementedError"
| "tl_write env (TLMessage m) = Message_write env m"
| "tl_write env (MsgContainer messages) =
     bindR (Int_new Int_SIZE False MsgContainer_ID) (\<lambda>i.
     bindR (Int_new Int_SIZE True (int (length messages))) (\<lambda>n.
     bindR (mapR (Message_write env) messages) (\<lambda>ws. Inr (i @ n @ concat ws))))"
| "tl_write env (GzipPacked packed_data) =
     bindR (Int_new Int_SIZE False GzipPacked_ID) (\<lambda>i.
     bindR (tl_write env packed_data) (\<lambda>w.
     bindR (Bytes_new (gz_compress env w)) (\<lambda>z. Inr (i @ z))))"
| "tl_write env (TLFutureSalt f) = FutureSalt_write f"
| "tl_write env (FutureSalts req_msg_id now salts) = FutureSalts_write req_msg_id now salts"
| "tl_write env (Gen g) = gen_write env g"
| "Message_write env (Message bd mi sn l) =
     bindR (Int_new Long_SIZE True mi) (\<lambda>a.
     bindR (Int_new Int_SIZE True sn) (\<lambda>b.
     bindR (Int_new Int_SIZE True l) (\<lambda>c.
     bindR (tl_write env bd) (\<lambda>w. Inr (a @ b @ c @ w)))))"

section \<open>Reading\<close>

text \<open>\<open>Message.read\<close>, over the reader for its body: the body is cut out first and
  read from a stream of its own.\<close>

definition Message_read ::
    "(bytesio \<Rightarrow> ('g tl \<times> bytesio) res) \<Rightarrow> bytesio \<Rightarrow> ('g message \<times> bytesio) res" where
  "Message_read rd data =
     (let (mi, data1) = Int_read Long_SIZE True data;
          (sn, data2) = Int_read Int_SIZE True data1;
          (l, data3) = Int_read Int_SIZE True data2;
          (bd, data4) = bio_read l data3
      in bindR (rd (bio bd)) (\<lambda>(obj, _). Inr (Message obj mi sn l, data4)))"

definition MsgContainer_read ::
    "(bytesio \<Rightarrow> ('g tl \<times> bytesio) res) \<Rightarrow> bytesio \<Rightarrow> ('g message list \<times> bytesio) res" where
  "MsgContainer_read rd data =
     (let (count, data1) = Int_read Int_SIZE True data
      in repeatR (Message_read rd) (nat count) data1)"

text \<open>\<open>GzipPacked.read\<close> returns the object inside.\<close>

definition GzipPacked_read ::
    "'g tl_env \<Rightarrow> (bytesio \<Rightarrow> ('g tl \<times> bytesio) res) \<Rightarrow> bytesio \<Rightarrow> ('g tl \<times> bytesio) res" where
  "GzipPacked_read env rd data =
     (let (z, data1) = Bytes_read data
      in bindR (gz_decompress env z) (\<lambda>w. bindR (rd (bio w)) (\<lambda>(obj, _). Inr (obj, data1))))"

text \<open>\<open>Vector.read_bare\<close>: the size decides between an integer, a long and an object,
  and four bytes that spell a boolean constructor become a boolean.\<close>

datatype bare_size = Size4 | Size8 | SizeOther

definition Vector_read_bare ::
    "(bytesio \<Rightarrow> ('g tl \<times> bytesio) res) \<Rightarrow> bare_size \<Rightarrow> bytesio \<Rightarrow> ('g tl \<times> bytesio) res" where
  "Vector_read_bare rd sz b =
     (case sz of
        Size4 \<Rightarrow>
          (let (x, b1) = bio_read 4 b;
               e = le_int x;
               b2 = bio_seek_cur (-4) b1
           in if e = BoolFalse_ID \<or> e = BoolTrue_ID
              then (let (v, b3) = Bool_read b2 in Inr (TLBool v, b3))
              else (let (v, b3) = Int_read Int_SIZE True b2 in Inr (TLInt v, b3)))
      | Size8 \<Rightarrow> (let (v, b1) = Int_read Long_SIZE True b in Inr (TLInt v, b1))
      | SizeOther \<Rightarrow> rd b)"

text \<open>\<open>Vector.read\<close> with no element type.  The quotient \<open>left / count\<close> is a float;
  it is 4 (8) exactly when \<open>left\<close> is four (eight) times \<open>count\<close>, and 0 for \<open>count = 0\<close>.\<close>

definition bare_size_of :: "int \<Rightarrow> int \<Rightarrow> bare_size" where
  "bare_size_of left count =
     (if count \<noteq> 0 \<and> left = 4 * count then Size4
      else if count \<noteq> 0 \<and> left = 8 * count then Size8
      else SizeOther)"

definition Vector_read_untyped ::
    "(bytesio \<Rightarrow> ('g tl \<times> bytesio) res) \<Rightarrow> bytesio \<Rightarrow> ('g tl list \<times> bytesio) res" where
  "Vector_read_untyped rd data =
     (let (count, data1) = Int_read Int_SIZE True data;
          (r, data2) = bio_read_all data1;
          left = int (length r);
          sz = bare_size_of left count;
          data3 = bio_seek_cur (- left) data2
      in repeatR (Vector_read_bare rd sz) (nat count) data3)"

text \<open>
  \<open>TLObject.read\<close>: the dispatch on the constructor id.  Objects nest, through
  containers and through gzip, and gzip may expand, so the recursion is bounded
  by fuel; running out stands for Python's \<open>RecursionError\<close>.
\<close>

fun tl_read :: "'g tl_env \<Rightarrow> nat \<Rightarrow> bytesio \<Rightarrow> ('g tl \<times> bytesio) res" where
  "tl_read env 0 b = Inl RecursionError"
| "tl_read env (Suc n) b =
     (let (x, b1) = bio_read 4 b; i = le_int x
      in if i = BoolFalse_ID then Inr (TLBool False, b1)
         else if i = BoolTrue_ID then Inr (TLBool True, b1)
         else if i = Vector_ID then
           bindR (Vector_read_untyped (tl_read env n) b1) (\<lambda>(xs, b2). Inr (TLVector xs, b2))
         else if i = MsgContainer_ID then
           bindR (MsgContainer_read (tl_read env n) b1) (\<lambda>(ms, b2). Inr (MsgContainer ms, b2))
         else if i = FutureSalts_ID then
           bindR (FutureSalts_read b1) (\<lambda>((r, now, salts), b2). Inr (FutureSalts r now salts, b2))
         else if i = FutureSalt_ID then
           (let (f, b2) = FutureSalt_read b1 in Inr (TLFutureSalt f, b2))
         else if i = GzipPacked_ID then GzipPacked_read env (tl_read env n) b1
         else if i = Message_ID then
           bindR (Message_read (tl_read env n) b1) (\<lambda>(m, b2). Inr (TLMessage m, b2))
         else (case gen_read env i of
                 None \<Rightarrow> Inl (KeyError i)
               | Some rd \<Rightarrow> bindR (rd b1) (\<lambda>(g, b2). Inr (Gen g, b2))))"

section \<open>Codec laws\<close>

lemma FutureSalt_read_back:
  assumes w: "FutureSalt_write f = Inr w" and r: "rest b = w @ ys"
  shows "FutureSalt_read b = (f, skip (length w) b)"
proof -
  from w obtain a c d where a: "Int_new Int_SIZE True (valid_since f) = Inr a"
    and c: "Int_new Int_SIZE True (valid_until f) = Inr c"
    and d: "Int_new Long_SIZE True (salt f) = Inr d" and w': "w = a @ c @ d"
    by (auto simp: FutureSalt_write_def res_simps)
  have r0: "rest b = a @ (c @ d @ ys)" using r w' by simp
  then have r1: "rest (skip (length a) b) = c @ (d @ ys)" by (rule rest_after)
  then have r2: "rest (skip (length c) (skip (length a) b)) = d @ ys" by (rule rest_after)
  show ?thesis
    using Int_read_back [OF a r0] Int_read_back [OF c r1] Int_read_back [OF d r2] w'
    by (simp add: FutureSalt_read_def add.assoc)
qed

interpretation tl_future_salt: wire_codec FutureSalt_write "okR FutureSalt_read"
  by unfold_locales (simp add: FutureSalt_read_back)

lemma FutureSalts_read_back:
  assumes w: "FutureSalts_write q now salts = Inr w" and r: "rest b = w @ ys"
  shows "\<exists>w'. w = le_bytes 4 FutureSalts_ID @ w' \<and>
    FutureSalts_read (skip 4 b) = Inr ((q, now, salts), skip (length w) b)"
proof -
  from w obtain a c d ws where i: "Int_new Int_SIZE False FutureSalts_ID = Inr (le_bytes 4 FutureSalts_ID)"
    and a: "Int_new Long_SIZE True q = Inr a" and c: "Int_new Int_SIZE True now = Inr c"
    and d: "Int_new Int_SIZE True (int (length salts)) = Inr d"
    and ws: "mapR FutureSalt_write salts = Inr ws"
    and w': "w = le_bytes 4 FutureSalts_ID @ a @ c @ d @ concat ws"
    by (auto simp: FutureSalts_write_def res_simps Int_new_def Int_SIZE_def)
  have r0: "rest (skip 4 b) = a @ (c @ d @ concat ws @ ys)" using r w' by simp
  then have r1: "rest (skip (length a) (skip 4 b)) = c @ (d @ concat ws @ ys)" by (rule rest_after)
  then have r2: "rest (skip (length c) (skip (length a) (skip 4 b))) = d @ (concat ws @ ys)" by (rule rest_after)
  then have r3: "rest (skip (length d) (skip (length c) (skip (length a) (skip 4 b)))) = concat ws @ ys"
    by (rule rest_after)
  show ?thesis
    using Int_read_back [OF a r0] Int_read_back [OF c r1] Int_read_back [OF d r2] w'
      tl_future_salt.repeat_read_back [OF ws r3]
    by (simp add: FutureSalts_read_def add.assoc)
qed

section \<open>Reading back what was written\<close>

text \<open>
  What the reader relies on: a generated class writes its own constructor id,
  which is none of the core ones, and its \<open>read\<close> undoes its \<open>write\<close>; gzip
  decompresses what it compressed.
\<close>

definition gen_law :: "'g tl_env \<Rightarrow> bool" where
  "gen_law env \<longleftrightarrow> (\<forall>g w. gen_write env g = Inr w \<longrightarrow>
     (\<exists>i w' rd. w = le_bytes 4 i @ w' \<and> in_range False 4 i \<and> i \<notin> core_ids \<and>
        gen_read env i = Some rd \<and>
        (\<forall>b ys. rest b = w' @ ys \<longrightarrow> rd b = Inr (g, skip (length w') b))))"

definition gz_law :: "'g tl_env \<Rightarrow> bool" where
  "gz_law env \<longleftrightarrow> (\<forall>w. gz_decompress env (gz_compress env w) = Inr w)"

text \<open>The objects that carry an id, with the length field of every message in a
  container equal to the size of its body, as \<open>MsgFactory\<close> sets it.\<close>

fun readable :: "'g tl_env \<Rightarrow> 'g tl \<Rightarrow> bool"
  and message_ok :: "'g tl_env \<Rightarrow> 'g message \<Rightarrow> bool" where
  "readable env (MsgContainer ms) = list_all (message_ok env) ms"
| "readable env (GzipPacked x) = readable env x"
| "readable env (FutureSalts _ _ _) = True"
| "readable env (Gen _) = True"
| "readable env _ = False"
| "message_ok env (Message bd mi sn l) =
     (readable env bd \<and> (case tl_write env bd of Inl _ \<Rightarrow> False | Inr w \<Rightarrow> l = int (length w)))"

fun unzipped :: "'g tl \<Rightarrow> 'g tl" and unzipped_message :: "'g message \<Rightarrow> 'g message" where
  "unzipped (MsgContainer ms) = MsgContainer (map unzipped_message ms)"
| "unzipped (GzipPacked x) = unzipped x"
| "unzipped (FutureSalts r now salts) = FutureSalts r now salts"
| "unzipped x = x"
| "unzipped_message (Message bd mi sn l) = Message (unzipped bd) mi sn l"

fun depth :: "'g tl \<Rightarrow> nat" and message_depth :: "'g message \<Rightarrow> nat" where
  "depth (MsgContainer ms) = Suc (foldr max (map message_depth ms) 0)"
| "depth (GzipPacked x) = Suc (depth x)"
| "depth (TLVector _) = 1"
| "depth _ = 1"
| "message_depth (Message bd mi sn l) = depth bd"

lemma foldr_max_le: "(\<forall>m \<in> set ms. f m \<le> n) \<longleftrightarrow> foldr max (map f ms) (0::nat) \<le> n"
  by (induction ms) auto

lemma length_take_skip: "rest b = w @ ys \<Longrightarrow> bio_read (int (length w)) b = (w, skip (length w) b)"
  by (simp add: bio_read_skip)

lemma read_id:
  assumes "rest b = le_bytes 4 i @ ys" "in_range False 4 i"
  shows "bio_read 4 b = (le_bytes 4 i, skip 4 b)" "le_int (le_bytes 4 i) = i"
  using bio_read_skip [OF assms(1), of 4] assms(2)
  by (simp_all add: in_range_def le_int_le_bytes)

lemma Message_read_back:
  assumes w: "Message_write env (Message bd mi sn l) = Inr w"
    and v: "tl_write env bd = Inr v" and l: "l = int (length v)"
    and r: "rest b = w @ ys" and rd: "rd (bio v) = Inr (obj, c)"
  shows "Message_read rd b = Inr (Message obj mi sn l, skip (length w) b)"
proof -
  from w v obtain a d e where a: "Int_new Long_SIZE True mi = Inr a"
    and d: "Int_new Int_SIZE True sn = Inr d" and e: "Int_new Int_SIZE True l = Inr e"
    and w': "w = a @ d @ e @ v"
    by (auto simp: res_simps)
  have r0: "rest b = a @ (d @ e @ v @ ys)" using r w' by simp
  then have r1: "rest (skip (length a) b) = d @ (e @ v @ ys)" by (rule rest_after)
  then have r2: "rest (skip (length d) (skip (length a) b)) = e @ (v @ ys)" by (rule rest_after)
  then have r3: "rest (skip (length e) (skip (length d) (skip (length a) b))) = v @ ys" by (rule rest_after)
  show ?thesis
    using Int_read_back [OF a r0] Int_read_back [OF d r1] Int_read_back [OF e r2]
      length_take_skip [OF r3] w' rd l
    by (simp add: Message_read_def add.assoc)
qed

lemma ids_in_range [simp]:
  "in_range False 4 MsgContainer_ID" "in_range False 4 GzipPacked_ID"
  "in_range False 4 FutureSalts_ID"
  by (simp_all add: ID_defs in_range_def)

lemma Int_new_id: "in_range False 4 i \<Longrightarrow> Int_new Int_SIZE False i = Inr (le_bytes 4 i)"
  by (simp add: Int_new_def Int_SIZE_def to_bytes_le_def)

lemma repeatR_read_back:
  assumes "\<And>x w b ys. x \<in> set xs \<Longrightarrow> wr x = Inr w \<Longrightarrow> rest b = w @ ys \<Longrightarrow>
      rd b = Inr (g x, skip (length w) b)"
  shows "mapR wr xs = Inr ws \<Longrightarrow> rest b = concat ws @ ys \<Longrightarrow>
    repeatR rd (length xs) b = Inr (map g xs, skip (length (concat ws)) b)"
  using assms
proof (induction xs arbitrary: ws b)
  case Nil
  then show ?case by simp
next
  case (Cons x xs)
  from Cons.prems(1) obtain w ws' where w: "wr x = Inr w" and ws': "mapR wr xs = Inr ws'"
    and ws: "ws = w # ws'"
    by (auto simp: res_simps)
  from Cons.prems(2) ws have r: "rest b = w @ (concat ws' @ ys)" by simp
  have "repeatR rd (length xs) (skip (length w) b)
      = Inr (map g xs, skip (length (concat ws')) (skip (length w) b))"
    by (rule Cons.IH [OF ws' rest_after [OF r]], rule Cons.prems(3)) simp_all
  with Cons.prems(3) [OF _ w r] ws show ?case by simp
qed

lemma MsgContainer_read_back:
  assumes w: "tl_write env (MsgContainer ms) = Inr w" and r: "rest b = w @ ys"
    and m: "\<And>m v b ys. m \<in> set ms \<Longrightarrow> Message_write env m = Inr v \<Longrightarrow> rest b = v @ ys \<Longrightarrow>
      Message_read rd b = Inr (g m, skip (length v) b)"
  shows "bio_read 4 b = (le_bytes 4 MsgContainer_ID, skip 4 b)"
    and "MsgContainer_read rd (skip 4 b) = Inr (map g ms, skip (length w) b)"
proof -
  from w obtain n ws where n: "Int_new Int_SIZE True (int (length ms)) = Inr n"
    and ws: "mapR (Message_write env) ms = Inr ws"
    and w': "w = le_bytes 4 MsgContainer_ID @ n @ concat ws"
    by (auto simp: res_simps Int_new_id)
  have r0: "rest b = le_bytes 4 MsgContainer_ID @ (n @ concat ws @ ys)" using r w' by simp
  then show "bio_read 4 b = (le_bytes 4 MsgContainer_ID, skip 4 b)" by (simp add: read_id)
  from r0 have r1: "rest (skip 4 b) = n @ (concat ws @ ys)" by simp
  note r2 = rest_after [OF r1]
  show "MsgContainer_read rd (skip 4 b) = Inr (map g ms, skip (length w) b)"
    using Int_read_back [OF n r1] repeatR_read_back [OF m ws r2] w'
    by (simp add: MsgContainer_read_def add.assoc)
qed

text \<open>The dispatch, once per constructor.\<close>

lemma tl_read_dispatch:
  assumes "rest b = le_bytes 4 i @ ys" "in_range False 4 i"
  shows "i = MsgContainer_ID \<Longrightarrow> tl_read env (Suc n) b =
      bindR (MsgContainer_read (tl_read env n) (skip 4 b)) (\<lambda>(ms, b2). Inr (MsgContainer ms, b2))"
    and "i = FutureSalts_ID \<Longrightarrow> tl_read env (Suc n) b =
      bindR (FutureSalts_read (skip 4 b)) (\<lambda>((r, now, salts), b2). Inr (FutureSalts r now salts, b2))"
    and "i = GzipPacked_ID \<Longrightarrow> tl_read env (Suc n) b = GzipPacked_read env (tl_read env n) (skip 4 b)"
    and "i \<notin> core_ids \<Longrightarrow> gen_read env i = Some rd \<Longrightarrow> tl_read env (Suc n) b =
      bindR (rd (skip 4 b)) (\<lambda>(g, b2). Inr (Gen g, b2))"
    and "i \<notin> core_ids \<Longrightarrow> gen_read env i = None \<Longrightarrow> tl_read env (Suc n) b = Inl (KeyError i)"
  using read_id [OF assms] by (simp_all add: ID_defs core_ids_def)

lemma tl_read_write_mutual:
  assumes "gen_law env" "gz_law env"
  shows "tl_write env x = Inr w \<Longrightarrow> readable env x \<Longrightarrow> depth x \<le> n \<Longrightarrow> rest b = w @ ys \<Longrightarrow>
      tl_read env n b = Inr (unzipped x, skip (length w) b)"
    and "Message_write env m = Inr w \<Longrightarrow> message_ok env m \<Longrightarrow> message_depth m \<le> n \<Longrightarrow>
      rest b = w @ ys \<Longrightarrow> Message_read (tl_read env n) b = Inr (unzipped_message m, skip (length w) b)"
proof (induction x and m arbitrary: w n b ys and w n b ys)
  case (MsgContainer ms)
  then obtain k where n: "n = Suc k" and k: "\<forall>m \<in> set ms. message_depth m \<le> k"
    by (cases n) (auto simp: foldr_max_le)
  have m: "m \<in> set ms \<Longrightarrow> Message_write env m = Inr v \<Longrightarrow> rest c = v @ zs \<Longrightarrow>
      Message_read (tl_read env k) c = Inr (unzipped_message m, skip (length v) c)" for m v c zs
    using MsgContainer.IH [of m v k c zs] MsgContainer.prems(2) k by (simp add: list_all_iff)
  have c: "MsgContainer_read (tl_read env k) (skip 4 b)
      = Inr (map unzipped_message ms, skip (length w) b)"
    by (rule MsgContainer_read_back(2) [OF MsgContainer.prems(1,4)]) (rule m)
  from MsgContainer.prems(1,4) obtain zs where "rest b = le_bytes 4 MsgContainer_ID @ zs"
    by (auto simp: res_simps Int_new_id)
  from tl_read_dispatch(1) [OF this, of env] c show ?case by (simp add: n del: tl_read.simps)
next
  case (GzipPacked x)
  then obtain k where n: "n = Suc k" and k: "depth x \<le> k" by (cases n) auto
  from GzipPacked.prems(1) obtain v z where v: "tl_write env x = Inr v"
    and z: "Bytes_new (gz_compress env v) = Inr z" and w: "w = le_bytes 4 GzipPacked_ID @ z"
    by (auto simp: res_simps Int_new_id)
  have r: "rest b = le_bytes 4 GzipPacked_ID @ (z @ ys)" using GzipPacked.prems(4) w by simp
  then have r1: "rest (skip 4 b) = z @ ys" by simp
  have "tl_read env k (bio v) = Inr (unzipped x, skip (length v) (bio v))"
    using GzipPacked.IH [OF v _ k, of "bio v" "[]"] GzipPacked.prems(2) by simp
  moreover have "gz_decompress env (gz_compress env v) = Inr v"
    using assms(2) by (simp add: gz_law_def)
  ultimately show ?case
    using tl_read_dispatch(3) [OF r, of env] Bytes_read_back [OF z r1] w
    by (simp add: n GzipPacked_read_def)
next
  case (FutureSalts q now salts)
  then obtain k where n: "n = Suc k" by (cases n) auto
  from FutureSalts have "FutureSalts_write q now salts = Inr w" by simp
  from FutureSalts_read_back [OF this FutureSalts.prems(4)] FutureSalts.prems(4)
  obtain w' where r: "rest b = le_bytes 4 FutureSalts_ID @ (w' @ ys)"
    and "FutureSalts_read (skip 4 b) = Inr ((q, now, salts), skip (length w) b)" by auto
  with tl_read_dispatch(2) [OF r, of env] show ?case by (simp add: n)
next
  case (Gen g)
  then obtain k where n: "n = Suc k" by (cases n) auto
  from Gen have "gen_write env g = Inr w" by simp
  with assms(1) obtain i w' rd where w: "w = le_bytes 4 i @ w'" and i: "in_range False 4 i"
    and c: "i \<notin> core_ids" and rd: "gen_read env i = Some rd"
    and rb: "\<And>b ys. rest b = w' @ ys \<Longrightarrow> rd b = Inr (g, skip (length w') b)"
    unfolding gen_law_def by blast
  have r: "rest b = le_bytes 4 i @ (w' @ ys)" using Gen.prems(4) w by simp
  then have "rest (skip 4 b) = w' @ ys" by simp
  from rb [OF this] tl_read_dispatch(4) [OF r i c rd] w show ?case by (simp add: n)
next
  case (Message bd mi sn l)
  from Message.prems(2) obtain v where v: "tl_write env bd = Inr v" and l: "l = int (length v)"
    and bd: "readable env bd" by (auto split: sum.splits)
  have "tl_read env n (bio v) = Inr (unzipped bd, skip (length v) (bio v))"
    using Message.IH [OF v bd, of n "bio v" "[]"] Message.prems(3) by simp
  then show ?case
    using Message_read_back [OF Message.prems(1) v l Message.prems(4), of "tl_read env n"] by simp
qed auto

section \<open>Properties\<close>

text \<open>
  C6. Reading undoes writing for whole TL objects: containers of messages, gzip
  packing at any depth, salts and generated objects.  With fuel for the nesting depth
  the reader returns, gives the object with its gzip layers removed, and stops right
  behind it, whatever follows in the stream.
\<close>

theorem tl_read_write:
  assumes "gen_law env" "gz_law env" "tl_write env x = Inr w" "readable env x" "depth x \<le> n"
    "rest b = w @ ys"
  shows "tl_read env n b = Inr (unzipped x, skip (length w) b)"
  using tl_read_write_mutual(1) [OF assms] .

text \<open>An environment with one generated class, a 64-bit number under constructor
  id 1, and gzip as the identity.\<close>

definition number_env :: "int tl_env" where
  "number_env = \<lparr>
     gen_read = (\<lambda>i. if i = 1 then Some (okR (Int_read Long_SIZE True)) else None),
     gen_write = (\<lambda>g. bindR (Int_new Long_SIZE True g) (\<lambda>w. Inr (le_bytes 4 1 @ w))),
     gz_compress = id, gz_decompress = Inr\<rparr>"

lemma number_env_laws: "gen_law number_env" "gz_law number_env"
proof -
  show "gen_law number_env"
    unfolding gen_law_def
  proof (intro allI impI)
    fix g w assume "gen_write number_env g = Inr w"
    then obtain v where v: "Int_new Long_SIZE True g = Inr v" "w = le_bytes 4 1 @ v"
      by (auto simp: number_env_def res_simps)
    have "rest b = v @ ys \<Longrightarrow> okR (Int_read Long_SIZE True) b = Inr (g, skip (length v) b)" for b ys
      using Int_read_back [OF v(1)] by simp
    with v(2) show "\<exists>i w' rd. w = le_bytes 4 i @ w' \<and> in_range False 4 i \<and> i \<notin> core_ids \<and>
        gen_read number_env i = Some rd \<and>
        (\<forall>b ys. rest b = w' @ ys \<longrightarrow> rd b = Inr (g, skip (length w') b))"
      by (intro exI [of _ 1] exI [of _ v] exI [of _ "okR (Int_read Long_SIZE True)"])
        (auto simp: number_env_def in_range_def core_ids_def ID_defs)
  qed
qed (simp add: gz_law_def number_env_def)

theorem tl_read_write_witness:
  "case tl_write number_env (MsgContainer [Message (GzipPacked (Gen 5)) 8 1 20]) of
     Inl _ \<Rightarrow> False
   | Inr w \<Rightarrow> tl_read number_env 3 (bio (w @ [7])) =
      Inr (MsgContainer [Message (Gen 5) 8 1 20], skip (length w) (bio (w @ [7])))"
proof -
  let ?x = "MsgContainer [Message (GzipPacked (Gen 5)) 8 1 20]"
  have "case tl_write number_env ?x of Inl _ \<Rightarrow> False | Inr _ \<Rightarrow> True" by code_simp
  then have w: "\<exists>w. tl_write number_env ?x = Inr w" by (auto split: sum.splits)
  have r: "readable number_env ?x" "depth ?x \<le> 3" by code_simp+
  from w obtain w where w: "tl_write number_env ?x = Inr w" ..
  show ?thesis
    using tl_read_write [OF number_env_laws w r, of "bio (w @ [7])"] w by simp
qed

end
