(* ===== verification/Aes_Modes.thy ===== *)
theory Aes_Modes
  imports Prelude
begin

text \<open>
  \<open>kurigram/pyrogram/crypto/aes.py\<close>, the branch without TgCrypto: the IGE and CTR
  modes on top of \<open>pyaes.AES\<close>.  The block cipher is not part of the repository;
  its two methods are the fields \<open>aes_encrypt\<close> and \<open>aes_decrypt\<close> of a record, and
  the locale \<open>block_cipher\<close> is what the modes rely on.
\<close>

section \<open>The block cipher\<close>

record aes =
  aes_encrypt :: "bytes \<Rightarrow> bytes \<Rightarrow> bytes res"
  aes_decrypt :: "bytes \<Rightarrow> bytes \<Rightarrow> bytes res"

text \<open>
  \<open>pyaes.AES(key)\<close> with a 32-byte key encrypts every 16-byte block into a 16-byte
  block, and \<open>decrypt\<close> undoes it.
\<close>

definition aes_law :: "aes \<Rightarrow> bool" where
  "aes_law c \<longleftrightarrow> (\<forall>k x. length k = 32 \<longrightarrow> length x = 16 \<longrightarrow>
     (\<exists>y. aes_encrypt c k x = Inr y \<and> length y = 16 \<and> aes_decrypt c k y = Inr x))"

section \<open>Exclusive or through big integers\<close>

definition py_xor :: "bytes \<Rightarrow> bytes \<Rightarrow> bytes res" where
  "py_xor a b = to_bytes_be (length a) False (from_bytes_be False a XOR from_bytes_be False b)"

section \<open>IGE\<close>

fun ige_encrypt_loop :: "(bytes \<Rightarrow> bytes res) \<Rightarrow> bytes \<Rightarrow> bytes \<Rightarrow> bytes list \<Rightarrow> bytes list res" where
  "ige_encrypt_loop enc iv_1 iv_2 [] = Inr []"
| "ige_encrypt_loop enc iv_1 iv_2 (chunk # data) =
     bindR (py_xor chunk iv_1) (\<lambda>x.
     bindR (enc x) (\<lambda>y.
     bindR (py_xor y iv_2) (\<lambda>out.
     bindR (ige_encrypt_loop enc out chunk data) (\<lambda>outs. Inr (out # outs)))))"

fun ige_decrypt_loop :: "(bytes \<Rightarrow> bytes res) \<Rightarrow> bytes \<Rightarrow> bytes \<Rightarrow> bytes list \<Rightarrow> bytes list res" where
  "ige_decrypt_loop dec iv_1 iv_2 [] = Inr []"
| "ige_decrypt_loop dec iv_1 iv_2 (chunk # data) =
     bindR (py_xor chunk iv_2) (\<lambda>x.
     bindR (dec x) (\<lambda>y.
     bindR (py_xor y iv_1) (\<lambda>out.
     bindR (ige_decrypt_loop dec chunk out data) (\<lambda>outs. Inr (out # outs)))))"

definition ige :: "aes \<Rightarrow> bytes \<Rightarrow> bytes \<Rightarrow> bytes \<Rightarrow> bool \<Rightarrow> bytes res" where
  "ige c data key iv encrypt =
     (let iv_1 = take 16 iv; iv_2 = drop 16 iv; data = chunks 16 data
      in bindR (if encrypt then ige_encrypt_loop (aes_encrypt c key) iv_1 iv_2 data
                else ige_decrypt_loop (aes_decrypt c key) iv_1 iv_2 data)
           (\<lambda>outs. Inr (concat outs)))"

definition ige256_encrypt :: "aes \<Rightarrow> bytes \<Rightarrow> bytes \<Rightarrow> bytes \<Rightarrow> bytes res" where
  "ige256_encrypt c data key iv = ige c data key iv True"

definition ige256_decrypt :: "aes \<Rightarrow> bytes \<Rightarrow> bytes \<Rightarrow> bytes \<Rightarrow> bytes res" where
  "ige256_decrypt c data key iv = ige c data key iv False"

section \<open>CTR\<close>

text \<open>
  The loop \<open>for k in range(15, -1, -1)\<close> over the counter: a byte 255 overflows
  into \<open>ValueError\<close>, is set to 0, and the carry goes on; past the first byte it is
  dropped.  Here the counter is read from its last byte.
\<close>

fun carry_le :: "bytes \<Rightarrow> bytes" where
  "carry_le [] = []"
| "carry_le (b # bs) = (if b = 255 then 0 # carry_le bs else (b + 1) # bs)"

definition increment :: "bytes \<Rightarrow> bytes" where
  "increment iv = rev (carry_le (rev iv))"

text \<open>
  One pass of the loop body per byte.  \<open>iv\<close> and \<open>state\<close> are the caller's
  \<open>bytearray\<close>s and are changed in place, so they are results too; \<open>chunk\<close> is
  recomputed whenever the position wraps to 0.
\<close>

fun ctr_loop :: "(bytes \<Rightarrow> bytes res) \<Rightarrow> bytes \<Rightarrow> bytes \<Rightarrow> bytes \<Rightarrow> nat \<Rightarrow> (bytes \<times> bytes \<times> nat) res" where
  "ctr_loop enc [] chunk iv st = Inr ([], iv, st)"
| "ctr_loop enc (d # data) chunk iv st =
     (if length chunk \<le> st then Inl IndexError
      else let out = d XOR chunk ! st;
               st = (if 16 \<le> st + 1 then 0 else st + 1)
           in if st = 0
              then let iv = increment iv in
                   bindR (enc iv) (\<lambda>chunk.
                   bindR (ctr_loop enc data chunk iv st) (\<lambda>(outs, r). Inr (out # outs, r)))
              else bindR (ctr_loop enc data chunk iv st) (\<lambda>(outs, r). Inr (out # outs, r)))"

definition ctr :: "aes \<Rightarrow> bytes \<Rightarrow> bytes \<Rightarrow> bytes \<Rightarrow> nat \<Rightarrow> (bytes \<times> bytes \<times> nat) res" where
  "ctr c data key iv st =
     bindR (aes_encrypt c key iv) (\<lambda>chunk. ctr_loop (aes_encrypt c key) data chunk iv st)"

text \<open>\<open>state or bytearray(1)\<close>: without a state the position starts at 0 and its
  final value is lost.\<close>

definition ctr256_encrypt ::
    "aes \<Rightarrow> bytes \<Rightarrow> bytes \<Rightarrow> bytes \<Rightarrow> nat option \<Rightarrow> (bytes \<times> bytes \<times> nat option) res" where
  "ctr256_encrypt c data key iv st =
     bindR (ctr c data key iv (case st of None \<Rightarrow> 0 | Some s \<Rightarrow> s))
       (\<lambda>(out, iv', s'). Inr (out, iv', map_option (\<lambda>_. s') st))"

definition ctr256_decrypt ::
    "aes \<Rightarrow> bytes \<Rightarrow> bytes \<Rightarrow> bytes \<Rightarrow> nat option \<Rightarrow> (bytes \<times> bytes \<times> nat option) res" where
  "ctr256_decrypt c data key iv st =
     bindR (ctr c data key iv (case st of None \<Rightarrow> 0 | Some s \<Rightarrow> s))
       (\<lambda>(out, iv', s'). Inr (out, iv', map_option (\<lambda>_. s') st))"

text \<open>The key stream from position \<open>st\<close> of the block of counter \<open>iv\<close> on.\<close>

definition block :: "(bytes \<Rightarrow> bytes res) \<Rightarrow> bytes \<Rightarrow> bytes" where
  "block enc iv = (case enc iv of Inr y \<Rightarrow> y | Inl _ \<Rightarrow> [])"

definition keystream :: "(bytes \<Rightarrow> bytes res) \<Rightarrow> bytes \<Rightarrow> nat \<Rightarrow> nat \<Rightarrow> bytes" where
  "keystream enc iv st n =
     map (\<lambda>i. block enc ((increment ^^ ((st + i) div 16)) iv) ! ((st + i) mod 16)) [0..<n]"

section \<open>Exclusive or is byte-wise\<close>

lemma int_concat_bits:
  assumes "0 \<le> u" "u < 256"
  shows "u + 256 * l = concat_bit 8 u (l :: int)"
  using assms by (simp add: concat_bit_eq push_bit_eq_mult take_bit_int_eq_self)

lemma xor_concat_bits:
  "concat_bit n a (l :: int) XOR concat_bit n b m = concat_bit n (a XOR b) (l XOR m)"
  by (rule bit_eqI) (auto simp: bit_concat_bit_iff bit_xor_iff)

lemma le_int_xor: "length a = length b \<Longrightarrow> le_int a XOR le_int b = le_int (xor_bytes a b)"
proof (induction a b rule: list_induct2)
  case Nil
  then show ?case by (simp add: xor_bytes_def)
next
  case (Cons x xs y ys)
  have "le_int (x # xs) XOR le_int (y # ys) = concat_bit 8 (uint x XOR uint y) (le_int (xor_bytes xs ys))"
    using Cons by (simp only: le_int.simps int_concat_bits uint_byte_bounds xor_concat_bits)
  also have "uint x XOR uint y = uint (x XOR y)"
    by (simp add: uint_xor)
  finally show ?case
    by (simp only: xor_bytes_def list.map zip_Cons_Cons prod.case le_int.simps int_concat_bits
        uint_byte_bounds)
qed

lemma rev_xor_bytes: "length a = length b \<Longrightarrow> xor_bytes (rev a) (rev b) = rev (xor_bytes a b)"
  by (simp add: xor_bytes_def zip_rev rev_map)

lemma py_xor_eq [simp]:
  assumes "length a = length b"
  shows "py_xor a b = Inr (xor_bytes a b)"
proof -
  have "from_bytes_be False a XOR from_bytes_be False b = le_int (rev (xor_bytes a b))"
    using assms
    by (simp add: from_bytes_be_def from_bytes_le_unsigned le_int_xor rev_xor_bytes)
  moreover have "length (xor_bytes a b) = length a"
    using assms by (simp add: xor_bytes_def)
  ultimately show ?thesis
    using le_int_less [of "rev (xor_bytes a b)"]
    by (simp add: py_xor_def to_bytes_be_def in_range_def be_bytes_def le_bytes_le_int')
qed

section \<open>What the modes owe to the cipher\<close>

locale block_cipher =
  fixes enc :: "bytes \<Rightarrow> bytes res"
    and dec :: "bytes \<Rightarrow> bytes res"
  assumes cipher: "length x = 16 \<Longrightarrow> \<exists>y. enc x = Inr y \<and> length y = 16 \<and> dec y = Inr x"
begin

lemma enc_total:
  assumes "length x = 16"
  obtains y where "enc x = Inr y" "length y = 16" "dec y = Inr x"
  using cipher [OF assms] by blast

lemma ige_loop_round_trip:
  "length iv_1 = 16 \<Longrightarrow> length iv_2 = 16 \<Longrightarrow> \<forall>c \<in> set cs. length c = 16 \<Longrightarrow>
   \<exists>outs. ige_encrypt_loop enc iv_1 iv_2 cs = Inr outs \<and> (\<forall>c \<in> set outs. length c = 16) \<and>
     length outs = length cs \<and> ige_decrypt_loop dec iv_1 iv_2 outs = Inr cs"
proof (induction cs arbitrary: iv_1 iv_2)
  case Nil
  then show ?case by simp
next
  case (Cons c cs)
  then have c: "length c = 16" by simp
  with Cons.prems(1) have "length (xor_bytes c iv_1) = 16" by simp
  then obtain y where y: "enc (xor_bytes c iv_1) = Inr y" "length y = 16"
    "dec y = Inr (xor_bytes c iv_1)" by (rule enc_total)
  define out where "out = xor_bytes y iv_2"
  have o: "length out = 16" using y(2) Cons.prems(2) by (simp add: out_def)
  from Cons.IH [OF o c] Cons.prems(3) obtain outs where
    "ige_encrypt_loop enc out c cs = Inr outs" "\<forall>c \<in> set outs. length c = 16"
    "length outs = length cs" "ige_decrypt_loop dec out c outs = Inr cs" by auto
  moreover have "xor_bytes out iv_2 = y" "xor_bytes (xor_bytes c iv_1) iv_1 = c"
    using y(2) c Cons.prems(1,2) by (simp_all add: out_def xor_bytes_cancel)
  ultimately show ?case
    using y c o Cons.prems(1,2) by (intro exI [of _ "out # outs"]) (simp add: out_def)
qed

lemma block_enc: "length iv = 16 \<Longrightarrow> enc iv = Inr (block enc iv) \<and> length (block enc iv) = 16"
  using cipher [of iv] by (auto simp: block_def)

end

lemma length_carry_le [simp]: "length (carry_le bs) = length bs"
  by (induction bs) auto

lemma length_increment [simp]: "length (increment iv) = length iv"
  by (simp add: increment_def)

lemma length_increments [simp]: "length ((increment ^^ n) iv) = length iv"
  by (induction n) auto

lemma carry_le_value: "le_int (carry_le bs) = (le_int bs + 1) mod 256 ^ length bs"
proof (induction bs)
  case Nil
  then show ?case by simp
next
  case (Cons b bs)
  show ?case
  proof (cases "b = 255")
    case True
    have u: "uint (255 :: byte) = 255" by simp
    have "255 + 256 * le_int bs + 1 = 256 * (le_int bs + 1)" by simp
    then have "(255 + 256 * le_int bs + 1) mod (256 * 256 ^ length bs)
        = 256 * ((le_int bs + 1) mod 256 ^ length bs)"
      by (simp only: mult_mod_right)
    with True Cons u show ?thesis by simp
  next
    case False
    then have "uint b \<noteq> 255" by (metis word_of_int_uint of_int_numeral)
    then have b: "uint b + 1 < 256" using uint_byte_bounds(2) [of b] by linarith
    then have u: "uint (b + 1) = uint b + 1" by (simp add: uint_word_ariths)
    have "uint b + 1 + 256 * le_int bs < 256 * 256 ^ length bs"
      using b le_int_less [of bs] by linarith
    with False u show ?thesis by (simp add: add.assoc add.commute)
  qed
qed

lemma increment_value: "be_int (increment iv) = (be_int iv + 1) mod 256 ^ length iv"
  by (simp add: be_int_def increment_def carry_le_value)

lemma increments_value: "be_int ((increment ^^ n) iv) = (be_int iv + int n) mod 256 ^ length iv"
proof (induction n)
  case 0
  have "be_int iv < 256 ^ length iv" "0 \<le> be_int iv"
    using le_int_less [of "rev iv"] by (simp_all add: be_int_def)
  then show ?case by simp
next
  case (Suc n)
  then show ?case by (simp add: increment_value mod_simps algebra_simps)
qed

context block_cipher
begin

lemma keystream_Suc:
  "st < 16 \<Longrightarrow> keystream enc iv st (Suc n) =
    block enc iv ! st # (if st = 15 then keystream enc (increment iv) 0 n else keystream enc iv (Suc st) n)"
proof -
  assume "st < 16"
  have "keystream enc iv st (Suc n) = block enc iv ! st #
      map (\<lambda>i. block enc ((increment ^^ ((st + Suc i) div 16)) iv) ! ((st + Suc i) mod 16)) [0..<n]"
    using \<open>st < 16\<close> by (simp only: keystream_def upt_conv_Cons map_Suc_upt [symmetric] list.map map_map
        comp_def zero_less_Suc) simp
  moreover have "st + Suc i = Suc st + i" for i by simp
  moreover have "(15 + Suc i) div 16 = Suc (i div 16)" "(15 + Suc i) mod 16 = i mod 16" for i
    by simp_all
  ultimately show ?thesis
    by (cases "st = 15") (simp_all add: keystream_def funpow_swap1 del: add_Suc_right upt_Suc)
qed

lemma ctr_loop_spec:
  "length iv = 16 \<Longrightarrow> st < 16 \<Longrightarrow>
   ctr_loop enc data (block enc iv) iv st =
     Inr (xor_bytes data (keystream enc iv st (length data)),
          (increment ^^ ((st + length data) div 16)) iv, (st + length data) mod 16)"
proof (induction data arbitrary: iv st)
  case Nil
  then show ?case by simp
next
  case (Cons d data)
  show ?case
  proof (cases "st = 15")
    case True
    then have "(st + length (d # data)) div 16 = Suc (length data div 16)"
      "(st + length (d # data)) mod 16 = length data mod 16" by simp_all
    then show ?thesis
      using Cons True block_enc [of iv] block_enc [of "increment iv"]
      by (simp add: keystream_Suc funpow_swap1 Let_def)
  next
    case False
    then show ?thesis
      using Cons block_enc [of iv] by (simp add: keystream_Suc Let_def)
  qed
qed

end

lemma aes_law_cipher:
  "aes_law c \<Longrightarrow> length key = 32 \<Longrightarrow> block_cipher (aes_encrypt c key) (aes_decrypt c key)"
  by unfold_locales (simp add: aes_law_def)

lemma length_concat_blocks: "\<forall>c \<in> set cs. length c = n \<Longrightarrow> length (concat cs) = n * length cs"
  by (induction cs) auto

lemma xor_bytes_append:
  "length a = length c \<Longrightarrow> xor_bytes (a @ b) (c @ d) = xor_bytes a c @ xor_bytes b d"
  by (simp add: xor_bytes_def)

lemma length_keystream [simp]: "length (keystream enc iv st n) = n"
  by (simp add: keystream_def)

lemma position_step: "((p :: nat) mod 16 + n) div 16 + p div 16 = (p + n) div 16"
proof -
  have "p + n = (p mod 16 + n) + p div 16 * 16" by simp
  then show ?thesis by (metis div_mult_self1 add.commute zero_neq_numeral)
qed

lemma keystream_append:
  "keystream enc iv st (m + n) = keystream enc iv st m @
     keystream enc ((increment ^^ ((st + m) div 16)) iv) ((st + m) mod 16) n"
proof -
  have "(increment ^^ (((st + m) mod 16 + i) div 16)) ((increment ^^ ((st + m) div 16)) iv)
      = (increment ^^ ((st + (m + i)) div 16)) iv" for i
    using position_step [of "st + m" i] by (metis add.assoc comp_apply funpow_add)
  moreover have "((st + m) mod 16 + i) mod 16 = (st + (m + i)) mod 16" for i
    by (simp add: mod_simps add.assoc)
  moreover have "map f [m..<m + n] = map (\<lambda>i. f (m + i)) [0..<n]" for f :: "nat \<Rightarrow> byte"
    by (rule nth_equalityI) simp_all
  ultimately show ?thesis
    by (simp add: keystream_def upt_add_eq_append [of 0 m n, simplified])
qed

lemma ctr_spec:
  assumes "aes_law c" "length key = 32" "length iv = 16" "st < 16"
  shows "ctr c data key iv st =
     Inr (xor_bytes data (keystream (aes_encrypt c key) iv st (length data)),
          (increment ^^ ((st + length data) div 16)) iv, (st + length data) mod 16)"
  using block_cipher.ctr_loop_spec [OF aes_law_cipher [OF assms(1,2)] assms(3,4)]
    block_cipher.block_enc [OF aes_law_cipher [OF assms(1,2)] assms(3)]
  by (simp add: ctr_def)

lemma ige_blocks:
  assumes "aes_law c" "length key = 32" "length iv = 32" "16 dvd length data"
  shows "\<exists>out. ige256_encrypt c data key iv = Inr out \<and> length out = length data \<and>
    ige256_decrypt c out key iv = Inr data"
proof -
  note law = block_cipher.ige_loop_round_trip [OF aes_law_cipher [OF assms(1,2)]]
  have cs: "\<forall>x \<in> set (chunks 16 data). length x = 16"
    using chunks_exact [of 16 data] assms(4) by auto
  obtain outs where e: "ige_encrypt_loop (aes_encrypt c key) (take 16 iv) (drop 16 iv) (chunks 16 data) = Inr outs"
    and o: "\<forall>x \<in> set outs. length x = 16" "length outs = length (chunks 16 data)"
    and d: "ige_decrypt_loop (aes_decrypt c key) (take 16 iv) (drop 16 iv) outs = Inr (chunks 16 data)"
    using law [OF _ _ cs, of "take 16 iv" "drop 16 iv"] assms(3) by auto
  have "chunks 16 (concat outs) = outs" using o(1) by (intro chunks_concat) auto
  moreover have "length (concat outs) = length (concat (chunks 16 data))"
    using length_concat_blocks [OF o(1)] length_concat_blocks [OF cs] o(2) by simp
  ultimately show ?thesis
    using e d by (simp add: ige256_encrypt_def ige256_decrypt_def ige_def Let_def)
qed

section \<open>Properties\<close>

text \<open>
  C7. IGE decryption undoes IGE encryption: for a 32-byte key, a 32-byte
  initialisation vector and data in whole blocks, encryption returns (it does not
  raise), keeps the length, and decryption under the same key and vector gives the
  data back.
\<close>

theorem ige_round_trip:
  assumes "aes_law c" "length key = 32" "length iv = 32" "16 dvd length data"
  shows "\<exists>out. ige256_encrypt c data key iv = Inr out \<and> length out = length data \<and>
    ige256_decrypt c out key iv = Inr data"
  by (rule ige_blocks [OF assms])

text \<open>A cipher that meets the law, for concrete instances: exclusive or with the
  first half of the key.\<close>

definition xor_aes :: aes where
  "xor_aes = \<lparr>aes_encrypt = (\<lambda>k x. Inr (xor_bytes x (take 16 k))),
              aes_decrypt = (\<lambda>k x. Inr (xor_bytes x (take 16 k)))\<rparr>"

lemma xor_aes_law: "aes_law xor_aes"
  by (auto simp: aes_law_def xor_aes_def xor_bytes_cancel)

theorem ige_round_trip_witness:
  "\<exists>out. ige256_encrypt xor_aes (replicate 32 7) (replicate 32 1) (replicate 32 2) = Inr out \<and>
    length out = 32 \<and> ige256_decrypt xor_aes out (replicate 32 1) (replicate 32 2) = Inr (replicate 32 7)"
  using ige_round_trip [OF xor_aes_law, of "replicate 32 1" "replicate 32 2" "replicate 32 7"] by simp

text \<open>
  The CTR stream is one key stream however it is cut: encrypting \<open>a\<close> and then
  \<open>b\<close> with the counter and position the first call left behind is encrypting
  \<open>a @ b\<close>; decryption from the same start undoes it; and after \<open>n\<close> bytes from
  position \<open>st\<close> the counter has advanced by \<open>(st + n) div 16\<close> modulo 2^128.
\<close>

lemma ctr_stream:
  assumes "aes_law c" "length key = 32" "length iv = 16" "st < 16"
  shows "\<exists>x y iv1 s1 iv2 s2.
    ctr256_encrypt c a key iv (Some st) = Inr (x, iv1, Some s1) \<and>
    ctr256_encrypt c b key iv1 (Some s1) = Inr (y, iv2, Some s2) \<and>
    ctr256_encrypt c (a @ b) key iv (Some st) = Inr (x @ y, iv2, Some s2) \<and>
    ctr256_decrypt c (x @ y) key iv (Some st) = Inr (a @ b, iv2, Some s2) \<and>
    be_int iv2 = (be_int iv + int ((st + length (a @ b)) div 16)) mod 2 ^ 128 \<and>
    s2 = (st + length (a @ b)) mod 16"
proof -
  note spec = ctr_spec [OF assms(1,2)]
  let ?E = "aes_encrypt c key"
  let ?iv1 = "(increment ^^ ((st + length a) div 16)) iv" and ?s1 = "(st + length a) mod 16"
  have a: "length ?iv1 = 16" "?s1 < 16" using assms(3) by simp_all
  have k: "keystream ?E iv st (length a + length b)
      = keystream ?E iv st (length a) @ keystream ?E ?iv1 ?s1 (length b)"
    by (rule keystream_append)
  have v: "be_int ((increment ^^ ((st + length (a @ b)) div 16)) iv)
      = (be_int iv + int ((st + length (a @ b)) div 16)) mod 2 ^ 128"
    using increments_value [of "(st + length (a @ b)) div 16" iv] assms(3) by simp
  have iv2: "(increment ^^ ((?s1 + length b) div 16)) ?iv1 = (increment ^^ ((st + length (a @ b)) div 16)) iv"
    by (simp add: funpow_add [symmetric, unfolded comp_def fun_eq_iff, rule_format] position_step
        add.assoc)
  show ?thesis
    using spec [OF assms(3,4), of a] spec [OF a, of b] spec [OF assms(3,4), of "a @ b"]
      spec [OF assms(3,4), of "xor_bytes (a @ b) (keystream ?E iv st (length (a @ b)))"] k v iv2
    by (simp add: ctr256_encrypt_def ctr256_decrypt_def xor_bytes_cancel xor_bytes_append mod_simps add.assoc)
qed

end
