(* ===== verification/Mtproto.thy ===== *)
theory Mtproto
  imports TL_Objects Aes_Modes
begin

text \<open>
  \<open>kurigram/pyrogram/crypto/mtproto.py\<close>: key derivation, and the packing and
  unpacking of encrypted messages.  SHA-256, the block cipher, the generated TL
  classes and \<open>os.urandom\<close> are parameters.
\<close>

section \<open>Definitions\<close>

record 'g mt_env =
  tl_env :: "'g tl_env"
  cipher :: aes
  sha256 :: "bytes \<Rightarrow> bytes"
  fuel :: nat

definition sha256_law :: "(bytes \<Rightarrow> bytes) \<Rightarrow> bool" where
  "sha256_law h \<longleftrightarrow> (\<forall>x. length (h x) = 32)"

definition kdf :: "(bytes \<Rightarrow> bytes) \<Rightarrow> bytes \<Rightarrow> bytes \<Rightarrow> bool \<Rightarrow> bytes \<times> bytes" where
  "kdf sha auth_key msg_key outgoing =
     (let x = (if outgoing then 0 else 8);
          sha256_a = sha (msg_key @ pyslice x (x + 36) auth_key);
          sha256_b = sha (pyslice (x + 40) (x + 76) auth_key @ msg_key);
          aes_key = pyslice 0 8 sha256_a @ pyslice 8 24 sha256_b @ pyslice 24 32 sha256_a;
          aes_iv = pyslice 0 8 sha256_b @ pyslice 8 24 sha256_a @ pyslice 24 32 sha256_b
      in (aes_key, aes_iv))"

definition pack ::
    "'g mt_env \<Rightarrow> (nat \<Rightarrow> bytes) \<Rightarrow> 'g message \<Rightarrow> int \<Rightarrow> bytes \<Rightarrow> bytes \<Rightarrow> bytes \<Rightarrow> bytes res" where
  "pack env urandom message sa session_id auth_key auth_key_id =
     bindR (Int_new Long_SIZE True sa) (\<lambda>s.
     bindR (Message_write (tl_env env) message) (\<lambda>m.
       let data = s @ session_id @ m;
           padding = urandom (nat (- (int (length data) + 12) mod 16 + 12));
           msg_key_large = sha256 env (pyslice 88 120 auth_key @ data @ padding);
           msg_key = pyslice 8 24 msg_key_large;
           (aes_key, aes_iv) = kdf (sha256 env) auth_key msg_key True
       in bindR (ige256_encrypt (cipher env) (data @ padding) aes_key aes_iv) (\<lambda>e.
            Inr (auth_key_id @ msg_key @ e))))"

text \<open>\<open>except KeyError\<close>: an unknown constructor is reported, and the id 0 as a lost
  connection.\<close>

definition unknown_constructor :: "'a res \<Rightarrow> 'a res" where
  "unknown_constructor r =
     (case r of Inl (KeyError i) \<Rightarrow> Inl (if i = 0 then ConnectionError else ValueError) | _ \<Rightarrow> r)"

definition unpack ::
    "'g mt_env \<Rightarrow> bytesio \<Rightarrow> bytes \<Rightarrow> bytes \<Rightarrow> bytes \<Rightarrow> 'g message res" where
  "unpack env b session_id auth_key auth_key_id =
     (let (x, b1) = bio_read 8 b
      in bindR (checkR (x = auth_key_id) SecurityCheckMismatch) (\<lambda>_.
      let (msg_key, b2) = bio_read 16 b1;
          (aes_key, aes_iv) = kdf (sha256 env) auth_key msg_key False;
          (e, _) = bio_read_all b2
      in bindR (ige256_decrypt (cipher env) e aes_key aes_iv) (\<lambda>plain.
      let data = bio plain;
          (_, data1) = bio_read 8 data;
          (sid, data2) = bio_read 8 data1
      in bindR (checkR (sid = session_id) SecurityCheckMismatch) (\<lambda>_.
         bindR (unknown_constructor (Message_read (tl_read (tl_env env) (fuel env)) data2)) (\<lambda>(message, data3).
         bindR (checkR (msg_key = pyslice 8 24 (sha256 env (pyslice 96 128 auth_key @ buf data3)))
                  SecurityCheckMismatch) (\<lambda>_.
         let (payload, _) = bio_read_all (bio_seek 32 data3);
             padding = slice_from (len message) payload
         in bindR (checkR (12 \<le> length padding \<and> length padding \<le> 1024) SecurityCheckMismatch) (\<lambda>_.
            bindR (checkR (length payload mod 4 = 0) SecurityCheckMismatch) (\<lambda>_.
            bindR (checkR (msg_id message mod 2 \<noteq> 0) SecurityCheckMismatch) (\<lambda>_.
            Inr message)))))))))"

section \<open>Key derivation\<close>

lemma kdf_lengths:
  "sha256_law h \<Longrightarrow> kdf h auth_key msg_key out = (k, iv) \<Longrightarrow> length k = 32 \<and> length iv = 32"
  by (auto simp: kdf_def Let_def sha256_law_def)

lemma pad_to_block: "16 dvd (int n + (- (int n + 12) mod 16 + 12))"
  by presburger

lemma pad_range: "12 \<le> - (int n + 12) mod 16 + 12" "- (int n + 12) mod 16 + 12 \<le> 27"
proof -
  have "0 \<le> - (int n + 12) mod 16" "- (int n + 12) mod 16 < 16" by simp_all
  then show "12 \<le> - (int n + 12) mod 16 + 12" "- (int n + 12) mod 16 + 12 \<le> 27" by linarith+
qed

lemma drop_min: "drop (min n (length xs)) xs = drop n xs" "drop (min (length xs) n) xs = drop n xs"
  by (simp_all add: min_def)

lemma rest_seek: "rest (bio_seek n b) = drop n (buf b)"
  by (simp add: rest_def bio_seek_def)

lemma unknown_constructor_ok: "unknown_constructor r = Inr x \<longleftrightarrow> r = Inr x"
  by (auto simp: unknown_constructor_def split: sum.splits py_error.splits)

lemma Int_read_buf: "Int_read k sg b = (v, b') \<Longrightarrow> buf b' = buf b"
  by (auto simp: Int_read_def bio_read_nonneg split: prod.splits)

lemma bio_read_buf': "bio_read n b = (x, b') \<Longrightarrow> buf b' = buf b"
  by (metis bio_read_buf snd_conv)

lemma Message_read_buf: "Message_read rd b = Inr (m, b') \<Longrightarrow> buf b' = buf b"
  by (auto simp: Message_read_def res_simps dest!: Int_read_buf bio_read_buf' split: prod.splits)

lemma message_written:
  "Message_write env m = Inr w \<Longrightarrow> message_ok env m \<Longrightarrow>
   int (length w) = 16 + len m \<and> 0 \<le> len m \<and> len (unzipped_message m) = len m \<and>
   msg_id (unzipped_message m) = msg_id m"
  by (cases m) (auto simp: res_simps Long_SIZE_def Int_SIZE_def dest!: length_Int_new split: sum.splits)

section \<open>Properties\<close>

text \<open>
  C5. Every packet \<open>pack\<close> produces is one its receiver can open: it is the key id,
  the message key and whole cipher blocks; the message key is bytes 8 to 24 of the
  hash of the key part at 88 and the plain text; and decrypting under the key the
  message key determines gives salt, session id, message and between 12 and 27
  bytes of padding.  When the salt and the message can be written, \<open>pack\<close> returns.
\<close>

theorem pack_opens:
  assumes law: "aes_law (cipher env)" "sha256_law (sha256 env)" "\<And>n. length (urandom n) = n"
    and s: "Int_new Long_SIZE True sa = Inr s" and m: "Message_write (tl_env env) message = Inr m"
  shows "\<exists>msg_key e padding.
    pack env urandom message sa session_id auth_key auth_key_id = Inr (auth_key_id @ msg_key @ e) \<and>
    length msg_key = 16 \<and> 16 dvd length e \<and> 12 \<le> length padding \<and> length padding \<le> 27 \<and>
    msg_key = pyslice 8 24 (sha256 env (pyslice 88 120 auth_key @ s @ session_id @ m @ padding)) \<and>
    (case kdf (sha256 env) auth_key msg_key True of (k, iv) \<Rightarrow>
       ige256_decrypt (cipher env) e k iv = Inr (s @ session_id @ m @ padding))"
proof -
  define d where "d = s @ session_id @ m"
  define p where "p = urandom (nat (- (int (length d) + 12) mod 16 + 12))"
  define mk where "mk = pyslice 8 24 (sha256 env (pyslice 88 120 auth_key @ d @ p))"
  obtain k iv where kdf: "kdf (sha256 env) auth_key mk True = (k, iv)" by fastforce
  have p: "int (length p) = - (int (length d) + 12) mod 16 + 12"
    using pad_range [of "length d"] law(3) by (simp add: p_def)
  have "16 dvd int (length (d @ p))"
    using pad_to_block [of "length d"] p by (simp only: length_append of_nat_add)
  then have dvd: "16 dvd length (d @ p)" by presburger
  have lens: "length k = 32" "length iv = 32" using kdf_lengths [OF law(2) kdf] by auto
  from ige_blocks [OF law(1) lens dvd] obtain e where
    e: "ige256_encrypt (cipher env) (d @ p) k iv = Inr e" "length e = length (d @ p)"
    "ige256_decrypt (cipher env) e k iv = Inr (d @ p)" by blast
  have mk: "length mk = 16" using law(2) by (simp add: mk_def sha256_law_def)
  have p2: "12 \<le> length p" "length p \<le> 27" using p pad_range [of "length d"] by linarith+
  have pk: "pack env urandom message sa session_id auth_key auth_key_id = Inr (auth_key_id @ mk @ e)"
    using kdf e(1) unfolding mk_def p_def d_def by (simp add: pack_def s m Let_def)
  have "16 dvd length e" using dvd e(2) by simp
  with mk p2 pk kdf e(3) mk_def show ?thesis
    by (intro exI [of _ mk] exI [of _ e] exI [of _ p] conjI) (simp_all only: prod.case d_def append_assoc)
qed

text \<open>
  C2. What \<open>unpack\<close> lets through has passed every check of the security guidelines:
  the key id is ours, the message key is the hash of the decrypted data under our key
  (part 96), the session id is ours, between 12 and 1024 bytes of padding follow the
  message, the payload is a multiple of four bytes and the message id is odd.
\<close>

theorem unpack_checks:
  assumes "unpack env b session_id auth_key auth_key_id = Inr message"
  shows "\<exists>plain k iv.
    take 8 (rest b) = auth_key_id \<and>
    kdf (sha256 env) auth_key (pyslice 8 24 (rest b)) False = (k, iv) \<and>
    ige256_decrypt (cipher env) (drop 24 (rest b)) k iv = Inr plain \<and>
    pyslice 8 24 (rest b) = pyslice 8 24 (sha256 env (pyslice 96 128 auth_key @ plain)) \<and>
    pyslice 8 16 plain = session_id \<and>
    12 \<le> length (slice_from (len message) (drop 32 plain)) \<and>
    length (slice_from (len message) (drop 32 plain)) \<le> 1024 \<and>
    4 dvd length (drop 32 plain) \<and> odd (msg_id message)"
proof -
  note [dest!] = iffD1 [OF unknown_constructor_ok]
  obtain k iv where kdf: "kdf (sha256 env) auth_key (pyslice 8 24 (rest b)) False = (k, iv)" by fastforce
  let ?b2 = "skip (length (take 16 (drop 8 (rest b)))) (skip (length (take 8 (rest b))) b)"
  have rs: "pyslice 8 24 (rest b) = take 16 (drop 8 (rest b))" "rest ?b2 = drop 24 (rest b)"
    by (simp_all add: pyslice_def) (auto simp: min_def)
  from assms kdf obtain plain data3 c where a: "take 8 (rest b) = auth_key_id"
    and d: "ige256_decrypt (cipher env) (drop 24 (rest b)) k iv = Inr plain"
    and s: "take 8 (drop 8 plain) = session_id"
    and m: "Message_read (tl_read (tl_env env) (fuel env)) (skip c (bio plain)) = Inr (message, data3)"
    and h: "take 16 (drop 8 (rest b)) = pyslice 8 24 (sha256 env (pyslice 96 128 auth_key @ buf data3))"
    and p: "12 \<le> length (slice_from (len message) (drop 32 (buf data3)))"
      "length (slice_from (len message) (drop 32 (buf data3))) \<le> 1024"
      "4 dvd length (drop 32 (buf data3))" "odd (msg_id message)"
    by (auto simp: unpack_def Let_def bio_read_nonneg bio_read_all_eq res_simps drop_min
        unknown_constructor_ok rest_seek rs odd_iff_mod_2_eq_one mod_eq_0_iff_dvd split: prod.splits)
  from m have "buf data3 = plain" by (auto dest: Message_read_buf)
  with a d s h p kdf rs(1) show ?thesis
    by (intro exI [of _ plain] exI [of _ k] exI [of _ iv]) (simp add: pyslice_def)
qed

text \<open>A concrete environment for the instances below.\<close>

definition demo_env :: "int mt_env" where
  "demo_env = \<lparr>tl_env = number_env, cipher = xor_aes, sha256 = (\<lambda>_. replicate 32 9), fuel = 2\<rparr>"

lemma demo_env_laws:
  "aes_law (cipher demo_env)" "sha256_law (sha256 demo_env)"
  "gen_law (tl_env demo_env)" "gz_law (tl_env demo_env)"
  by (simp_all add: demo_env_def xor_aes_law sha256_law_def number_env_laws)

text \<open>
  What a server sends, by the protocol's description: the same packing with the key
  part at 96 and the key derivation of the other direction.
\<close>

definition peer_pack ::
    "'g mt_env \<Rightarrow> bytes \<Rightarrow> bytes \<Rightarrow> bytes \<Rightarrow> bytes \<Rightarrow> bytes \<Rightarrow> bytes \<Rightarrow> bytes res" where
  "peer_pack env padding s session_id m auth_key auth_key_id =
     (let data = s @ session_id @ m @ padding;
          msg_key = pyslice 8 24 (sha256 env (pyslice 96 128 auth_key @ data));
          (k, iv) = kdf (sha256 env) auth_key msg_key False
      in bindR (ige256_encrypt (cipher env) data k iv) (\<lambda>e. Inr (auth_key_id @ msg_key @ e)))"

lemma server_packet_unpacks:
  assumes law: "aes_law (cipher env)" "sha256_law (sha256 env)"
      "gen_law (tl_env env)" "gz_law (tl_env env)"
    and m: "Message_write (tl_env env) message = Inr m" "message_ok (tl_env env) message"
      "message_depth message \<le> fuel env" "odd (msg_id message)"
    and l: "length s = 8" "length session_id = 8" "length auth_key_id = 8"
      "12 \<le> length padding" "length padding \<le> 1024" "16 dvd length m + length padding"
  shows "\<exists>packet. peer_pack env padding s session_id m auth_key auth_key_id = Inr packet \<and>
    unpack env (bio packet) session_id auth_key auth_key_id = Inr (unzipped_message message)"
proof -
  define plain where "plain = s @ session_id @ m @ padding"
  define mk where "mk = pyslice 8 24 (sha256 env (pyslice 96 128 auth_key @ plain))"
  obtain k iv where kdf: "kdf (sha256 env) auth_key mk False = (k, iv)" by fastforce
  have lens: "length k = 32" "length iv = 32" "length mk = 16"
    using kdf_lengths [OF law(2) kdf] law(2) by (auto simp: mk_def sha256_law_def)
  have d: "16 dvd length plain" using l by (simp add: plain_def)
  from ige_blocks [OF law(1) lens(1,2) d] obtain e where
    e: "ige256_encrypt (cipher env) plain k iv = Inr e"
    "ige256_decrypt (cipher env) e k iv = Inr plain" by blast
  let ?p = "auth_key_id @ mk @ e"
  have p: "peer_pack env padding s session_id m auth_key auth_key_id = Inr ?p"
    using kdf e(1) unfolding mk_def plain_def by (simp add: peer_pack_def)
  let ?M = "unzipped_message message"
  have rd: "Message_read (tl_read (tl_env env) (fuel env)) (skip 16 (bio plain))
      = Inr (?M, skip (length m) (skip 16 (bio plain)))"
    by (rule tl_read_write_mutual(2) [OF law(3,4) m(1-3)]) (simp add: plain_def l)
  have w: "int (length m) = 16 + len ?M" "0 \<le> len ?M" "odd (msg_id ?M)"
    using message_written [OF m(1,2)] m(4) by simp_all
  have dp: "drop 32 plain = drop 16 m @ padding" using l w by (simp add: plain_def)
  have pd: "slice_from (len ?M) (drop 32 plain) = padding"
    using w by (auto simp: dp slice_from_def nat_eq_iff)
  have q: "length (drop 32 plain) mod 4 = 0"
    using l(6) w(1,2) unfolding dp by (simp, presburger)
  have "bio_read 8 (bio ?p) = (auth_key_id, skip 8 (bio ?p))"
    "bio_read 16 (skip 8 (bio ?p)) = (mk, skip 24 (bio ?p))" "fst (bio_read_all (skip 24 (bio ?p))) = e"
    using l(3) lens(3) by (simp_all add: bio_read_nonneg bio_read_all_eq)
  moreover have "bio_read 8 (bio plain) = (s, skip 8 (bio plain))"
    "bio_read 8 (skip 8 (bio plain)) = (session_id, skip 16 (bio plain))"
    using l(1,2) by (simp_all add: bio_read_nonneg plain_def)
  moreover note mk_def [symmetric]
  ultimately have "unpack env (bio ?p) session_id auth_key auth_key_id = Inr ?M"
    using kdf e(2) rd pd w(3) q l(4,5)
    by (simp add: unpack_def bio_read_all_eq rest_seek unknown_constructor_def odd_iff_mod_2_eq_one)
  with p show ?thesis by blast
qed

text \<open>
  C3. \<open>unpack\<close> accepts what a conforming server sends: for a message with an odd id,
  12 to 1024 bytes of padding, whole cipher blocks and the session's own ids, it
  returns the message (with the gzip layers of its body removed), without an error.
\<close>

theorem unpack_accepts:
  assumes law: "aes_law (cipher env)" "sha256_law (sha256 env)"
      "gen_law (tl_env env)" "gz_law (tl_env env)"
    and m: "Message_write (tl_env env) message = Inr m" "message_ok (tl_env env) message"
      "message_depth message \<le> fuel env" "odd (msg_id message)"
    and l: "length s = 8" "length session_id = 8" "length auth_key_id = 8"
      "12 \<le> length padding" "length padding \<le> 1024" "16 dvd length m + length padding"
  shows "\<exists>packet. peer_pack env padding s session_id m auth_key auth_key_id = Inr packet \<and>
    unpack env (bio packet) session_id auth_key auth_key_id = Inr (unzipped_message message)"
  by (rule server_packet_unpacks [OF assms])

lemma demo_message:
  "Message_write (tl_env demo_env) (Message (Gen 5) 9 1 12) =
     Inr ([9, 0, 0, 0, 0, 0, 0, 0, 1, 0, 0, 0, 12, 0, 0, 0, 1, 0, 0, 0, 5, 0, 0, 0, 0, 0, 0, 0])"
  "message_ok (tl_env demo_env) (Message (Gen 5) 9 1 12)"
  "Int_new Long_SIZE True 3 = Inr [3, 0, 0, 0, 0, 0, 0, 0]"
  by code_simp+

theorem pack_opens_witness:
  "\<exists>msg_key e padding.
    pack demo_env (\<lambda>n. replicate n 0) (Message (Gen 5) 9 1 12) 3 [1] [2] [4] = Inr ([4] @ msg_key @ e) \<and>
    length msg_key = 16 \<and> 16 dvd length e \<and> 12 \<le> length (padding :: bytes)"
  using pack_opens [OF demo_env_laws(1,2) length_replicate [of _ 0] demo_message(3,1), of "[1]" "[2]" "[4]"]
  by blast

theorem unpack_accepts_witness:
  "\<exists>packet. peer_pack demo_env (replicate 20 0) [3, 0, 0, 0, 0, 0, 0, 0] (replicate 8 6)
       [9, 0, 0, 0, 0, 0, 0, 0, 1, 0, 0, 0, 12, 0, 0, 0, 1, 0, 0, 0, 5, 0, 0, 0, 0, 0, 0, 0]
       [2] (replicate 8 4) = Inr packet \<and>
    unpack demo_env (bio packet) (replicate 8 6) [2] (replicate 8 4) = Inr (Message (Gen 5) 9 1 12)"
  using unpack_accepts [OF demo_env_laws demo_message(1,2), of "[3, 0, 0, 0, 0, 0, 0, 0]" "replicate 8 6"
      "replicate 8 4" "replicate 20 0" "[2]"]
  by (simp add: demo_env_def)

theorem unpack_checks_witness:
  "\<exists>packet plain. unpack demo_env (bio packet) (replicate 8 6) [2] (replicate 8 4) = Inr (Message (Gen 5) 9 1 12) \<and>
     take 8 packet = replicate 8 4 \<and> pyslice 8 16 plain = replicate 8 (6 :: byte) \<and>
     12 \<le> length (slice_from 12 (drop 32 plain))"
proof -
  obtain packet where
    "unpack demo_env (bio packet) (replicate 8 6) [2] (replicate 8 4) = Inr (Message (Gen 5) 9 1 12)"
    using server_packet_unpacks [OF demo_env_laws demo_message(1,2), of "[3, 0, 0, 0, 0, 0, 0, 0]" "replicate 8 6"
      "replicate 8 4" "replicate 20 0" "[2]"]
    by (auto simp: demo_env_def)
  with unpack_checks [OF this] show ?thesis by auto
qed

end
