(* ===== verification/Msg_Factory.thy ===== *)
theory Msg_Factory
  imports Mtproto
begin

text \<open>
  \<open>kurigram/pyrogram/session/internals/msg_factory.py\<close> and \<open>msg_id.py\<close>: message ids
  and sequence numbers.  The clock is a parameter: \<open>ticks\<close> is
  \<open>int(server_time * 2**32)\<close>, an integer of any value, so clocks that stand still or
  run backwards are included.
\<close>

section \<open>Definitions\<close>

text \<open>\<open>x & ~0b11\<close> on Python's unbounded integers.\<close>

definition clear_low_bits :: "int \<Rightarrow> int" where
  "clear_low_bits x = x AND NOT 3"

record msg_factory =
  last_msg_id :: int
  content_related_messages_sent :: int

definition MsgFactory_init :: msg_factory where
  "MsgFactory_init = \<lparr>last_msg_id = 0, content_related_messages_sent = 0\<rparr>"

definition allocate_message_identity :: "int \<Rightarrow> msg_factory \<Rightarrow> int \<times> msg_factory" where
  "allocate_message_identity ticks f =
     (let base_msg_id = clear_low_bits ticks;
          base_msg_id = (if base_msg_id \<le> last_msg_id f then last_msg_id f + 4 else base_msg_id)
      in (base_msg_id, f\<lparr>last_msg_id := base_msg_id\<rparr>))"

definition allocate_message_sequence :: "bool \<Rightarrow> msg_factory \<Rightarrow> int \<times> msg_factory" where
  "allocate_message_sequence is_content_related f =
     (let seq_no = content_related_messages_sent f * 2 + (if is_content_related then 1 else 0)
      in (seq_no,
          if is_content_related
          then f\<lparr>content_related_messages_sent := content_related_messages_sent f + 1\<rparr>
          else f))"

text \<open>The classes \<open>Ping\<close>, \<open>HttpWait\<close> and \<open>MsgsAck\<close> are generated: which generated
  objects belong to them is the parameter \<open>service\<close>.\<close>

definition is_content_related :: "('g \<Rightarrow> bool) \<Rightarrow> 'g tl \<Rightarrow> bool" where
  "is_content_related service bd =
     (case bd of Gen g \<Rightarrow> \<not> service g | MsgContainer _ \<Rightarrow> False | _ \<Rightarrow> True)"

definition create ::
    "'g tl_env \<Rightarrow> ('g \<Rightarrow> bool) \<Rightarrow> int \<Rightarrow> 'g tl \<Rightarrow> msg_factory \<Rightarrow> 'g message res \<times> msg_factory" where
  "create env service ticks bd f =
     (let (mi, f1) = allocate_message_identity ticks f;
          (sn, f2) = allocate_message_sequence (is_content_related service bd) f1
      in (bindR (tl_write env bd) (\<lambda>w. Inr (Message bd mi sn (int (length w)))), f2))"

text \<open>\<open>MsgId()\<close>: the same rule over a class attribute.\<close>

definition MsgId_new :: "int \<Rightarrow> int \<Rightarrow> int \<times> int" where
  "MsgId_new ticks last_id =
     (let base_msg_id = clear_low_bits ticks;
          base_msg_id = (if base_msg_id \<le> last_id then last_id + 4 else base_msg_id)
      in (base_msg_id, base_msg_id))"

text \<open>The messages a factory creates one after the other, with the clock readings.\<close>

fun create_all ::
    "'g tl_env \<Rightarrow> ('g \<Rightarrow> bool) \<Rightarrow> (int \<times> 'g tl) list \<Rightarrow> msg_factory \<Rightarrow> 'g message res list \<times> msg_factory" where
  "create_all env service [] f = ([], f)"
| "create_all env service ((ticks, bd) # xs) f =
     (let (m, f1) = create env service ticks bd f;
          (ms, f2) = create_all env service xs f1
      in (m # ms, f2))"

section \<open>Invariant\<close>

definition factory_ok :: "msg_factory \<Rightarrow> bool" where
  "factory_ok f \<longleftrightarrow> 4 dvd last_msg_id f \<and> 0 \<le> last_msg_id f \<and> 0 \<le> content_related_messages_sent f"

lemma factory_ok_init: "factory_ok MsgFactory_init"
  by (simp add: factory_ok_def MsgFactory_init_def)

lemma clear_low_bits_eq: "clear_low_bits x = x - x mod 4"
proof -
  have m: "(3 :: int) = mask 2" by (simp add: mask_eq_exp_minus_1)
  have "clear_low_bits x = push_bit 2 (drop_bit 2 x)"
    unfolding clear_low_bits_def m
    by (rule bit_eqI) (auto simp: bit_and_iff bit_not_iff bit_mask_iff bit_push_bit_iff bit_drop_bit_eq
        simp del: add_2_eq_Suc mask_numeral)
  then show ?thesis
    using bits_ident [of 2 x] by (simp add: take_bit_eq_mod)
qed

lemma clear_low_bits_dvd: "4 dvd clear_low_bits x"
  by (simp add: clear_low_bits_eq minus_mod_eq_mult_div)

lemma clear_low_bits_bounds: "x - 3 \<le> clear_low_bits x" "clear_low_bits x \<le> x"
  using pos_mod_bound [of 4 x] pos_mod_sign [of 4 x] by (simp_all add: clear_low_bits_eq)

lemma identity_step:
  assumes "factory_ok f" "allocate_message_identity ticks f = (mi, f')"
  shows "factory_ok f' \<and> mi = last_msg_id f' \<and> last_msg_id f < mi \<and> 4 dvd mi \<and> 0 < mi \<and>
    mi = max (clear_low_bits ticks) (last_msg_id f + 4) \<and>
    content_related_messages_sent f' = content_related_messages_sent f"
proof -
  have gap: "last_msg_id f < c \<Longrightarrow> last_msg_id f + 4 \<le> c" if "4 dvd c" for c
    using that assms(1) unfolding factory_ok_def by presburger
  from assms show ?thesis
    using clear_low_bits_dvd [of ticks] gap [of "clear_low_bits ticks"]
    by (auto simp: allocate_message_identity_def Let_def factory_ok_def split: if_splits)
qed

lemma sequence_step:
  assumes "factory_ok f" "allocate_message_sequence c f = (sn, f')"
  shows "factory_ok f' \<and> sn = 2 * content_related_messages_sent f + of_bool c \<and>
    content_related_messages_sent f' = content_related_messages_sent f + of_bool c \<and>
    last_msg_id f' = last_msg_id f"
  using assms by (auto simp: allocate_message_sequence_def Let_def factory_ok_def)

lemma create_step:
  assumes "factory_ok f" "create env service ticks bd f = (r, f')"
  shows "factory_ok f' \<and> last_msg_id f < last_msg_id f' \<and>
    content_related_messages_sent f' = content_related_messages_sent f + of_bool (is_content_related service bd)"
proof -
  obtain mi f1 where 1: "allocate_message_identity ticks f = (mi, f1)" by fastforce
  obtain sn f2 where 2: "allocate_message_sequence (is_content_related service bd) f1 = (sn, f2)"
    by fastforce
  from identity_step [OF assms(1) 1] have ok: "factory_ok f1" by simp
  from identity_step [OF assms(1) 1] sequence_step [OF ok 2] assms(2) show ?thesis
    by (auto simp: create_def 1 2)
qed

lemma create_result:
  assumes "factory_ok f" "create env service ticks bd f = (Inr m, f')"
  shows "msg_id m = last_msg_id f' \<and> 4 dvd msg_id m \<and> body m = bd \<and>
    seq_no m = 2 * content_related_messages_sent f + of_bool (is_content_related service bd) \<and>
    (\<exists>w. tl_write env bd = Inr w \<and> len m = int (length w))"
proof -
  obtain mi f1 where 1: "allocate_message_identity ticks f = (mi, f1)" by fastforce
  obtain sn f2 where 2: "allocate_message_sequence (is_content_related service bd) f1 = (sn, f2)"
    by fastforce
  from identity_step [OF assms(1) 1] have ok: "factory_ok f1" by simp
  from identity_step [OF assms(1) 1] sequence_step [OF ok 2] assms(2) show ?thesis
    by (auto simp: create_def 1 2 res_simps)
qed

section \<open>Properties\<close>

definition prior_content :: "('g \<Rightarrow> bool) \<Rightarrow> (int \<times> 'g tl) list \<Rightarrow> nat \<Rightarrow> nat" where
  "prior_content service xs i = length (filter (\<lambda>(_, bd). is_content_related service bd) (take i xs))"

lemma create_all_step:
  "factory_ok f \<Longrightarrow> create_all env service xs f = (rs, f') \<Longrightarrow>
    factory_ok f' \<and> length rs = length xs \<and> last_msg_id f \<le> last_msg_id f'"
proof (induction xs arbitrary: f rs)
  case (Cons x xs)
  obtain ticks bd where x: "x = (ticks, bd)" by fastforce
  obtain r f1 where c: "create env service ticks bd f = (r, f1)" by fastforce
  obtain rs1 f2 where a: "create_all env service xs f1 = (rs1, f2)" by fastforce
  from create_step [OF Cons.prems(1) c] Cons.IH [of f1 rs1] Cons.prems a show ?case
    by (auto simp: x c)
qed auto

lemma create_all_nth:
  "factory_ok f \<Longrightarrow> create_all env service xs f = (rs, f') \<Longrightarrow> i < length xs \<Longrightarrow> rs ! i = Inr m \<Longrightarrow>
    last_msg_id f < msg_id m \<and> msg_id m \<le> last_msg_id f' \<and> 4 dvd msg_id m \<and>
    seq_no m = 2 * (content_related_messages_sent f + int (prior_content service xs i))
      + of_bool (is_content_related service (snd (xs ! i))) \<and>
    body m = snd (xs ! i) \<and> (\<exists>w. tl_write env (body m) = Inr w \<and> len m = int (length w))"
proof (induction xs arbitrary: f rs i)
  case (Cons x xs)
  obtain ticks bd where x: "x = (ticks, bd)" by fastforce
  obtain r f1 where c: "create env service ticks bd f = (r, f1)" by fastforce
  obtain rs1 f2 where a: "create_all env service xs f1 = (rs1, f2)" by fastforce
  have rs: "rs = r # rs1" "f' = f2" using Cons.prems(2) by (simp_all add: x c a)
  note s = create_step [OF Cons.prems(1) c]
  show ?case
  proof (cases i)
    case 0
    then have r: "r = Inr m" using Cons.prems(4) rs by simp
    note cr = create_result [OF Cons.prems(1) c [unfolded r]]
    with s create_all_step [OF _ a] rs show ?thesis
      by (auto simp: x 0 prior_content_def)
  next
    case (Suc j)
    with Cons.prems(3,4) rs s have "rs1 ! j = Inr m" "j < length xs" "factory_ok f1" by auto
    from Cons.IH [OF this(3) _ this(2,1)] a rs s show ?thesis
      by (auto simp: x Suc prior_content_def)
  qed
qed simp

lemma create_all_increasing:
  "factory_ok f \<Longrightarrow> create_all env service xs f = (rs, f') \<Longrightarrow> i < j \<Longrightarrow> j < length xs \<Longrightarrow>
    rs ! i = Inr m \<Longrightarrow> rs ! j = Inr n \<Longrightarrow> msg_id m < msg_id n"
proof (induction xs arbitrary: f rs i j)
  case (Cons x xs)
  obtain ticks bd where x: "x = (ticks, bd)" by fastforce
  obtain r f1 where c: "create env service ticks bd f = (r, f1)" by fastforce
  obtain rs1 f2 where a: "create_all env service xs f1 = (rs1, f2)" by fastforce
  have rs: "rs = r # rs1" "f' = f2" using Cons.prems(2) by (simp_all add: x c a)
  have s: "factory_ok f1" using create_step [OF Cons.prems(1) c] by simp
  from Cons.prems(3) obtain j' where j: "j = Suc j'" by (cases j) auto
  have n: "rs1 ! j' = Inr n" "j' < length xs" using Cons.prems(4,6) rs j by auto
  show ?case
  proof (cases i)
    case 0
    then have r: "r = Inr m" using Cons.prems(5) rs by simp
    from create_result [OF Cons.prems(1) c [unfolded r]] create_all_nth [OF s a n(2,1)]
    show ?thesis by simp
  next
    case (Suc i')
    with Cons.IH [OF s] Cons.prems a n rs j show ?thesis by auto
  qed
qed simp

text \<open>
  C14. However the clock moves, the messages a factory creates have strictly
  increasing ids, all of them positive multiples of four; the i-th has the sequence
  number twice the count of content-related messages before it, plus one if it is
  one itself; and its length field is the size of its body.
\<close>

theorem messages_well_numbered:
  assumes "create_all env service xs MsgFactory_init = (rs, f')" "i < length xs" "rs ! i = Inr m"
  shows "0 < msg_id m \<and> 4 dvd msg_id m \<and>
    seq_no m = 2 * int (prior_content service xs i) + of_bool (is_content_related service (snd (xs ! i))) \<and>
    body m = snd (xs ! i) \<and> (\<exists>w. tl_write env (body m) = Inr w \<and> len m = int (length w)) \<and>
    (\<forall>j n. i < j \<longrightarrow> j < length xs \<longrightarrow> rs ! j = Inr n \<longrightarrow> msg_id m < msg_id n)"
  using create_all_nth [OF factory_ok_init assms] create_all_increasing [OF factory_ok_init assms(1)] assms(3)
  by (auto simp: MsgFactory_init_def)

theorem messages_well_numbered_witness:
  "case fst (create_all number_env (\<lambda>g. g = 0) [(100, Gen 5), (7, Gen 6)] MsgFactory_init) ! 0 of
     Inl _ \<Rightarrow> False
   | Inr m \<Rightarrow> 0 < msg_id m \<and> 4 dvd msg_id m \<and> seq_no m = 1"
proof -
  let ?r = "create_all number_env (\<lambda>g. g = 0) [(100, Gen 5), (7, Gen 6)] MsgFactory_init"
  obtain rs f' where r: "?r = (rs, f')" by fastforce
  have "case fst ?r ! 0 of Inl _ \<Rightarrow> False | Inr m \<Rightarrow> True" by code_simp
  then obtain m where m: "rs ! 0 = Inr m" using r by (auto split: sum.splits)
  from messages_well_numbered [OF r _ m] show ?thesis
    using r m by (simp add: prior_content_def is_content_related_def)
qed

text \<open>The same rule behind \<open>MsgId()\<close> gives strictly increasing multiples of four.\<close>

lemma MsgId_new_increasing:
  "4 dvd l \<Longrightarrow> MsgId_new ticks l = (i, l') \<Longrightarrow> l < i \<and> 4 dvd i \<and> l' = i"
  using clear_low_bits_dvd [of ticks] by (auto simp: MsgId_new_def Let_def split: if_splits)

end
