(* ===== verification/Session.thy ===== *)
theory Session
  imports Msg_Factory
begin

text \<open>
  \<open>kurigram/pyrogram/session/session.py\<close>: the server salts, the handling of an
  incoming packet with its message-id checks, requests and their answers, the retry
  loop of \<open>invoke\<close>, the receive loop, and the synchronous parts of stopping.  A
  coroutine's body between two \<open>await\<close>s runs without interruption, so each such part
  is one function on the session state; tasks it creates are recorded as effects.
  Clock readings are integers in units of 2^-32 seconds, the unit of message ids.
\<close>

section \<open>State\<close>

datatype session_state = STARTING | STARTED | STOPPING | STOPPED

definition STORED_MSG_IDS_MAX_SIZE :: nat where "STORED_MSG_IDS_MAX_SIZE = 1000 * 2"
definition MAX_CONSECUTIVE_IGNORED :: nat where "MAX_CONSECUTIVE_IGNORED = 30"
definition ACKS_THRESHOLD :: nat where "ACKS_THRESHOLD = 10"
definition FUTURE_SALTS_THRESHOLD :: int where "FUTURE_SALTS_THRESHOLD = 60"
definition FUTURE_SALTS_INTERVAL :: int where "FUTURE_SALTS_INTERVAL = 60"

text \<open>One second of the clock.\<close>

definition second :: int where "second = 2 ^ 32"

text \<open>\<open>Result\<close>: what a sender waits on.  The only exception ever stored is the
  \<open>TimeoutError\<close> of \<open>_stop\<close>.\<close>

record 'g result =
  val :: "'g tl option"
  event :: bool
  failed :: bool

definition Result_new :: "'g result" where
  "Result_new = \<lparr>val = None, event = False, failed = False\<rparr>"

datatype 'g effect =
    Restart
  | HandleUpdates "'g tl"
  | SetServerTime int
  | SendAcks "int list"

text \<open>
  \<open>results\<close> holds the keys of the dictionary; the \<open>Result\<close> objects live in \<open>objs\<close>,
  because a sender keeps a reference to its object after the dictionary forgot it.
  \<open>pending_acks\<close> is a set kept as a list without repetition.
\<close>

record 'g session =
  state :: session_state
  must_stay_stopped :: bool
  is_started :: bool
  ignore_count :: nat
  pending_acks :: "int list"
  results :: "int set"
  objs :: "int \<Rightarrow> 'g result option"
  stored_msg_ids :: "int list"
  recent_msg_ids :: "int list"
  cur_salt :: int
  salt_valid_until :: int
  future_salts :: "future_salt list"
  future_salts_requested_at :: int
  factory :: msg_factory
  effects :: "'g effect list"

definition Session_init :: "'g session" where
  "Session_init = \<lparr>state = STOPPED, must_stay_stopped = False, is_started = False, ignore_count = 0,
     pending_acks = [], results = {}, objs = Map.empty, stored_msg_ids = [], recent_msg_ids = [],
     cur_salt = 0, salt_valid_until = 0, future_salts = [], future_salts_requested_at = 0,
     factory = MsgFactory_init, effects = []\<rparr>"

definition emit :: "'g effect \<Rightarrow> 'g session \<Rightarrow> 'g session" where
  "emit e s = s\<lparr>effects := effects s @ [e]\<rparr>"

text \<open>
  The service messages are generated classes.  How a generated object falls into
  them, with the fields the session reads, is a parameter.
\<close>

datatype 'g service =
    MsgDetailedInfo int
  | MsgNewDetailedInfo int
  | NewSessionCreated
  | BadServerSalt int int
  | BadMsgNotification int int
  | RpcResult int "'g tl"
  | Pong int
  | RpcError int pystr
  | OtherService

section \<open>Salts\<close>

fun current_salt_loop :: "int \<Rightarrow> future_salt list \<Rightarrow> int \<Rightarrow> int \<Rightarrow> future_salt list \<times> int \<times> int" where
  "current_salt_loop server_time [] sa vu = ([], sa, vu)"
| "current_salt_loop server_time (f # fs) sa vu =
     (if valid_since f * second \<le> server_time
      then current_salt_loop server_time fs (salt f) (valid_until f)
      else (f # fs, sa, vu))"

definition current_salt :: "int \<Rightarrow> 'g session \<Rightarrow> int \<times> 'g session" where
  "current_salt server_time s =
     (let (fs, sa, vu) = current_salt_loop server_time (future_salts s) (cur_salt s) (salt_valid_until s)
      in (sa, s\<lparr>future_salts := fs, cur_salt := sa, salt_valid_until := vu\<rparr>))"

text \<open>\<open>_update_future_salts\<close> up to its request: \<open>True\<close> when a request is sent.\<close>

definition update_future_salts_begin :: "int \<Rightarrow> 'g session \<Rightarrow> bool \<times> 'g session" where
  "update_future_salts_begin server_time s =
     (if server_time - future_salts_requested_at s < FUTURE_SALTS_INTERVAL * second then (False, s)
      else let (_, s1) = current_salt server_time s
           in if future_salts s1 \<noteq> [] \<and>
                 salt_valid_until s1 * second - server_time > FUTURE_SALTS_THRESHOLD * second
              then (False, s1)
              else (True, s1\<lparr>future_salts_requested_at := server_time\<rparr>))"

text \<open>\<open>_update_future_salts\<close> after the answer.\<close>

definition update_future_salts_end :: "future_salt list \<Rightarrow> 'g session \<Rightarrow> 'g session" where
  "update_future_salts_end salts s = s\<lparr>future_salts := sort_key valid_since salts\<rparr>"

section \<open>The checks on an incoming message id\<close>

text \<open>\<open>bisect.insort\<close>, with the binary search of the library.\<close>

function bisect_right :: "int list \<Rightarrow> int \<Rightarrow> nat \<Rightarrow> nat \<Rightarrow> nat" where
  "bisect_right a x lo hi =
     (if lo < hi
      then let mid = (lo + hi) div 2
           in if x < a ! mid then bisect_right a x lo mid else bisect_right a x (mid + 1) hi
      else lo)"
  by pat_completeness auto
termination
  by (relation "measure (\<lambda>(a, x, lo, hi). hi - lo)") auto

declare bisect_right.simps [simp del]

definition bisect_insort :: "int list \<Rightarrow> int \<Rightarrow> int list" where
  "bisect_insort a x = (let i = bisect_right a x 0 (length a) in take i a @ [x] @ drop i a)"

definition trim_stored :: "'g session \<Rightarrow> 'g session" where
  "trim_stored s =
     (if length (stored_msg_ids s) > STORED_MSG_IDS_MAX_SIZE
      then s\<lparr>stored_msg_ids := drop (STORED_MSG_IDS_MAX_SIZE div 2) (stored_msg_ids s)\<rparr>
      else s)"

text \<open>The body of the \<open>try\<close>: the checks in their order, and the state they leave.  The
  quotient by \<open>2**32\<close> is compared as a product.\<close>

definition check_msg_id :: "int \<Rightarrow> int \<Rightarrow> 'g session \<Rightarrow> unit res \<times> 'g session" where
  "check_msg_id ticks mi s0 =
     (let s = trim_stored s0
      in if mi \<in> set (recent_msg_ids s)
         then (Inl SecurityCheckMismatch, s\<lparr>recent_msg_ids := remove1 mi (recent_msg_ids s)\<rparr>)
         else if stored_msg_ids s = [] then (Inr (), s)
         else if mi < hd (stored_msg_ids s) then (Inl SecurityCheckMismatch, s)
         else if mi \<in> set (stored_msg_ids s) then (Inl SecurityCheckMismatch, s)
         else let (now, f) = allocate_message_identity ticks (factory s);
                  s1 = s\<lparr>factory := f\<rparr>;
                  time_diff = mi - now
              in if time_diff > 30 * second then (Inl SecurityCheckMismatch, s1)
                 else if time_diff < -300 * second then (Inl SecurityCheckMismatch, s1)
                 else (Inr (), s1\<lparr>ignore_count := 0\<rparr>))"

section \<open>Handling a packet\<close>

text \<open>The three ways a pass of the loop over the messages ends: the message was
  acknowledged before, a check failed, or it was taken.\<close>

datatype outcome = Skipped | Discarded | Handled

definition add_ack :: "int \<Rightarrow> 'g session \<Rightarrow> 'g session" where
  "add_ack i s = s\<lparr>pending_acks := List.insert i (pending_acks s)\<rparr>"

definition discard :: "'g session \<Rightarrow> 'g session" where
  "discard s =
     (let s1 = s\<lparr>ignore_count := ignore_count s + 1\<rparr>
      in if ignore_count s1 \<ge> MAX_CONSECUTIVE_IGNORED then emit Restart s1 else s1)"

text \<open>\<open>self.results[msg_id].value = ...; .event.set()\<close> for a known id.\<close>

definition deliver :: "int \<Rightarrow> 'g tl \<Rightarrow> 'g session \<Rightarrow> 'g session" where
  "deliver i v s =
     (if i \<in> results s
      then s\<lparr>objs := (objs s)(i := map_option (\<lambda>r. r\<lparr>val := Some v, event := True\<rparr>) (objs s i))\<rparr>
      else s)"

definition service_of :: "('g \<Rightarrow> 'g service) \<Rightarrow> 'g tl \<Rightarrow> 'g service" where
  "service_of classify bd = (case bd of Gen g \<Rightarrow> classify g | _ \<Rightarrow> OtherService)"

text \<open>The dispatch on the body of an accepted message.\<close>

definition dispatch :: "('g \<Rightarrow> 'g service) \<Rightarrow> 'g tl \<Rightarrow> 'g session \<Rightarrow> 'g session" where
  "dispatch classify bd s =
     (case bd of
        FutureSalts req_msg_id _ _ \<Rightarrow> deliver req_msg_id bd s
      | _ \<Rightarrow> (case service_of classify bd of
            MsgDetailedInfo answer_msg_id \<Rightarrow> add_ack answer_msg_id s
          | MsgNewDetailedInfo answer_msg_id \<Rightarrow> add_ack answer_msg_id s
          | NewSessionCreated \<Rightarrow> s
          | BadServerSalt bad_msg_id new_server_salt \<Rightarrow>
              deliver bad_msg_id bd (s\<lparr>cur_salt := new_server_salt\<rparr>)
          | BadMsgNotification bad_msg_id _ \<Rightarrow> deliver bad_msg_id bd s
          | RpcResult req_msg_id r \<Rightarrow> deliver req_msg_id r s
          | Pong mi \<Rightarrow> deliver mi bd s
          | _ \<Rightarrow> emit (HandleUpdates bd) s))"

definition handle_message ::
    "('g \<Rightarrow> 'g service) \<Rightarrow> int \<Rightarrow> 'g message \<Rightarrow> 'g session \<Rightarrow> outcome \<times> 'g session" where
  "handle_message classify ticks msg s0 =
     (let s = (if seq_no msg = 0 then emit (SetServerTime (msg_id msg)) s0 else s0)
      in if seq_no msg mod 2 \<noteq> 0 \<and> msg_id msg \<in> set (pending_acks s) then (Skipped, s)
         else let s1 = (if seq_no msg mod 2 \<noteq> 0 then add_ack (msg_id msg) s else s);
                  (r, s2) = check_msg_id ticks (msg_id msg) s1
              in case r of
                   Inl _ \<Rightarrow> (Discarded, discard s2)
                 | Inr _ \<Rightarrow> (Handled, dispatch classify (body msg)
                     (s2\<lparr>stored_msg_ids := bisect_insort (stored_msg_ids s2) (msg_id msg)\<rparr>)))"

text \<open>The loop; every pass has its own clock reading.\<close>

fun handle_messages ::
    "('g \<Rightarrow> 'g service) \<Rightarrow> (int \<times> 'g message) list \<Rightarrow> 'g session \<Rightarrow> outcome list \<times> 'g session" where
  "handle_messages classify [] s = ([], s)"
| "handle_messages classify ((ticks, msg) # ms) s =
     (let (r, s1) = handle_message classify ticks msg s;
          (rs, s2) = handle_messages classify ms s1
      in (r # rs, s2))"

text \<open>The acknowledgements at the end; \<open>sent\<close> tells whether \<open>send\<close> returned.\<close>

definition flush_acks :: "bool \<Rightarrow> 'g session \<Rightarrow> 'g session" where
  "flush_acks sent s =
     (if length (pending_acks s) \<ge> ACKS_THRESHOLD
      then let s1 = emit (SendAcks (pending_acks s)) s
           in if sent then s1\<lparr>pending_acks := []\<rparr> else s1
      else s)"

definition is_value_error :: "py_error \<Rightarrow> bool" where
  "is_value_error e = (case e of ValueError \<Rightarrow> True | UnicodeError \<Rightarrow> True | _ \<Rightarrow> False)"

definition handle_packet ::
    "'g mt_env \<Rightarrow> ('g \<Rightarrow> 'g service) \<Rightarrow> bytes \<Rightarrow> bytes \<Rightarrow> bytes \<Rightarrow> (nat \<Rightarrow> int) \<Rightarrow> bool \<Rightarrow> bytes \<Rightarrow>
     'g session \<Rightarrow> unit res \<times> 'g session" where
  "handle_packet env classify session_id auth_key auth_key_id clock sent packet s =
     (case unpack env (bio packet) session_id auth_key auth_key_id of
        Inl e \<Rightarrow> if is_value_error e then (Inr (), emit Restart s) else (Inl e, s)
      | Inr data \<Rightarrow>
          let messages = (case body data of MsgContainer ms \<Rightarrow> ms | _ \<Rightarrow> [data]);
              (_, s1) = handle_messages classify (zip (map clock [0..<length messages]) messages) s
          in (Inr (), flush_acks sent s1))"

section \<open>Requests and answers\<close>

definition is_os_error :: "py_error \<Rightarrow> bool" where
  "is_os_error e = (case e of OSError \<Rightarrow> True | TimeoutError \<Rightarrow> True | ConnectionError \<Rightarrow> True | _ \<Rightarrow> False)"

text \<open>
  \<open>send\<close> up to the end of \<open>connection.send\<close>, whose own result is the parameter
  \<open>conn\<close>.  The identity of the request is its message id.
\<close>

definition send_begin ::
    "'g mt_env \<Rightarrow> ('g \<Rightarrow> bool) \<Rightarrow> (nat \<Rightarrow> bytes) \<Rightarrow> bytes \<Rightarrow> bytes \<Rightarrow> bytes \<Rightarrow> int \<Rightarrow> int \<Rightarrow>
     (bytes \<Rightarrow> py_error option) \<Rightarrow> 'g tl \<Rightarrow> bool \<Rightarrow> 'g session \<Rightarrow> (int \<times> bytes) res \<times> 'g session" where
  "send_begin env service urandom session_id auth_key auth_key_id ticks server_time conn data wait_response s =
     (let (m, f) = create (tl_env env) service ticks data (factory s);
          s1 = s\<lparr>factory := f\<rparr>
      in case m of
           Inl e \<Rightarrow> (Inl e, s1)
         | Inr message \<Rightarrow>
             let mi = msg_id message;
                 s2 = (if wait_response
                       then s1\<lparr>results := insert mi (results s1), objs := (objs s1)(mi \<mapsto> Result_new)\<rparr>
                       else s1);
                 (sa, s3) = current_salt server_time s2
             in case pack env urandom message sa session_id auth_key auth_key_id of
                  Inl e \<Rightarrow> (Inl e, s3)
                | Inr payload \<Rightarrow>
                    (case conn payload of
                       None \<Rightarrow> (Inr (mi, payload), s3)
                     | Some e \<Rightarrow> (Inl e, if is_os_error e then s3\<lparr>results := results s3 - {mi}\<rparr> else s3)))"

datatype 'g answer = Answer "'g tl" | Raised py_error | RaisedRpc int pystr | Resend

text \<open>\<open>send\<close> once its wait is over, by an answer, by \<open>_stop\<close> or by the timeout.\<close>

definition send_end :: "('g \<Rightarrow> 'g service) \<Rightarrow> int \<Rightarrow> 'g session \<Rightarrow> 'g answer \<times> 'g session" where
  "send_end classify mi s =
     (let s1 = s\<lparr>results := results s - {mi}\<rparr>
      in case objs s mi of
           None \<Rightarrow> (Raised (KeyError mi), s1)
         | Some r \<Rightarrow>
             if failed r then (Raised TimeoutError, s1)
             else (case val r of
                     None \<Rightarrow> (Raised TimeoutError, s1)
                   | Some v \<Rightarrow>
                       (case service_of classify v of
                          RpcError code msg \<Rightarrow> (RaisedRpc code msg, s1)
                        | BadServerSalt _ _ \<Rightarrow> (Resend, s1)
                        | _ \<Rightarrow> (Answer v, s1))))"

section \<open>Stopping\<close>

text \<open>\<open>_stop\<close> up to its first wait: \<open>False\<close> when the session is stopped already.\<close>

definition stop_begin :: "'g session \<Rightarrow> bool \<times> 'g session" where
  "stop_begin s =
     (if state s = STOPPED \<or> state s = STOPPING then (False, s)
      else (True, s\<lparr>state := STOPPING, ignore_count := 0, is_started := False, stored_msg_ids := [],
        objs := (\<lambda>i. if i \<in> results s
                     then map_option (\<lambda>r. r\<lparr>failed := True, event := True\<rparr>) (objs s i) else objs s i),
        results := {}\<rparr>))"

definition stop_end :: "'g session \<Rightarrow> 'g session" where
  "stop_end s = s\<lparr>state := STOPPED\<rparr>"

definition stop :: "'g session \<Rightarrow> bool \<times> 'g session" where
  "stop s = stop_begin (s\<lparr>must_stay_stopped := True\<rparr>)"

text \<open>\<open>restart\<close> up to the first wait inside its \<open>_stop\<close>.\<close>

definition restart_begin :: "'g session \<Rightarrow> bool \<times> 'g session" where
  "restart_begin s =
     stop_begin (if stored_msg_ids s \<noteq> [] then s\<lparr>recent_msg_ids := take 30 (stored_msg_ids s)\<rparr> else s)"

section \<open>The workers\<close>

datatype recv_action = AuthKeyNotFound | Break | Spawn bytes

text \<open>One pass of \<open>recv_worker\<close>: a missing packet or a four-byte transport error ends
  the loop, and a started session is restarted.\<close>

definition recv_step :: "bytes option \<Rightarrow> 'g session \<Rightarrow> recv_action \<times> 'g session" where
  "recv_step packet s =
     (let done = (Break, if is_started s then emit Restart s else s)
      in case packet of
           None \<Rightarrow> done
         | Some p \<Rightarrow>
             if length p = 4
             then (let error_code = - fst (Int_read Int_SIZE True (bio p))
                   in if error_code = 404 then (AuthKeyNotFound, s) else done)
             else (Spawn p, s))"

datatype ping_result = PingSent | PingOSError | PingRPCError

text \<open>One pass of \<open>ping_worker\<close> up to the request for salts: the first flag tells
  whether the loop goes on, the second whether salts are asked for.\<close>

definition ping_step :: "bool \<Rightarrow> ping_result \<Rightarrow> int \<Rightarrow> 'g session \<Rightarrow> bool \<times> bool \<times> 'g session" where
  "ping_step stop_event sent server_time s =
     (if stop_event then (False, False, s)
      else case sent of
             PingOSError \<Rightarrow> (False, False, emit Restart s)
           | _ \<Rightarrow> (let (ask, s1) = update_future_salts_begin server_time s in (True, ask, s1)))"

section \<open>Invoke\<close>

text \<open>How one \<open>send\<close> ends, as far as \<open>invoke\<close> tells it apart.\<close>

datatype 'r attempt =
    Returned 'r
  | FloodWait "int option"
  | FloodPremiumWait "int option"
  | OSErrorRaised
  | InternalServerError
  | ServiceUnavailable
  | OtherError

datatype 'r invoked = Result 'r | ReRaised "'r attempt" | RetriesExhausted | NotStarted

text \<open>\<open>amount is None or amount > sleep_threshold >= 0\<close>.\<close>

definition flood_raises :: "int \<Rightarrow> int option \<Rightarrow> bool" where
  "flood_raises sleep_threshold amount =
     (case amount of None \<Rightarrow> True | Some a \<Rightarrow> a > sleep_threshold \<and> sleep_threshold \<ge> 0)"

text \<open>The loop over the attempts, over the results the sends would have; with the
  pauses it makes.\<close>

fun invoke_loop :: "int \<Rightarrow> int \<Rightarrow> nat \<Rightarrow> (nat \<Rightarrow> 'r attempt) \<Rightarrow> 'r invoked \<times> int list" where
  "invoke_loop sleep_threshold retry_delay 0 send = (RetriesExhausted, [])"
| "invoke_loop sleep_threshold retry_delay (Suc k) send =
     (let next = (\<lambda>pause. let (r, ps) = invoke_loop sleep_threshold retry_delay k (\<lambda>i. send (Suc i))
                          in (r, pause # ps));
          flood = (\<lambda>amount. if flood_raises sleep_threshold amount then (ReRaised (send 0), [])
                            else next (the amount))
      in case send 0 of
           Returned r \<Rightarrow> (Result r, [])
         | FloodWait amount \<Rightarrow> flood amount
         | FloodPremiumWait amount \<Rightarrow> flood amount
         | OSErrorRaised \<Rightarrow> next retry_delay
         | InternalServerError \<Rightarrow> next retry_delay
         | ServiceUnavailable \<Rightarrow> next retry_delay
         | OtherError \<Rightarrow> (ReRaised OtherError, []))"

definition invoke :: "bool \<Rightarrow> int \<Rightarrow> int \<Rightarrow> int \<Rightarrow> (nat \<Rightarrow> 'r attempt) \<Rightarrow> 'r invoked \<times> int list" where
  "invoke started retries sleep_threshold retry_delay send =
     (if started then invoke_loop sleep_threshold retry_delay (nat retries) send else (NotStarted, []))"

section \<open>Binary insertion\<close>

lemma bisect_right_spec:
  assumes "sorted a" "lo \<le> hi" "hi \<le> length a"
  shows "lo \<le> bisect_right a x lo hi \<and> bisect_right a x lo hi \<le> hi \<and>
    (\<forall>j. lo \<le> j \<longrightarrow> j < bisect_right a x lo hi \<longrightarrow> a ! j \<le> x) \<and>
    (\<forall>j. bisect_right a x lo hi \<le> j \<longrightarrow> j < hi \<longrightarrow> x < a ! j)"
  using assms
proof (induction a x lo hi rule: bisect_right.induct)
  case (1 a x lo hi)
  show ?case
  proof (cases "lo < hi")
    case False
    then have "bisect_right a x lo hi = lo" by (subst bisect_right.simps) simp
    then show ?thesis using 1(4) False by simp
  next
    case True
    define mid where "mid = (lo + hi) div 2"
    have m: "lo \<le> mid" "mid < hi" using True by (auto simp: mid_def)
    show ?thesis
    proof (cases "x < a ! mid")
      case less: True
      have e: "bisect_right a x lo hi = bisect_right a x lo mid"
        using True less by (subst bisect_right.simps) (simp add: mid_def Let_def)
      have "x < a ! j" if "mid \<le> j" "j < hi" for j
        using less sorted_nth_mono [OF 1(3), of mid j] that 1(5) by simp
      moreover note 1(1) [OF True mid_def less 1(3) m(1)]
      ultimately show ?thesis
        using m 1(5) unfolding e by (meson le_less_trans le_trans less_imp_le not_le)
    next
      case False
      have e: "bisect_right a x lo hi = bisect_right a x (mid + 1) hi"
        using True False by (subst bisect_right.simps) (simp add: mid_def Let_def)
      have low: "a ! j \<le> x" if "j < mid + 1" for j
        using False sorted_nth_mono [OF 1(3), of j mid] m(2) 1(5) that by simp
      have IH: "mid + 1 \<le> bisect_right a x (mid + 1) hi" "bisect_right a x (mid + 1) hi \<le> hi"
        "\<And>j. mid + 1 \<le> j \<Longrightarrow> j < bisect_right a x (mid + 1) hi \<Longrightarrow> a ! j \<le> x"
        "\<And>j. bisect_right a x (mid + 1) hi \<le> j \<Longrightarrow> j < hi \<Longrightarrow> x < a ! j"
        using 1(2) [OF True mid_def False 1(3) _ 1(5)] m(2) by auto
      have "a ! j \<le> x" if "j < bisect_right a x (mid + 1) hi" for j
        using low [of j] IH(3) [of j] that by (cases "j < mid + 1") auto
      with IH(1,2,4) m(1) show ?thesis unfolding e by simp
    qed
  qed
qed

lemma bisect_insort_eq:
  assumes "sorted a"
  shows "bisect_insort a x = takeWhile (\<lambda>y. y \<le> x) a @ x # dropWhile (\<lambda>y. y \<le> x) a"
proof -
  define i where "i = bisect_right a x 0 (length a)"
  have i: "i \<le> length a" "\<And>j. j < i \<Longrightarrow> a ! j \<le> x" "i < length a \<Longrightarrow> x < a ! i"
    using bisect_right_spec [OF assms, of 0 "length a" x] by (auto simp: i_def)
  have "takeWhile (\<lambda>y. y \<le> x) a = take i a"
    using i by (intro takeWhile_eq_take_P_nth) auto
  moreover from this have "dropWhile (\<lambda>y. y \<le> x) a = drop i a"
    using i(1) by (metis append_same_eq append_take_drop_id takeWhile_dropWhile_id same_append_eq)
  ultimately show ?thesis by (simp add: bisect_insort_def i_def [symmetric])
qed

lemma sorted_bisect_insort: "sorted a \<Longrightarrow> sorted (bisect_insort a x)"
proof -
  assume s: "sorted a"
  have "\<forall>y \<in> set (dropWhile (\<lambda>y. y \<le> x) a). x \<le> y"
  proof (cases "dropWhile (\<lambda>y. y \<le> x) a")
    case (Cons z zs)
    then have "x < z" by (metis hd_dropWhile list.discI list.sel(1) linorder_not_le)
    moreover have "sorted (z # zs)" using s Cons by (metis sorted_dropWhile)
    ultimately show ?thesis using Cons by auto
  next
    case Nil
    then show ?thesis by (metis empty_iff list.set(1))
  qed
  with s show ?thesis
    by (auto simp: bisect_insort_eq sorted_append sorted_takeWhile sorted_dropWhile
        dest!: set_takeWhileD)
qed

lemma set_bisect_insort: "sorted a \<Longrightarrow> set (bisect_insort a x) = insert x (set a)"
  by (simp add: bisect_insort_eq) (metis set_append takeWhile_dropWhile_id)

lemma distinct_bisect_insort: "sorted a \<Longrightarrow> distinct a \<Longrightarrow> x \<notin> set a \<Longrightarrow> distinct (bisect_insort a x)"
  by (simp add: bisect_insort_eq) (metis Un_iff distinct_append set_append takeWhile_dropWhile_id)

lemma length_bisect_insort: "length (bisect_insort a x) = Suc (length a)"
  by (simp add: bisect_insort_def Let_def min_def)

lemma hd_bisect_insort: "sorted a \<Longrightarrow> a \<noteq> [] \<Longrightarrow> hd a \<le> x \<Longrightarrow> hd (bisect_insort a x) = hd a"
  by (cases a) (simp_all add: bisect_insort_eq)

section \<open>Invariant\<close>

definition stored_ok :: "int list \<Rightarrow> bool" where
  "stored_ok xs \<longleftrightarrow> sorted xs \<and> distinct xs \<and> length xs \<le> STORED_MSG_IDS_MAX_SIZE + 1"

definition session_ok :: "'g session \<Rightarrow> bool" where
  "session_ok s \<longleftrightarrow> stored_ok (stored_msg_ids s) \<and> factory_ok (factory s) \<and> distinct (pending_acks s) \<and>
     results s \<subseteq> dom (objs s)"

lemma session_ok_init: "session_ok Session_init"
  by (simp add: session_ok_def Session_init_def stored_ok_def factory_ok_init)

lemma emit_frame [simp]:
  "stored_msg_ids (emit e s) = stored_msg_ids s" "factory (emit e s) = factory s"
  "pending_acks (emit e s) = pending_acks s" "results (emit e s) = results s"
  "objs (emit e s) = objs s" "ignore_count (emit e s) = ignore_count s"
  "recent_msg_ids (emit e s) = recent_msg_ids s" "state (emit e s) = state s"
  by (simp_all add: emit_def)

lemma add_ack_frame [simp]:
  "stored_msg_ids (add_ack i s) = stored_msg_ids s" "factory (add_ack i s) = factory s"
  "results (add_ack i s) = results s" "objs (add_ack i s) = objs s"
  "pending_acks (add_ack i s) = List.insert i (pending_acks s)"
  by (simp_all add: add_ack_def)

lemma deliver_frame [simp]:
  "stored_msg_ids (deliver i v s) = stored_msg_ids s" "factory (deliver i v s) = factory s"
  "results (deliver i v s) = results s" "pending_acks (deliver i v s) = pending_acks s"
  "dom (objs (deliver i v s)) = dom (objs s)"
  by (auto simp: deliver_def split: if_splits)

lemma discard_frame [simp]:
  "stored_msg_ids (discard s) = stored_msg_ids s" "factory (discard s) = factory s"
  "results (discard s) = results s" "pending_acks (discard s) = pending_acks s" "objs (discard s) = objs s"
  by (simp_all add: discard_def Let_def)

lemma dispatch_frame [simp]:
  "stored_msg_ids (dispatch c b s) = stored_msg_ids s" "factory (dispatch c b s) = factory s"
  "results (dispatch c b s) = results s" "dom (objs (dispatch c b s)) = dom (objs s)"
  by (simp_all add: dispatch_def split: tl.splits service.splits)

lemma dispatch_acks: "distinct (pending_acks s) \<Longrightarrow> distinct (pending_acks (dispatch c b s))"
  by (simp add: dispatch_def split: tl.splits service.splits)

lemma trim_frame [simp]:
  "factory (trim_stored s) = factory s" "results (trim_stored s) = results s"
  "objs (trim_stored s) = objs s" "pending_acks (trim_stored s) = pending_acks s"
  "recent_msg_ids (trim_stored s) = recent_msg_ids s" "ignore_count (trim_stored s) = ignore_count s"
  by (simp_all add: trim_stored_def)

lemma trim_stored_ok:
  assumes "stored_ok (stored_msg_ids s)"
  shows "stored_ok (stored_msg_ids (trim_stored s))"
    and "length (stored_msg_ids (trim_stored s)) \<le> STORED_MSG_IDS_MAX_SIZE"
    and "stored_msg_ids s \<noteq> [] \<longleftrightarrow> stored_msg_ids (trim_stored s) \<noteq> []"
    and "y \<in> set (stored_msg_ids s) \<Longrightarrow> y \<in> set (stored_msg_ids (trim_stored s)) \<or>
      y < hd (stored_msg_ids (trim_stored s))"
    and "stored_msg_ids s \<noteq> [] \<Longrightarrow> hd (stored_msg_ids s) \<le> hd (stored_msg_ids (trim_stored s))"
proof -
  let ?xs = "stored_msg_ids s" and ?n = "STORED_MSG_IDS_MAX_SIZE div 2"
  have n: "?n < STORED_MSG_IDS_MAX_SIZE" "0 < ?n" by (simp_all add: STORED_MSG_IDS_MAX_SIZE_def)
  show "stored_ok (stored_msg_ids (trim_stored s))"
    using assms by (auto simp: stored_ok_def trim_stored_def sorted_wrt_drop)
  show "length (stored_msg_ids (trim_stored s)) \<le> STORED_MSG_IDS_MAX_SIZE"
    using assms n by (auto simp: stored_ok_def trim_stored_def)
  show "stored_msg_ids s \<noteq> [] \<longleftrightarrow> stored_msg_ids (trim_stored s) \<noteq> []"
    using n by (auto simp: trim_stored_def)
  have split: "y \<le> z" if "y \<in> set (take ?n ?xs)" "z \<in> set (drop ?n ?xs)" for y z
    using assms that sorted_append [of "take ?n ?xs" "drop ?n ?xs"] by (simp add: stored_ok_def)
  have dj: "y \<noteq> z" if "y \<in> set (take ?n ?xs)" "z \<in> set (drop ?n ?xs)" for y z
    using assms that distinct_append [of "take ?n ?xs" "drop ?n ?xs"] by (auto simp: stored_ok_def)
  have h: "hd (drop ?n ?xs) \<in> set (drop ?n ?xs)" if "STORED_MSG_IDS_MAX_SIZE < length ?xs"
    using that n by (intro hd_in_set) simp
  show "y \<in> set ?xs \<Longrightarrow> y \<in> set (stored_msg_ids (trim_stored s)) \<or> y < hd (stored_msg_ids (trim_stored s))"
    using split [OF _ h] dj [OF _ h] set_append [of "take ?n ?xs" "drop ?n ?xs"]
    by (fastforce simp: trim_stored_def)
  show "?xs \<noteq> [] \<Longrightarrow> hd ?xs \<le> hd (stored_msg_ids (trim_stored s))"
    using split [OF _ h, of "hd ?xs"] n by (cases ?xs) (auto simp: trim_stored_def take_Cons')
qed

lemma check_frame:
  assumes "check_msg_id ticks mi s = (r, s')"
  shows "stored_msg_ids s' = stored_msg_ids (trim_stored s) \<and> results s' = results s \<and> objs s' = objs s \<and>
    pending_acks s' = pending_acks s \<and> (factory_ok (factory s) \<longrightarrow> factory_ok (factory s'))"
proof -
  obtain now f where a: "allocate_message_identity ticks (factory s) = (now, f)" by fastforce
  have "factory_ok (factory s) \<Longrightarrow> factory_ok f" using identity_step [OF _ a] by simp
  with assms show ?thesis
    by (simp add: check_msg_id_def Let_def a split: if_splits) auto
qed

lemma check_passed:
  assumes "check_msg_id ticks mi s = (Inr u, s')"
  shows "mi \<notin> set (stored_msg_ids s') \<and> mi \<notin> set (recent_msg_ids s) \<and>
    (stored_msg_ids s' \<noteq> [] \<longrightarrow> hd (stored_msg_ids s') \<le> mi \<and>
       (let now = fst (allocate_message_identity ticks (factory s))
        in now - 300 * second \<le> mi \<and> mi \<le> now + 30 * second))"
proof -
  obtain now f where a: "allocate_message_identity ticks (factory s) = (now, f)" by fastforce
  with assms show ?thesis
    by (simp add: check_msg_id_def Let_def a split: if_splits) auto
qed

text \<open>The state after a message that was taken, before its body is looked at.\<close>

lemma handle_message_cases:
  assumes "handle_message c ticks msg s = (r, s')"
  obtains (Skipped) "r = Skipped" "stored_msg_ids s' = stored_msg_ids s" "factory s' = factory s"
      "results s' = results s" "objs s' = objs s" "pending_acks s' = pending_acks s"
    | (Discarded) e s1 s2 where "r = Discarded" "check_msg_id ticks (msg_id msg) s1 = (Inl e, s2)" "s' = discard s2"
      "stored_msg_ids s1 = stored_msg_ids s" "factory s1 = factory s" "results s1 = results s" "objs s1 = objs s"
      "distinct (pending_acks s) \<longrightarrow> distinct (pending_acks s1)"
    | (Handled) s1 s2 where "r = Handled" "check_msg_id ticks (msg_id msg) s1 = (Inr (), s2)"
      "s' = dispatch c (body msg) (s2\<lparr>stored_msg_ids := bisect_insort (stored_msg_ids s2) (msg_id msg)\<rparr>)"
      "stored_msg_ids s1 = stored_msg_ids s" "factory s1 = factory s" "results s1 = results s" "objs s1 = objs s"
      "distinct (pending_acks s) \<longrightarrow> distinct (pending_acks s1)" "recent_msg_ids s1 = recent_msg_ids s"
proof -
  define s0 where "s0 = (if seq_no msg = 0 then emit (SetServerTime (msg_id msg)) s else s)"
  define s1 where "s1 = (if seq_no msg mod 2 \<noteq> 0 then add_ack (msg_id msg) s0 else s0)"
  have f0: "stored_msg_ids s0 = stored_msg_ids s" "factory s0 = factory s" "results s0 = results s"
    "objs s0 = objs s" "pending_acks s0 = pending_acks s" "recent_msg_ids s0 = recent_msg_ids s"
    by (auto simp: s0_def emit_def)
  then have f1: "stored_msg_ids s1 = stored_msg_ids s" "factory s1 = factory s" "results s1 = results s"
    "objs s1 = objs s" "distinct (pending_acks s) \<longrightarrow> distinct (pending_acks s1)"
    "recent_msg_ids s1 = recent_msg_ids s" by (auto simp: s1_def add_ack_def)
  obtain q s2 where q: "check_msg_id ticks (msg_id msg) s1 = (q, s2)" by fastforce
  show thesis
  proof (cases "seq_no msg mod 2 \<noteq> 0 \<and> msg_id msg \<in> set (pending_acks s0)")
    case True
    with assms have "r = Skipped" "s' = s0" by (auto simp: handle_message_def s0_def Let_def)
    with f0 show ?thesis by (intro Skipped) auto
  next
    case False
    then have h: "handle_message c ticks msg s = (case q of
        Inl _ \<Rightarrow> (Discarded, discard s2)
      | Inr _ \<Rightarrow> (Handled, dispatch c (body msg)
          (s2\<lparr>stored_msg_ids := bisect_insort (stored_msg_ids s2) (msg_id msg)\<rparr>)))"
      unfolding handle_message_def s0_def [symmetric] Let_def s1_def [symmetric] q by auto
    show ?thesis
    proof (cases q)
      case (Inl e)
      with h assms q f1 show ?thesis by (intro Discarded [of s1 e s2]) auto
    next
      case (Inr u)
      with h assms q f1 show ?thesis by (intro Handled [of s1 s2]) auto
    qed
  qed
qed

lemma handle_message_ok:
  assumes ok: "session_ok s" and h: "handle_message c ticks msg s = (r, s')"
  shows "session_ok s'"
  using h
proof (cases rule: handle_message_cases)
  case Skipped
  with ok show ?thesis by (simp add: session_ok_def)
next
  case (Discarded e s1 s2)
  note f = check_frame [OF Discarded(2)]
  have "stored_ok (stored_msg_ids (trim_stored s1))"
    using ok Discarded(4) by (intro trim_stored_ok(1)) (simp add: session_ok_def)
  with ok f Discarded show ?thesis by (auto simp: session_ok_def)
next
  case (Handled s1 s2)
  note f = check_frame [OF Handled(2)] and p = check_passed [OF Handled(2)]
  have t: "stored_ok (stored_msg_ids s2)" "length (stored_msg_ids s2) \<le> STORED_MSG_IDS_MAX_SIZE"
    using ok Handled(4) f trim_stored_ok(1,2) [of s1] by (simp_all add: session_ok_def)
  then have "stored_ok (bisect_insort (stored_msg_ids s2) (msg_id msg))"
    using p by (simp add: stored_ok_def sorted_bisect_insort distinct_bisect_insort length_bisect_insort)
  with ok f Handled show ?thesis
    by (auto simp: session_ok_def intro!: dispatch_acks)
qed

text \<open>The ids taken so far: each is stored or lies below everything stored.\<close>

definition seen :: "int set \<Rightarrow> 'g session \<Rightarrow> bool" where
  "seen A s \<longleftrightarrow> (\<forall>a \<in> A. stored_msg_ids s \<noteq> [] \<and>
     (a \<in> set (stored_msg_ids s) \<or> a < hd (stored_msg_ids s)))"

lemma seen_trim: "stored_ok (stored_msg_ids s) \<Longrightarrow> seen A s \<Longrightarrow> seen A (trim_stored s)"
  using trim_stored_ok(3,4,5) [of s] unfolding seen_def by (metis order.strict_trans1 order_less_le_trans)

lemma seen_cong: "stored_msg_ids s' = stored_msg_ids s \<Longrightarrow> seen A s' \<longleftrightarrow> seen A s"
  by (simp add: seen_def)

lemma handle_message_seen:
  assumes ok: "session_ok s" and seen: "seen A s" and h: "handle_message c ticks msg s = (r, s')"
  shows "seen (if r = Handled then insert (msg_id msg) A else A) s' \<and> (r = Handled \<longrightarrow> msg_id msg \<notin> A)"
  using h
proof (cases rule: handle_message_cases)
  case Skipped
  with seen show ?thesis by (simp add: seen_def)
next
  case (Discarded e s1 s2)
  have "seen A (trim_stored s1)"
    using ok seen Discarded(4) by (intro seen_trim) (simp_all add: session_ok_def seen_def)
  with check_frame [OF Discarded(2)] Discarded(1,3) show ?thesis by (simp add: seen_def)
next
  case (Handled s1 s2)
  note f = check_frame [OF Handled(2)] and p = check_passed [OF Handled(2)]
  have "seen A (trim_stored s1)"
    using ok seen Handled(4) by (intro seen_trim) (simp_all add: session_ok_def seen_def)
  then have s2: "seen A s2" using f by (simp add: seen_def)
  have so: "sorted (stored_msg_ids s2)"
    using ok Handled(4) f trim_stored_ok(1) [of s1] by (simp add: session_ok_def stored_ok_def)
  have "seen (insert (msg_id msg) A) (s2\<lparr>stored_msg_ids := bisect_insort (stored_msg_ids s2) (msg_id msg)\<rparr>)"
  proof (cases "stored_msg_ids s2 = []")
    case True
    with s2 have "A = {}" by (auto simp: seen_def)
    with True show ?thesis by (simp add: seen_def bisect_insort_def Let_def)
  next
    case False
    with s2 so p show ?thesis
      by (auto simp: seen_def set_bisect_insort hd_bisect_insort) (metis length_0_conv length_bisect_insort nat.simps(3))+
  qed
  moreover have "msg_id msg \<notin> A" using s2 p by (fastforce simp: seen_def)
  ultimately show ?thesis using Handled(1,3) by (simp add: seen_def)
qed

definition handled_ids :: "(int \<times> 'g message) list \<Rightarrow> outcome list \<Rightarrow> int list" where
  "handled_ids ms rs = map (\<lambda>((_, m), _). msg_id m) (filter (\<lambda>(_, r). r = Handled) (zip ms rs))"

lemma handle_messages_seen:
  "session_ok s \<Longrightarrow> seen A s \<Longrightarrow> handle_messages c ms s = (rs, s') \<Longrightarrow>
   session_ok s' \<and> seen (A \<union> set (handled_ids ms rs)) s' \<and>
   distinct (handled_ids ms rs) \<and> set (handled_ids ms rs) \<inter> A = {}"
proof (induction c ms s arbitrary: A rs rule: handle_messages.induct)
  case (1 c s)
  then show ?case by (simp add: handled_ids_def)
next
  case (2 c ticks msg ms s)
  obtain r s1 where h: "handle_message c ticks msg s = (r, s1)" by fastforce
  from 2(4) h obtain rs1 where t: "handle_messages c ms s1 = (rs1, s')" and rs: "rs = r # rs1"
    by (auto split: prod.splits)
  let ?A = "if r = Handled then insert (msg_id msg) A else A"
  note m = handle_message_seen [OF 2(2,3) h]
  have "session_ok s' \<and> seen (?A \<union> set (handled_ids ms rs1)) s' \<and> distinct (handled_ids ms rs1) \<and>
      set (handled_ids ms rs1) \<inter> ?A = {}"
    using 2(1) [OF h [symmetric] refl handle_message_ok [OF 2(2) h] _ t, of ?A] m by simp
  with m show ?case
    by (cases "r = Handled") (auto simp: rs handled_ids_def)
qed

section \<open>Properties\<close>

text \<open>
  C1. No incoming message is processed twice on a connection: over any sequence of
  messages, starting with no stored ids, the ids of the messages that pass the checks
  are all different, although the stored ids are cut in half whenever they exceed 2000.
  The invariant holds afterwards: the stored ids are sorted, distinct and at most 2001.
\<close>

theorem no_replay:
  assumes "session_ok s" "stored_msg_ids s = []" "handle_messages c ms s = (rs, s')"
  shows "distinct (handled_ids ms rs) \<and> session_ok s' \<and> sorted (stored_msg_ids s') \<and>
    distinct (stored_msg_ids s') \<and> length (stored_msg_ids s') \<le> 2001"
  using handle_messages_seen [OF assms(1) _ assms(3), of "{}"]
  by (auto simp: seen_def session_ok_def stored_ok_def STORED_MSG_IDS_MAX_SIZE_def)

definition other_service :: "int \<Rightarrow> int service" where
  "other_service g = (if g = 5 then RpcResult 400 (Gen 6) else OtherService)"

theorem no_replay_witness:
  "\<exists>rs s'. handle_messages other_service [(0, Message (Gen 7) 9 1 12), (0, Message (Gen 7) 9 0 12)] Session_init = (rs, s') \<and>
     distinct (handled_ids [(0, Message (Gen (7 :: int)) 9 1 12), (0, Message (Gen 7) 9 0 12)] rs) \<and> session_ok s'"
proof -
  obtain rs s' where h: "handle_messages other_service [(0, Message (Gen 7) 9 1 12), (0, Message (Gen 7) 9 0 12)]
      Session_init = (rs, s')" by fastforce
  from no_replay [OF session_ok_init _ h] show ?thesis using h by (auto simp: Session_init_def)
qed

text \<open>
  A message that is taken while ids are stored is fresh: its id is not below the
  lowest stored one, not among the stored or recent ones, at most 30 seconds ahead of
  and at most 300 seconds behind the id the client would use now; and it is stored.
\<close>

lemma handled_is_fresh:
  assumes "session_ok s" "handle_message c ticks msg s = (Handled, s')" "stored_msg_ids s \<noteq> []"
  shows "hd (stored_msg_ids s) \<le> msg_id msg \<and> msg_id msg \<notin> set (stored_msg_ids s) \<and>
    msg_id msg \<notin> set (recent_msg_ids s) \<and>
    (let now = fst (allocate_message_identity ticks (factory s))
     in now - 300 * second \<le> msg_id msg \<and> msg_id msg \<le> now + 30 * second) \<and>
    msg_id msg \<in> set (stored_msg_ids s')"
  using assms(2)
proof (cases rule: handle_message_cases)
  case (Handled s1 s2)
  note f = check_frame [OF Handled(2)] and p = check_passed [OF Handled(2)]
  have so: "stored_ok (stored_msg_ids s1)" using assms(1) Handled(4) by (simp add: session_ok_def)
  have t: "stored_msg_ids s2 \<noteq> []" "hd (stored_msg_ids s) \<le> hd (stored_msg_ids s2)"
    using f trim_stored_ok(3,5) [OF so] assms(3) Handled(4) by auto
  have "sorted (stored_msg_ids s2)" using f trim_stored_ok(1) [OF so] by (simp add: stored_ok_def)
  moreover have "msg_id msg \<notin> set (stored_msg_ids s)"
    using trim_stored_ok(4) [OF so, of "msg_id msg"] p t f Handled(4) by fastforce
  ultimately show ?thesis
    using p t Handled(3,5,9) by (auto simp: set_bisect_insort Let_def)
qed auto

lemma deliver_objs:
  "i \<in> results s \<Longrightarrow> objs s i = Some r \<Longrightarrow>
   objs (deliver i v s) = (objs s)(i \<mapsto> r\<lparr>val := Some v, event := True\<rparr>)"
  by (simp add: deliver_def)

text \<open>
  C8. Answers reach the request they belong to and no other.  When a result for the
  request \<open>i\<close> passes the checks while \<open>i\<close> waits, the wait for \<open>i\<close> ends with that
  result, and every other request sees what it saw before.
\<close>

theorem answer_delivered:
  assumes "handle_message c ticks msg s = (Handled, s')" "body msg = Gen g" "c g = RpcResult i v"
    "i \<in> results s" "objs s i = Some r" "\<not> failed r"
    "\<And>code m. service_of c v \<noteq> RpcError code m" "\<And>b n. service_of c v \<noteq> BadServerSalt b n"
  shows "fst (send_end c i s') = Answer v \<and> i \<notin> results (snd (send_end c i s')) \<and>
    (\<forall>j. j \<noteq> i \<longrightarrow> objs s' j = objs s j)"
  using assms(1)
proof (cases rule: handle_message_cases)
  case (Handled s1 s2)
  have o: "objs s2 = objs s" "results s2 = results s" using check_frame [OF Handled(2)] Handled by simp_all
  then have "objs s' = (objs s)(i \<mapsto> r\<lparr>val := Some v, event := True\<rparr>)"
    using assms(2-5) Handled(3) by (simp add: dispatch_def service_of_def deliver_objs)
  then show ?thesis
    using assms(6-8) by (cases "service_of c v") (auto simp: send_end_def Let_def)
qed auto

theorem answer_delivered_witness:
  "\<exists>s'. handle_message other_service 8 (Message (Gen 5) 9 1 12)
       (Session_init\<lparr>results := {400}, objs := [400 \<mapsto> Result_new]\<rparr>) = (Handled, s') \<and>
     fst (send_end other_service 400 s') = Answer (Gen 6)"
proof -
  let ?s = "Session_init\<lparr>results := {400}, objs := [400 \<mapsto> Result_new]\<rparr> :: int session"
  have "fst (handle_message other_service 8 (Message (Gen 5) 9 1 12) ?s) = Handled"
    by (simp add: handle_message_def Session_init_def check_msg_id_def trim_stored_def STORED_MSG_IDS_MAX_SIZE_def
        add_ack_def)
  then obtain s' where h: "handle_message other_service 8 (Message (Gen 5) 9 1 12) ?s = (Handled, s')"
    by (metis prod.collapse)
  from answer_delivered [OF h, of 5 400 "Gen 6" Result_new] show ?thesis
    using h by (simp add: other_service_def Result_new_def service_of_def)
qed

lemma no_results_frame:
  assumes "results s = {}" "handle_messages c ms s = (rs, s')"
  shows "objs s' = objs s \<and> results s' = {}"
  using assms
proof (induction c ms s arbitrary: rs rule: handle_messages.induct)
  case (2 c ticks msg ms s)
  obtain r s1 where h: "handle_message c ticks msg s = (r, s1)" by fastforce
  from 2(3) h obtain rs1 where t: "handle_messages c ms s1 = (rs1, s')" by (auto split: prod.splits)
  have d: "objs (dispatch c b x) = objs x" if "results x = {}" for b x
    using that by (simp add: dispatch_def deliver_def split: tl.splits service.splits)
  have "objs s1 = objs s \<and> results s1 = {}"
    using h
  proof (cases rule: handle_message_cases)
    case (Discarded e x y)
    with check_frame [OF Discarded(2)] 2(2) show ?thesis by simp
  next
    case (Handled x y)
    with check_frame [OF Handled(2)] 2(2) show ?thesis by (simp add: d)
  qed (use 2(2) in simp)
  with 2(1) [OF h [symmetric] refl _ t] show ?case by simp
qed simp

text \<open>
  C9. Stopping never leaves a request waiting: after \<open>_stop\<close> has begun, whatever
  messages are still handled, every request that was waiting ends with
  \<open>TimeoutError\<close> at once, its event set, and the session can be stopped only once.
\<close>

theorem stop_releases_waiters:
  assumes "session_ok s" "i \<in> results s" "state s = STARTED \<or> state s = STARTING"
    "stop s = (b, s1)" "handle_messages c ms s1 = (rs, s2)"
  shows "b \<and> (\<exists>r. objs s2 i = Some r \<and> event r) \<and> fst (send_end c i s2) = Raised TimeoutError \<and>
    must_stay_stopped s1 \<and> stored_msg_ids s1 = [] \<and> \<not> is_started s1 \<and> stop s1 = (False, s1) \<and>
    pending_acks s1 = pending_acks s"
proof -
  from assms(1,2) obtain r where r: "objs s i = Some r" by (auto simp: session_ok_def)
  from assms(3) have st: "state s \<noteq> STOPPED" "state s \<noteq> STOPPING" by auto
  with assms(4) have s1: "results s1 = {}" "objs s1 i = Some (r\<lparr>failed := True, event := True\<rparr>)" "b"
    "must_stay_stopped s1" "stored_msg_ids s1 = []" "\<not> is_started s1" "state s1 = STOPPING"
    "pending_acks s1 = pending_acks s"
    using r assms(2) by (auto simp: stop_def stop_begin_def)
  from no_results_frame [OF s1(1) assms(5)] s1 show ?thesis
    by (simp add: send_end_def Let_def stop_def stop_begin_def)
qed

theorem stop_releases_waiters_witness:
  "fst (send_end other_service 400
     (snd (stop (Session_init\<lparr>state := STARTED, results := {400}, objs := [400 \<mapsto> Result_new]\<rparr>))))
   = Raised TimeoutError"
proof -
  let ?s = "Session_init\<lparr>state := STARTED, results := {400}, objs := [400 \<mapsto> Result_new]\<rparr> :: int session"
  obtain b s1 where s1: "stop ?s = (b, s1)" by fastforce
  have "session_ok ?s"
    by (simp add: session_ok_def Session_init_def stored_ok_def factory_ok_init)
  from stop_releases_waiters [OF this _ _ s1, of 400 other_service "[]" "[]" s1] s1 show ?thesis
    by simp
qed

definition due :: "int \<Rightarrow> future_salt \<Rightarrow> bool" where
  "due server_time f = (valid_since f * second \<le> server_time)"

lemma sorted_le_last: "sorted xs \<Longrightarrow> x \<in> set xs \<Longrightarrow> x \<le> last xs"
  by (induction xs) (auto split: if_splits)

lemma current_salt_loop_split:
  assumes "sorted (map valid_since fs)"
  shows "current_salt_loop t fs sa vu =
    (filter (\<lambda>f. \<not> due t f) fs,
     if filter (due t) fs = [] then sa else salt (last (filter (due t) fs)),
     if filter (due t) fs = [] then vu else valid_until (last (filter (due t) fs)))"
  using assms
proof (induction fs arbitrary: sa vu)
  case (Cons f fs)
  have "second > 0" by (simp add: second_def)
  then have "\<not> due t f \<Longrightarrow> \<forall>g \<in> set fs. \<not> due t g"
    using Cons.prems unfolding due_def not_le
    by (metis less_le_trans list.simps(9) mult_right_mono less_imp_le sorted_simps(2) imageI list.set_map)
  with Cons show ?case
    by (cases "due t f") (auto simp: due_def [symmetric] filter_empty_conv filter_id_conv)
qed simp

text \<open>
  The salt in use is the newest one that has become valid: from a pool in order of
  validity, as \<open>_update_future_salts\<close> leaves it, \<open>_current_salt\<close> takes the last salt
  that is due, keeps the current one when none is, and drops exactly the due ones.
\<close>

lemma current_salt_newest:
  assumes "s = update_future_salts_end salts s0" "current_salt t s = (sa, s')"
  shows "future_salts s' = filter (\<lambda>f. \<not> due t f) (sort_key valid_since salts) \<and> cur_salt s' = sa \<and>
    (let d = filter (due t) (sort_key valid_since salts)
     in if d = [] then sa = cur_salt s0 \<and> salt_valid_until s' = salt_valid_until s0
        else sa = salt (last d) \<and> salt_valid_until s' = valid_until (last d) \<and>
          (\<forall>f \<in> set salts. due t f \<longrightarrow> valid_since f \<le> valid_since (last d)))"
proof -
  let ?fs = "sort_key valid_since salts"
  have so: "sorted (map valid_since ?fs)" by simp
  have "valid_since f \<le> valid_since (last (filter (due t) ?fs))" if "f \<in> set salts" "due t f" for f
  proof -
    have "f \<in> set (filter (due t) ?fs)" using that by simp
    moreover from this have "filter (due t) ?fs \<noteq> []" by (metis empty_iff list.set(1))
    moreover have "sorted (map valid_since (filter (due t) ?fs))" by (rule sorted_filter [OF so])
    ultimately show ?thesis
      using sorted_le_last [of "map valid_since (filter (due t) ?fs)" "valid_since f"]
      by (simp add: last_map)
  qed
  with assms show ?thesis
    using current_salt_loop_split [OF so, of t "cur_salt s0" "salt_valid_until s0"]
    by (auto simp: current_salt_def update_future_salts_end_def Let_def)
qed

definition retryable :: "int \<Rightarrow> 'r attempt \<Rightarrow> bool" where
  "retryable sleep_threshold a =
     (case a of
        FloodWait amount \<Rightarrow> \<not> flood_raises sleep_threshold amount
      | FloodPremiumWait amount \<Rightarrow> \<not> flood_raises sleep_threshold amount
      | OSErrorRaised \<Rightarrow> True | InternalServerError \<Rightarrow> True | ServiceUnavailable \<Rightarrow> True
      | _ \<Rightarrow> False)"

definition pause_after :: "int \<Rightarrow> 'r attempt \<Rightarrow> int" where
  "pause_after retry_delay a =
     (case a of FloodWait (Some n) \<Rightarrow> n | FloodPremiumWait (Some n) \<Rightarrow> n | _ \<Rightarrow> retry_delay)"

text \<open>The decision of one pass.\<close>

lemma invoke_loop_step:
  "invoke_loop st rd (Suc k) send =
    (if retryable st (send 0)
     then let (r, ps) = invoke_loop st rd k (\<lambda>i. send (Suc i)) in (r, pause_after rd (send 0) # ps)
     else (case send 0 of Returned v \<Rightarrow> Result v | a \<Rightarrow> ReRaised a, []))"
  by (auto simp: retryable_def pause_after_def flood_raises_def Let_def
      split: attempt.splits option.splits)

lemma invoke_loop_spec:
  "invoke_loop st rd n send = (r, ps) \<Longrightarrow>
   length ps \<le> n \<and> (\<forall>i < length ps. retryable st (send i) \<and> ps ! i = pause_after rd (send i)) \<and>
   (case r of
      Result v \<Rightarrow> length ps < n \<and> send (length ps) = Returned v
    | ReRaised a \<Rightarrow> length ps < n \<and> send (length ps) = a \<and> \<not> retryable st a
    | RetriesExhausted \<Rightarrow> length ps = n
    | NotStarted \<Rightarrow> False)"
proof (induction n arbitrary: send ps)
  case 0
  then show ?case by simp
next
  case (Suc n)
  show ?case
  proof (cases "retryable st (send 0)")
    case True
    with Suc.prems obtain ps' where i: "invoke_loop st rd n (\<lambda>i. send (Suc i)) = (r, ps')"
      and r: "ps = pause_after rd (send 0) # ps'"
      by (auto simp: invoke_loop_step simp del: invoke_loop.simps split: prod.splits)
    have "\<forall>i < length ps. retryable st (send i) \<and> ps ! i = pause_after rd (send i)"
      using Suc.IH [OF i] True by (auto simp: r less_Suc_eq_0_disj)
    with Suc.IH [OF i] show ?thesis by (auto simp: r split: invoked.splits)
  next
    case False
    with Suc.prems have "ps = []" "r = (case send 0 of Returned v \<Rightarrow> Result v | a \<Rightarrow> ReRaised a)"
      by (simp_all add: invoke_loop_step del: invoke_loop.simps)
    with False show ?thesis by (auto split: attempt.splits)
  qed
qed

text \<open>
  C13. \<open>invoke\<close> makes at most \<open>retries\<close> sends and always comes to an end: it returns the
  first answer, raises the first error that is not to be retried (a flood wait above
  the threshold among them), and reports exhausted retries only after \<open>retries\<close>
  failures that all were to be retried, having paused after each as the error demands.
\<close>

theorem invoke_attempts:
  assumes "invoke started retries st rd send = (r, ps)"
  shows "(if started
     then length ps \<le> nat retries \<and>
       (\<forall>i < length ps. retryable st (send i) \<and> ps ! i = pause_after rd (send i)) \<and>
       (case r of
          Result v \<Rightarrow> length ps < nat retries \<and> send (length ps) = Returned v
        | ReRaised a \<Rightarrow> length ps < nat retries \<and> send (length ps) = a \<and> \<not> retryable st a
        | RetriesExhausted \<Rightarrow> length ps = nat retries
        | NotStarted \<Rightarrow> False)
     else r = NotStarted \<and> ps = [])"
  using assms invoke_loop_spec [of st rd "nat retries" send r ps]
  by (cases started) (auto simp: invoke_def split: invoked.splits)

theorem invoke_attempts_witness:
  "\<exists>r ps. invoke True 10 10 1 (\<lambda>i. if i = 0 then OSErrorRaised else Returned True) = (r, ps) \<and> length ps \<le> 10"
  using invoke_attempts [of True 10 10 1 "\<lambda>i. if i = 0 then OSErrorRaised else Returned True"]
  by (cases "invoke True 10 10 1 (\<lambda>i. if i = 0 then OSErrorRaised else Returned True)") auto

end
