(* ===== verification/Session_Life.thy ===== *)
theory Session_Life
  imports Session
begin

text \<open>
  The life of a session (\<open>kurigram/pyrogram/session/session.py\<close>): \<open>start\<close>, \<open>_stop\<close>,
  \<open>stop\<close> and \<open>restart\<close> as coroutines that interleave at their \<open>await\<close>s, beside the two
  workers and the handlers of \<open>Session\<close>.  A coroutine is a program counter, the \<open>await\<close> it
  is suspended at together with what called it; the code up to the next \<open>await\<close> is one
  function.  How a wait ends is the choice of the environment.
\<close>

section \<open>State\<close>

text \<open>Who called \<open>start\<close>, and what goes on after \<open>_stop\<close>: the end of \<open>stop\<close>, the \<open>raise\<close>
  in \<open>start\<close>, and the two places in \<open>restart\<close>.\<close>

datatype caller = Direct | InRestart
datatype stop_cont = ContDone | ContRaise caller | ContRestart | ContUndo

datatype pc =
    StopPing stop_cont nat
  | StopClose stop_cont nat
  | StopRecv stop_cont nat
  | StopPending stop_cont
  | StopHandler stop_cont
  | StartConnect caller nat
  | StartPing caller
  | StartInit caller
  | StartHandler caller
  | RestartLock
  | Finished
  | RaisedError

text \<open>Connections and worker tasks have numbers, because a coroutine holds on to the one it
  waits for while \<open>self.connection\<close>, \<open>self.recv_task\<close> and \<open>self.ping_task\<close> may change.
  \<open>open_links\<close> are the connections made and not closed, \<open>ended\<close> the workers that are done,
  and \<open>pending\<close> is the number of tracked tasks.\<close>

record 'g life =
  sess :: "'g session"
  connection :: nat
  open_links :: "nat set"
  recv_task :: "nat option"
  ping_task :: "nat option"
  ended :: "nat set"
  next_id :: nat
  pending :: nat
  restart_lock :: bool
  threads :: "pc list"

record life_config =
  is_cdn :: bool
  connect_handler :: bool
  disconnect_handler :: bool

definition Life_init :: "'g life" where
  "Life_init = \<lparr>sess = Session_init, connection = 0, open_links = {}, recv_task = None, ping_task = None,
     ended = {}, next_id = 1, pending = 0, restart_lock = False, threads = []\<rparr>"

section \<open>The code between two waits\<close>

definition set_state :: "session_state \<Rightarrow> 'g life \<Rightarrow> 'g life" where
  "set_state st l = l\<lparr>sess := (sess l)\<lparr>state := st\<rparr>\<rparr>"

text \<open>\<open>_stop\<close>: it returns to \<open>k\<close> at once when the session is stopped already.\<close>

definition enter_stop :: "('g life \<Rightarrow> pc \<times> 'g life) \<Rightarrow> stop_cont \<Rightarrow> 'g life \<Rightarrow> pc \<times> 'g life" where
  "enter_stop k c l =
     (case stop_begin (sess l) of
        (False, _) \<Rightarrow> k l
      | (True, s) \<Rightarrow>
          let l = l\<lparr>sess := s\<rparr>
          in case ping_task l of
               Some w \<Rightarrow> (StopPing c w, l)
             | None \<Rightarrow> (StopClose c (connection l), l))"

definition finish_restart :: "'g life \<Rightarrow> pc \<times> 'g life" where
  "finish_restart l = (Finished, l\<lparr>restart_lock := False\<rparr>)"

text \<open>\<open>start\<close> has returned or raised.\<close>

definition after_start :: "caller \<Rightarrow> 'g life \<Rightarrow> pc \<times> 'g life" where
  "after_start c l =
     (case c of
        Direct \<Rightarrow> (Finished, l)
      | InRestart \<Rightarrow> if must_stay_stopped (sess l) then enter_stop finish_restart ContUndo l else finish_restart l)"

definition start_raised :: "caller \<Rightarrow> 'g life \<Rightarrow> pc \<times> 'g life" where
  "start_raised c l = (RaisedError, case c of Direct \<Rightarrow> l | InRestart \<Rightarrow> l\<lparr>restart_lock := False\<rparr>)"

text \<open>\<open>start\<close> up to its \<open>connect\<close>, on a new connection.\<close>

definition enter_start :: "caller \<Rightarrow> 'g life \<Rightarrow> pc \<times> 'g life" where
  "enter_start c l =
     (if state (sess l) = STARTED \<or> state (sess l) = STARTING then after_start c l
      else (StartConnect c (next_id l), set_state STARTING l\<lparr>connection := next_id l, next_id := next_id l + 1\<rparr>))"

definition after_stop :: "stop_cont \<Rightarrow> 'g life \<Rightarrow> pc \<times> 'g life" where
  "after_stop c l =
     (case c of
        ContDone \<Rightarrow> (Finished, l)
      | ContRaise d \<Rightarrow> start_raised d l
      | ContUndo \<Rightarrow> finish_restart l
      | ContRestart \<Rightarrow> if must_stay_stopped (sess l) then finish_restart l else enter_start InRestart l)"

definition finish_stop :: "life_config \<Rightarrow> stop_cont \<Rightarrow> 'g life \<Rightarrow> pc \<times> 'g life" where
  "finish_stop cfg c l =
     (let l = set_state STOPPED l
      in if disconnect_handler cfg then (StopHandler c, l) else after_stop c l)"

definition wait_pending :: "life_config \<Rightarrow> stop_cont \<Rightarrow> 'g life \<Rightarrow> pc \<times> 'g life" where
  "wait_pending cfg c l = (if pending l > 0 then (StopPending c, l) else finish_stop cfg c l)"

text \<open>\<open>stop\<close>.\<close>

definition enter_stop_for_good :: "('g life \<Rightarrow> pc \<times> 'g life) \<Rightarrow> stop_cont \<Rightarrow> 'g life \<Rightarrow> pc \<times> 'g life" where
  "enter_stop_for_good k c l = enter_stop k c (l\<lparr>sess := (sess l)\<lparr>must_stay_stopped := True\<rparr>\<rparr>)"

text \<open>\<open>restart\<close> once it holds the lock.\<close>

definition enter_restart :: "'g life \<Rightarrow> pc \<times> 'g life" where
  "enter_restart l =
     (let s = sess l;
          l = l\<lparr>restart_lock := True,
            sess := (if stored_msg_ids s \<noteq> [] then s\<lparr>recent_msg_ids := take 30 (stored_msg_ids s)\<rparr> else s)\<rparr>
      in enter_stop (after_stop ContRestart) ContRestart l)"

text \<open>The end of \<open>start\<close>.\<close>

definition start_finish :: "life_config \<Rightarrow> caller \<Rightarrow> 'g life \<Rightarrow> pc \<times> 'g life" where
  "start_finish cfg c l =
     (let l = l\<lparr>ping_task := Some (next_id l), next_id := next_id l + 1, sess := (sess l)\<lparr>state := STARTED, is_started := True\<rparr>\<rparr>
      in if connect_handler cfg then (StartHandler c, l) else after_start c l)"

text \<open>How a wait of \<open>start\<close> ends: \<open>OSError\<close> and most \<open>RPCError\<close>s begin a restart, any other
  exception stops the session.\<close>

datatype wait_result = WaitOk | WaitOSError | WaitFatal

text \<open>A coroutine goes on after its wait: where it waits next, the state, and the tasks it
  has created.  \<open>None\<close>: the wait is not over.\<close>

fun resume :: "life_config \<Rightarrow> wait_result \<Rightarrow> pc \<Rightarrow> 'g life \<Rightarrow> ((pc \<times> 'g life) \<times> pc list) option" where
  "resume cfg r (StopPing c w) l =
     (if w \<notin> ended l then None else Some ((StopClose c (connection l), l\<lparr>ping_task := None\<rparr>), []))"
| "resume cfg r (StopClose c n) l =
     (let l = l\<lparr>open_links := open_links l - {n}\<rparr>
      in case recv_task l of
           Some w \<Rightarrow> Some ((StopRecv c w, l), [])
         | None \<Rightarrow> Some (wait_pending cfg c l, []))"
| "resume cfg r (StopRecv c w) l =
     (if w \<notin> ended l then None else Some (wait_pending cfg c (l\<lparr>recv_task := None\<rparr>), []))"
| "resume cfg r (StopPending c) l = (if pending l > 0 then None else Some (finish_stop cfg c l, []))"
| "resume cfg r (StopHandler c) l = Some (after_stop c l, [])"
| "resume cfg r (StartConnect c n) l =
     (case r of
        WaitOk \<Rightarrow> Some ((StartPing c, l\<lparr>open_links := insert n (open_links l), recv_task := Some (next_id l),
          next_id := next_id l + 1\<rparr>), [])
      | WaitOSError \<Rightarrow> Some (after_start c l, [RestartLock])
      | WaitFatal \<Rightarrow> Some (enter_stop_for_good (start_raised c) (ContRaise c) l, []))"
| "resume cfg r (StartPing c) l =
     (case r of
        WaitOk \<Rightarrow> Some (if is_cdn cfg then start_finish cfg c l else (StartInit c, l), [])
      | WaitOSError \<Rightarrow> Some (after_start c l, [RestartLock])
      | WaitFatal \<Rightarrow> Some (enter_stop_for_good (start_raised c) (ContRaise c) l, []))"
| "resume cfg r (StartInit c) l =
     (case r of
        WaitOk \<Rightarrow> Some (start_finish cfg c l, [])
      | WaitOSError \<Rightarrow> Some (after_start c l, [RestartLock])
      | WaitFatal \<Rightarrow> Some (enter_stop_for_good (start_raised c) (ContRaise c) l, []))"
| "resume cfg r (StartHandler c) l = Some (after_start c l, [])"
| "resume cfg r RestartLock l = (if restart_lock l then None else Some (enter_restart l, []))"
| "resume cfg r Finished l = None"
| "resume cfg r RaisedError l = None"


section \<open>Steps\<close>

text \<open>What the handlers of \<open>Session\<close> do to its state, with the environment's choices.\<close>

inductive handler :: "'g session \<Rightarrow> 'g session \<Rightarrow> bool" where
  packet: "handler s (snd (handle_packet env classify session_id auth_key auth_key_id clock sent packet s))"
| send_begins: "handler s (snd (send_begin env service urandom session_id auth_key auth_key_id ticks server_time
    conn data wait_response s))"
| send_ends: "handler s (snd (send_end classify mi s))"
| receive: "handler s (snd (recv_step packet s))"
| ping: "handler s (snd (snd (ping_step stop_event sent server_time s)))"
| salts: "handler s (update_future_salts_end new_salts s)"

definition spawn :: "pc \<times> 'g life \<Rightarrow> 'g life" where
  "spawn r = (case r of (p, l) \<Rightarrow> l\<lparr>threads := threads l @ [p]\<rparr>)"

definition suspend :: "nat \<Rightarrow> (pc \<times> 'g life) \<times> pc list \<Rightarrow> 'g life" where
  "suspend i r = (case r of ((p, l), ps) \<Rightarrow> l\<lparr>threads := (threads l)[i := p] @ ps\<rparr>)"

text \<open>\<open>direct\<close> allows calls of \<open>start\<close>.  Restarts are begun by callers and by the workers and
  handlers.\<close>

inductive life_step :: "life_config \<Rightarrow> bool \<Rightarrow> 'g life \<Rightarrow> 'g life \<Rightarrow> bool" for cfg direct where
  call_start: "direct \<Longrightarrow> life_step cfg direct l (spawn (enter_start Direct l))"
| call_stop: "life_step cfg direct l (spawn (enter_stop_for_good (after_stop ContDone) ContDone l))"
| call_restart: "life_step cfg direct l (spawn (RestartLock, l))"
| resume: "i < length (threads l) \<Longrightarrow> resume cfg r (threads l ! i) l = Some res \<Longrightarrow>
    life_step cfg direct l (suspend i res)"
| handle: "handler (sess l) s \<Longrightarrow> life_step cfg direct l (l\<lparr>sess := s\<rparr>)"
| worker_ends: "life_step cfg direct l (l\<lparr>ended := insert w (ended l)\<rparr>)"
| tasks_change: "life_step cfg direct l (l\<lparr>pending := n\<rparr>)"

inductive life_reachable :: "life_config \<Rightarrow> bool \<Rightarrow> 'g life \<Rightarrow> 'g life \<Rightarrow> bool" for cfg direct l0 where
  init: "life_reachable cfg direct l0 l0"
| step: "life_reachable cfg direct l0 l \<Longrightarrow> life_step cfg direct l l' \<Longrightarrow> life_reachable cfg direct l0 l'"

section \<open>What the handlers keep\<close>

definition core :: "'g session \<Rightarrow> session_state \<times> bool \<times> bool" where
  "core s = (state s, must_stay_stopped s, is_started s)"

lemma core_emit [simp]: "core (emit e s) = core s"
  by (simp add: core_def emit_def)

lemma session_ok_emit [simp]: "session_ok (emit e s) = session_ok s"
  by (simp add: session_ok_def)

lemma core_fields:
  "core (s\<lparr>cur_salt := a\<rparr>) = core s" "core (s\<lparr>stored_msg_ids := xs\<rparr>) = core s"
  "core (s\<lparr>factory := f\<rparr>) = core s" "core (s\<lparr>recent_msg_ids := xs\<rparr>) = core s"
  "core (s\<lparr>ignore_count := n\<rparr>) = core s" "core (s\<lparr>pending_acks := xs\<rparr>) = core s"
  by (simp_all add: core_def)

lemma core_handle_message: "core (snd (handle_message c ticks msg s)) = core s"
proof -
  have d: "core (deliver i v s) = core s" "core (add_ack i s) = core s" "core (trim_stored s) = core s"
    "core (discard s) = core s" for i v and s :: "'a session"
    by (simp_all add: core_def deliver_def add_ack_def trim_stored_def discard_def Let_def emit_def)
  have e: "core (dispatch c b s) = core s" for b and s :: "'a session"
    by (simp add: dispatch_def d core_fields split: tl.splits service.splits)
  have k: "core (snd (check_msg_id ticks mi s)) = core s" for mi and s :: "'a session"
    by (simp add: check_msg_id_def Let_def core_fields d split: prod.splits)
  have t: "core (snd (case x of (r, s2) \<Rightarrow> (case r of
      Inl _ \<Rightarrow> (Discarded, discard s2)
    | Inr _ \<Rightarrow> (Handled, dispatch c (body msg) (s2\<lparr>stored_msg_ids := bisect_insort (stored_msg_ids s2) (msg_id msg)\<rparr>))))) =
    core (snd x)" for x :: "unit res \<times> 'a session"
    by (simp add: d e core_fields split: prod.splits sum.splits)
  show ?thesis by (simp add: handle_message_def Let_def t k d)
qed

lemma core_handle_messages: "core (snd (handle_messages c ms s)) = core s"
proof (induction c ms s rule: handle_messages.induct)
  case (2 c ticks msg ms s)
  then show ?case
    using core_handle_message [of c ticks msg s] by (auto split: prod.splits)
qed simp

lemma session_ok_handle_messages: "session_ok s \<Longrightarrow> session_ok (snd (handle_messages c ms s))"
proof (induction c ms s rule: handle_messages.induct)
  case (2 c ticks msg ms s)
  then show ?case
    using handle_message_ok [of s c ticks msg] by (auto split: prod.splits)
qed simp

lemma send_begin_keeps:
  fixes s :: "'g session"
  assumes "send_begin env service urandom sid key kid ticks st conn data w s = (r, s')"
  shows "core s' = core s \<and> (session_ok s \<longrightarrow> session_ok s')"
proof -
  obtain m f where c: "create (tl_env env) service ticks data (factory s) = (m, f)" by fastforce
  have "factory_ok (factory s) \<Longrightarrow> factory_ok f" using create_step [OF _ c] by simp
  moreover have "core s' = core s \<and> factory s' = f \<and> pending_acks s' = pending_acks s \<and>
    stored_msg_ids s' = stored_msg_ids s \<and> (results s \<subseteq> dom (objs s) \<longrightarrow> results s' \<subseteq> dom (objs s'))"
    using assms
    by (auto simp: send_begin_def c Let_def core_def current_salt_def split: sum.splits prod.splits option.splits if_splits)
  ultimately show ?thesis by (simp add: session_ok_def)
qed

lemma ping_keeps:
  fixes s :: "'g session"
  shows "core (snd (snd (ping_step e r t s))) = core s" "session_ok s \<Longrightarrow> session_ok (snd (snd (ping_step e r t s)))"
proof -
  have u: "core (snd (update_future_salts_begin t s)) = core s \<and>
      (session_ok s \<longrightarrow> session_ok (snd (update_future_salts_begin t s)))" for t and s :: "'g session"
    by (auto simp: update_future_salts_begin_def current_salt_def Let_def core_def session_ok_def split: prod.splits)
  from u [of t s] show "core (snd (snd (ping_step e r t s))) = core s"
    "session_ok s \<Longrightarrow> session_ok (snd (snd (ping_step e r t s)))"
    by (auto simp: ping_step_def Let_def emit_def core_def session_ok_def split: ping_result.splits prod.splits)
qed

lemma handler_keeps: "handler s s' \<Longrightarrow> core s' = core s \<and> (session_ok s \<longrightarrow> session_ok s')"
proof (induction rule: handler.induct)
  case (packet s env classify session_id auth_key auth_key_id clock sent packet)
  have f: "core (flush_acks sent s) = core s" "session_ok s \<Longrightarrow> session_ok (flush_acks sent s)" for s :: "'a session"
    by (simp_all add: flush_acks_def Let_def core_fields emit_def session_ok_def) (simp add: core_def)
  show ?case
    by (cases "unpack env (bio packet) session_id auth_key auth_key_id")
      (simp_all add: handle_packet_def Let_def case_prod_unfold f core_handle_messages session_ok_handle_messages)
next
  case (send_begins s env service urandom session_id auth_key auth_key_id ticks server_time conn data wait_response)
  show ?case by (rule send_begin_keeps [OF surjective_pairing])
next
  case (send_ends s classify mi)
  have "snd (send_end classify mi s) = s\<lparr>results := results s - {mi}\<rparr>"
    by (simp add: send_end_def Let_def split: option.splits service.splits)
  then show ?case by (auto simp: core_def session_ok_def)
next
  case (receive s packet)
  show ?case by (simp add: recv_step_def Let_def split: option.splits)
next
  case (ping s stop_event sent server_time)
  show ?case using ping_keeps by blast
next
  case (salts s new_salts)
  show ?case by (simp add: update_future_salts_end_def core_def session_ok_def)
qed


section \<open>What a turn of a coroutine does\<close>

fun held_after :: "stop_cont \<Rightarrow> bool" where
  "held_after ContDone = False"
| "held_after (ContRaise c) = (c = InRestart)"
| "held_after ContRestart = True"
| "held_after ContUndo = True"

text \<open>The coroutines that hold the lock of \<open>restart\<close>, those inside \<open>_stop\<close>, those inside a
  \<open>start\<close> that a restart has called, and those that stem from a call of \<open>start\<close>.\<close>

fun holds_lock :: "pc \<Rightarrow> bool" where
  "holds_lock (StopPing c w) = held_after c"
| "holds_lock (StopClose c n) = held_after c"
| "holds_lock (StopRecv c w) = held_after c"
| "holds_lock (StopPending c) = held_after c"
| "holds_lock (StopHandler c) = held_after c"
| "holds_lock (StartConnect c n) = (c = InRestart)"
| "holds_lock (StartPing c) = (c = InRestart)"
| "holds_lock (StartInit c) = (c = InRestart)"
| "holds_lock (StartHandler c) = (c = InRestart)"
| "holds_lock p = False"

fun in_stop :: "pc \<Rightarrow> bool" where
  "in_stop (StopPing c w) = True"
| "in_stop (StopClose c n) = True"
| "in_stop (StopRecv c w) = True"
| "in_stop (StopPending c) = True"
| "in_stop p = False"

fun restarting :: "pc \<Rightarrow> bool" where
  "restarting (StartConnect c n) = (c = InRestart)"
| "restarting (StartPing c) = (c = InRestart)"
| "restarting (StartInit c) = (c = InRestart)"
| "restarting (StartHandler c) = (c = InRestart)"
| "restarting p = False"

fun from_direct :: "pc \<Rightarrow> bool" where
  "from_direct (StopPing c w) = (c = ContRaise Direct)"
| "from_direct (StopClose c n) = (c = ContRaise Direct)"
| "from_direct (StopRecv c w) = (c = ContRaise Direct)"
| "from_direct (StopPending c) = (c = ContRaise Direct)"
| "from_direct (StopHandler c) = (c = ContRaise Direct)"
| "from_direct (StartConnect c n) = (c = Direct)"
| "from_direct (StartPing c) = (c = Direct)"
| "from_direct (StartInit c) = (c = Direct)"
| "from_direct (StartHandler c) = (c = Direct)"
| "from_direct p = False"

definition stopping :: "'g life \<Rightarrow> bool" where
  "stopping l \<longleftrightarrow> state (sess l) = STOPPING"

text \<open>The session is up, or coming up, although it was told to stay stopped.\<close>

definition defiant :: "'g life \<Rightarrow> bool" where
  "defiant l \<longleftrightarrow> must_stay_stopped (sess l) \<and> (state (sess l) = STARTED \<or> state (sess l) = STARTING)"

text \<open>A turn from \<open>q\<close>: the lock goes with the coroutine, a session that is stopping or defiant
  afterwards has this coroutine to answer for it, or had another before.\<close>

definition turn :: "pc \<Rightarrow> 'g life \<Rightarrow> pc \<times> 'g life \<Rightarrow> bool" where
  "turn q l r \<longleftrightarrow>
     (case r of (p, l') \<Rightarrow>
        threads l' = threads l \<and>
        (session_ok (sess l) \<longrightarrow> session_ok (sess l')) \<and>
        (restart_lock l' \<longleftrightarrow> holds_lock p \<or> restart_lock l \<and> \<not> holds_lock q) \<and>
        (holds_lock p \<and> restart_lock l \<longrightarrow> holds_lock q) \<and>
        (stopping l' \<longrightarrow> in_stop p \<or> stopping l \<and> \<not> in_stop q) \<and>
        (\<not> from_direct q \<longrightarrow> \<not> from_direct p \<and> (defiant l' \<longrightarrow> restarting p \<or> defiant l \<and> \<not> restarting q)))"

text \<open>What a turn may have done to the state so far, and what runs on in the coroutine's place.\<close>

definition so_far :: "pc \<Rightarrow> 'g life \<Rightarrow> 'g life \<Rightarrow> bool" where
  "so_far q l m \<longleftrightarrow>
     threads m = threads l \<and> restart_lock m = restart_lock l \<and> (holds_lock q \<longrightarrow> restart_lock l) \<and>
     (session_ok (sess l) \<longrightarrow> session_ok (sess m)) \<and> (stopping m \<longrightarrow> stopping l \<and> \<not> in_stop q)"

lemma stop_begin_keeps:
  assumes "stop_begin s = (b, s')"
  shows "session_ok s \<Longrightarrow> session_ok s'" "b \<longleftrightarrow> state s = STARTED \<or> state s = STARTING"
    "b \<Longrightarrow> state s' = STOPPING" "must_stay_stopped s' = must_stay_stopped s"
proof -
  show "b \<longleftrightarrow> state s = STARTED \<or> state s = STARTING" "b \<Longrightarrow> state s' = STOPPING"
    "must_stay_stopped s' = must_stay_stopped s"
    using assms by (cases "state s"; auto simp: stop_begin_def)+
  show "session_ok s \<Longrightarrow> session_ok s'"
    using assms by (auto simp: stop_begin_def session_ok_def stored_ok_def split: if_splits)
qed

lemma enter_stop_cases:
  obtains (stopped) "enter_stop k c l = k l" "state (sess l) = STOPPED \<or> state (sess l) = STOPPING"
    | (stops) s p where "enter_stop k c l = (p, l\<lparr>sess := s\<rparr>)" "p = StopPing c (the (ping_task l)) \<or> p = StopClose c (connection l)"
      "session_ok (sess l) \<longrightarrow> session_ok s" "state s = STOPPING" "must_stay_stopped s = must_stay_stopped (sess l)"
proof -
  obtain b s where b: "stop_begin (sess l) = (b, s)" by fastforce
  note k = stop_begin_keeps [OF b]
  show thesis
  proof (cases b)
    case False
    with k(2) have "state (sess l) = STOPPED \<or> state (sess l) = STOPPING" by (cases "state (sess l)") auto
    then show ?thesis using stopped False b by (simp add: enter_stop_def)
  next
    case True
    show ?thesis
      using True b k by (intro stops [of "fst (enter_stop k c l)" s]) (auto simp: enter_stop_def Let_def split: option.splits)
  qed
qed

lemma turn_enter_stop:
  assumes "so_far q l m" "state (sess m) = STOPPED \<or> state (sess m) = STOPPING \<Longrightarrow> turn q l (k m)"
    "held_after c = holds_lock q" "c = ContRaise Direct \<longrightarrow> from_direct q"
  shows "turn q l (enter_stop k c m)"
proof (cases rule: enter_stop_cases [of k c m])
  case stopped
  then show ?thesis using assms(2) by simp
next
  case (stops s p)
  then show ?thesis
    using assms(1,3,4) by (auto simp: turn_def so_far_def stopping_def defiant_def)
qed

lemma turn_finish_restart:
  assumes "so_far q l m" "holds_lock q" "defiant m \<longrightarrow> from_direct q"
  shows "turn q l (finish_restart m)"
  using assms by (auto simp: turn_def so_far_def finish_restart_def stopping_def defiant_def)

lemma turn_after_start:
  assumes "so_far q l m" "holds_lock q = (c = InRestart)" "c = Direct \<longrightarrow> from_direct q"
  shows "turn q l (after_start c m)"
proof (cases c)
  case Direct
  then show ?thesis using assms by (auto simp: turn_def so_far_def after_start_def)
next
  case InRestart
  show ?thesis
  proof (cases "must_stay_stopped (sess m)")
    case True
    have "turn q l (enter_stop finish_restart ContUndo m)"
      by (intro turn_enter_stop turn_finish_restart) (use assms InRestart in \<open>auto simp: defiant_def\<close>)
    then show ?thesis by (simp add: after_start_def InRestart True)
  next
    case False
    have "turn q l (finish_restart m)"
      by (intro turn_finish_restart) (use assms InRestart False in \<open>auto simp: defiant_def\<close>)
    then show ?thesis by (simp add: after_start_def InRestart False)
  qed
qed

lemma turn_enter_start:
  assumes "so_far q l m" "holds_lock q = (c = InRestart)" "c = Direct \<longrightarrow> from_direct q"
  shows "turn q l (enter_start c m)"
proof (cases "state (sess m) = STARTED \<or> state (sess m) = STARTING")
  case True
  then show ?thesis using turn_after_start [OF assms] by (simp add: enter_start_def)
next
  case False
  then show ?thesis
    using assms by (cases c) (auto simp: enter_start_def turn_def so_far_def set_state_def stopping_def defiant_def session_ok_def)
qed

lemma turn_start_raised:
  assumes "so_far q l m" "holds_lock q = (c = InRestart)" "defiant m \<longrightarrow> from_direct q"
  shows "turn q l (start_raised c m)"
  using assms by (cases c) (auto simp: turn_def so_far_def start_raised_def stopping_def defiant_def)

text \<open>After a stop the session is stopped, or it was told before that it should be.\<close>

lemma turn_after_stop:
  assumes "so_far q l m" "held_after c = holds_lock q" "c = ContRaise Direct \<longrightarrow> from_direct q"
    "defiant m \<longrightarrow> from_direct q \<or> defiant l \<and> \<not> restarting q"
  shows "turn q l (after_stop c m)"
proof (cases c)
  case ContDone
  then show ?thesis using assms by (auto simp: turn_def so_far_def after_stop_def)
next
  case (ContRaise d)
  then show ?thesis
    using assms by (cases d) (auto simp: turn_def so_far_def after_stop_def start_raised_def stopping_def defiant_def)
next
  case ContRestart
  show ?thesis
  proof (cases "must_stay_stopped (sess m)")
    case True
    then show ?thesis
      using assms ContRestart by (auto simp: turn_def so_far_def after_stop_def finish_restart_def stopping_def defiant_def)
  next
    case False
    have "turn q l (enter_start InRestart m)"
      by (intro turn_enter_start) (use assms ContRestart in auto)
    then show ?thesis by (simp add: after_stop_def ContRestart False)
  qed
next
  case ContUndo
  then show ?thesis
    using assms by (auto simp: turn_def so_far_def after_stop_def finish_restart_def stopping_def defiant_def)
qed

lemma so_far_stopped:
  "so_far q l m \<or> threads m = threads l \<and> restart_lock m = restart_lock l \<and> sess m = sess l \<and>
     (holds_lock q \<longrightarrow> restart_lock l) \<Longrightarrow> so_far q l (set_state STOPPED m) \<and> \<not> defiant (set_state STOPPED m)"
  by (auto simp: so_far_def set_state_def stopping_def defiant_def session_ok_def)

lemma turn_finish_stop:
  assumes "threads m = threads l" "restart_lock m = restart_lock l" "sess m = sess l" "holds_lock q \<longrightarrow> restart_lock l"
    "held_after c = holds_lock q" "from_direct q = (c = ContRaise Direct)"
  shows "turn q l (finish_stop cfg c m)"
proof -
  have s: "so_far q l (set_state STOPPED m)" "\<not> defiant (set_state STOPPED m)" using so_far_stopped assms by blast+
  then show ?thesis
    using turn_after_stop [OF s(1), of c] assms
    by (auto simp: finish_stop_def Let_def turn_def so_far_def)
qed

lemma turn_wait_pending:
  assumes "threads m = threads l" "restart_lock m = restart_lock l" "sess m = sess l" "holds_lock q \<longrightarrow> restart_lock l"
    "held_after c = holds_lock q" "from_direct q = (c = ContRaise Direct)" "\<not> restarting q"
  shows "turn q l (wait_pending cfg c m)"
  using turn_finish_stop [OF assms(1-6)] assms
  by (auto simp: wait_pending_def turn_def stopping_def defiant_def)

lemma turn_start_finish:
  assumes "holds_lock q \<longrightarrow> restart_lock l" "holds_lock q = (c = InRestart)" "from_direct q = (c = Direct)"
  shows "turn q l (start_finish cfg c l)"
proof -
  let ?m = "l\<lparr>ping_task := Some (next_id l), next_id := next_id l + 1, sess := (sess l)\<lparr>state := STARTED, is_started := True\<rparr>\<rparr>"
  have s: "so_far q l ?m" using assms by (simp add: so_far_def stopping_def session_ok_def)
  show ?thesis
  proof (cases "connect_handler cfg")
    case True
    then show ?thesis using s assms by (cases c) (auto simp: start_finish_def turn_def so_far_def)
  next
    case False
    then show ?thesis using turn_after_start [OF s, of c] assms by (simp add: start_finish_def Let_def)
  qed
qed

lemma turn_start_fails:
  assumes "holds_lock q \<longrightarrow> restart_lock l" "holds_lock q = (c = InRestart)" "from_direct q = (c = Direct)" "\<not> in_stop q"
  shows "turn q l (after_start c l)" "turn q l (enter_stop_for_good (start_raised c) (ContRaise c) l)"
proof -
  have s: "so_far q l l" "so_far q l (l\<lparr>sess := (sess l)\<lparr>must_stay_stopped := True\<rparr>\<rparr>)"
    using assms by (auto simp: so_far_def stopping_def session_ok_def)
  show "turn q l (after_start c l)" using turn_after_start [OF s(1)] assms by simp
  show "turn q l (enter_stop_for_good (start_raised c) (ContRaise c) l)"
    unfolding enter_stop_for_good_def
    by (intro turn_enter_stop [OF s(2)] turn_start_raised [OF s(2)]) (use assms in \<open>auto simp: defiant_def\<close>)
qed

lemma turn_enter_restart:
  assumes "\<not> restart_lock l"
  shows "turn RestartLock l (enter_restart l)"
proof -
  define m where "m = l\<lparr>restart_lock := True, sess := (if stored_msg_ids (sess l) \<noteq> []
    then (sess l)\<lparr>recent_msg_ids := take 30 (stored_msg_ids (sess l))\<rparr> else sess l)\<rparr>"
  have e: "enter_restart l = enter_stop (after_stop ContRestart) ContRestart m"
    by (simp add: enter_restart_def m_def Let_def)
  have m: "threads m = threads l" "restart_lock m" "session_ok (sess l) \<longrightarrow> session_ok (sess m)"
    "state (sess m) = state (sess l)" "must_stay_stopped (sess m) = must_stay_stopped (sess l)"
    by (auto simp: m_def session_ok_def)
  show ?thesis
  proof (cases rule: enter_stop_cases [of "after_stop ContRestart" ContRestart m])
    case stopped
    then show ?thesis
      using assms m unfolding e
      by (auto simp: after_stop_def finish_restart_def enter_start_def set_state_def turn_def stopping_def
          defiant_def session_ok_def)
  next
    case (stops s p)
    then show ?thesis using assms m unfolding e by (auto simp: turn_def stopping_def defiant_def)
  qed
qed

lemma turn_goes_on:
  "threads m = threads l \<Longrightarrow> restart_lock m = restart_lock l \<Longrightarrow> sess m = sess l \<Longrightarrow>
   (holds_lock q \<longrightarrow> restart_lock l) \<Longrightarrow> holds_lock p = holds_lock q \<Longrightarrow> from_direct p = from_direct q \<Longrightarrow>
   in_stop p = in_stop q \<Longrightarrow> restarting p = restarting q \<Longrightarrow> turn q l (p, m)"
  by (auto simp: turn_def stopping_def defiant_def)

lemma turn_resume:
  assumes "resume cfg r q l = Some (x, ps)" "holds_lock q \<longrightarrow> restart_lock l"
  shows "turn q l x \<and> set ps \<subseteq> {RestartLock}"
proof (cases q)
  case (StopClose c n)
  have "turn q l (wait_pending cfg c (l\<lparr>open_links := open_links l - {n}\<rparr>))"
    by (rule turn_wait_pending) (use assms StopClose in auto)
  then show ?thesis
    using assms StopClose turn_goes_on [of _ l q "StopRecv c w" for w] by (cases "recv_task l") auto
next
  case (StopRecv c w)
  have "turn q l (wait_pending cfg c (l\<lparr>recv_task := None\<rparr>))"
    by (rule turn_wait_pending) (use assms StopRecv in auto)
  then show ?thesis using assms StopRecv by (auto split: if_splits)
next
  case (StopPending c)
  have "turn q l (finish_stop cfg c l)"
    by (rule turn_finish_stop) (use assms StopPending in auto)
  then show ?thesis using assms StopPending by (auto split: if_splits)
next
  case (StopHandler c)
  have "turn q l (after_stop c l)"
    by (rule turn_after_stop) (use assms StopHandler in \<open>auto simp: so_far_def\<close>)
  then show ?thesis using assms StopHandler by auto
next
  case (StartConnect c n)
  then show ?thesis
    using assms turn_start_fails [of q l c] turn_goes_on [of _ l q "StartPing c"] by (cases r) auto
next
  case (StartPing c)
  then show ?thesis
    using assms turn_start_fails [of q l c] turn_start_finish [of q l c cfg] turn_goes_on [of l l q "StartInit c"]
    by (cases r; cases "is_cdn cfg") auto
next
  case (StartInit c)
  then show ?thesis
    using assms turn_start_fails [of q l c] turn_start_finish [of q l c cfg] by (cases r) auto
next
  case (StartHandler c)
  then show ?thesis using assms turn_start_fails(1) [of q l c] by auto
next
  case RestartLock
  then show ?thesis using assms turn_enter_restart by (auto split: if_splits)
next
  case (StopPing c w)
  then show ?thesis
    using assms turn_goes_on [of _ l q "StopClose c (connection l)"] by (auto split: if_splits)
qed (use assms in auto)

section \<open>Invariants of every interleaving\<close>

definition locked_by :: "pc list \<Rightarrow> nat" where
  "locked_by ps = length (filter holds_lock ps)"

definition life_ok :: "'g life \<Rightarrow> bool" where
  "life_ok l \<longleftrightarrow> session_ok (sess l) \<and> locked_by (threads l) = (if restart_lock l then 1 else 0) \<and>
     (stopping l \<longrightarrow> (\<exists>p\<in>set (threads l). in_stop p))"

text \<open>As long as nobody calls \<open>start\<close>.\<close>

definition life_obeys :: "'g life \<Rightarrow> bool" where
  "life_obeys l \<longleftrightarrow> (\<forall>p\<in>set (threads l). \<not> from_direct p) \<and> (defiant l \<longrightarrow> (\<exists>p\<in>set (threads l). restarting p))"

lemma locked_by_simps [simp]:
  "locked_by [] = 0" "locked_by (p # ps) = (if holds_lock p then 1 else 0) + locked_by ps"
  "locked_by (ps @ qs) = locked_by ps + locked_by qs"
  by (simp_all add: locked_by_def)

lemma locked_by_update:
  "i < length ps \<Longrightarrow> locked_by (ps[i := p]) + (if holds_lock (ps ! i) then 1 else 0) = locked_by ps + (if holds_lock p then 1 else 0)"
proof (induction ps arbitrary: i)
  case (Cons a ps)
  then show ?case by (cases i) auto
qed simp

lemma locked_by_mem: "p \<in> set ps \<Longrightarrow> holds_lock p \<Longrightarrow> 0 < locked_by ps"
  by (induction ps) auto

lemma locked_by_waiters: "set ps \<subseteq> {RestartLock} \<Longrightarrow> locked_by ps = 0"
  by (induction ps) auto

lemma bex_update:
  assumes "i < length ps" "\<exists>x\<in>set ps. P x"
  shows "P p \<or> P (ps ! i) \<or> (\<exists>x\<in>set (ps[i := p]). P x)"
proof -
  obtain j where "j < length ps" "P (ps ! j)" using assms(2) by (auto simp: in_set_conv_nth)
  then show ?thesis using assms(1) by (cases "j = i") (force simp: in_set_conv_nth)+
qed

text \<open>A turn of coroutine \<open>i\<close>.\<close>

lemma life_ok_suspend:
  assumes l: "life_ok l" and i: "i < length (threads l)" and t: "turn (threads l ! i) l (p, l')" and ps: "set ps \<subseteq> {RestartLock}"
  shows "life_ok (suspend i ((p, l'), ps))"
proof -
  let ?q = "threads l ! i"
  have q: "?q \<in> set (threads l)" using i by simp
  have s: "sess (suspend i ((p, l'), ps)) = sess l'" "restart_lock (suspend i ((p, l'), ps)) = restart_lock l'"
    "threads (suspend i ((p, l'), ps)) = (threads l)[i := p] @ ps"
    using t by (simp_all add: suspend_def turn_def)
  have n: "locked_by ((threads l)[i := p] @ ps) + (if holds_lock ?q then 1 else 0) =
      (if restart_lock l then 1 else 0) + (if holds_lock p then 1 else 0)"
    using locked_by_update [OF i, of p] l locked_by_waiters [OF ps] by (simp add: life_ok_def)
  have lock: "holds_lock ?q \<Longrightarrow> restart_lock l"
    using locked_by_mem [OF q] l by (auto simp: life_ok_def split: if_splits)
  have "locked_by ((threads l)[i := p] @ ps) = (if restart_lock l' then 1 else 0)"
    using n lock t by (auto simp: turn_def split: if_splits)
  moreover have "stopping l' \<Longrightarrow> \<exists>x\<in>set ((threads l)[i := p] @ ps). in_stop x"
  proof -
    assume "stopping l'"
    then consider "in_stop p" | "stopping l" "\<not> in_stop ?q" using t by (auto simp: turn_def)
    then show ?thesis
    proof cases
      case 1
      then show ?thesis using i by (auto simp: set_update_memI)
    next
      case 2
      then show ?thesis using bex_update [OF i, of in_stop p] l set_update_memI [OF i, of p] by (auto simp: life_ok_def)
    qed
  qed
  ultimately show ?thesis using l t by (auto simp: life_ok_def s stopping_def turn_def)
qed

lemma life_obeys_suspend:
  assumes l: "life_obeys l" and i: "i < length (threads l)" and t: "turn (threads l ! i) l (p, l')" and ps: "set ps \<subseteq> {RestartLock}"
  shows "life_obeys (suspend i ((p, l'), ps))"
proof -
  let ?q = "threads l ! i"
  have d: "\<not> from_direct ?q" using l i by (simp add: life_obeys_def)
  have s: "sess (suspend i ((p, l'), ps)) = sess l'" "threads (suspend i ((p, l'), ps)) = (threads l)[i := p] @ ps"
    using t by (simp_all add: suspend_def turn_def)
  have "\<forall>x\<in>set ((threads l)[i := p] @ ps). \<not> from_direct x"
    using l d t ps by (auto simp: life_obeys_def turn_def dest!: set_update_subset_insert [THEN subsetD])
  moreover have "defiant l' \<Longrightarrow> \<exists>x\<in>set ((threads l)[i := p] @ ps). restarting x"
  proof -
    assume "defiant l'"
    then consider "restarting p" | "defiant l" "\<not> restarting ?q" using t d by (auto simp: turn_def)
    then show ?thesis
    proof cases
      case 1
      then show ?thesis using i by (auto simp: set_update_memI)
    next
      case 2
      then show ?thesis
        using bex_update [OF i, of restarting p] l set_update_memI [OF i, of p] by (auto simp: life_obeys_def)
    qed
  qed
  ultimately show ?thesis by (auto simp: life_obeys_def s defiant_def)
qed

text \<open>A call is a turn of a coroutine that is added, one that holds nothing.\<close>

lemma spawn_suspend: "threads (snd r) = threads l \<Longrightarrow>
  spawn r = suspend (length (threads l)) ((fst r, (snd r)\<lparr>threads := threads l @ [q]\<rparr>), [])"
  by (cases r) (simp add: spawn_def suspend_def list_update_append)

lemma turn_spawn:
  assumes t: "turn q l r" and q: "\<not> holds_lock q" "\<not> in_stop q" "\<not> restarting q"
  shows "life_ok l \<Longrightarrow> life_ok (spawn r)" "life_obeys l \<Longrightarrow> \<not> from_direct q \<Longrightarrow> life_obeys (spawn r)"
proof -
  obtain p l' where r: "r = (p, l')" by fastforce
  let ?l = "l\<lparr>threads := threads l @ [q]\<rparr>" and ?l' = "l'\<lparr>threads := threads l @ [q]\<rparr>"
  have e: "spawn r = suspend (length (threads l)) ((p, ?l'), [])"
    using spawn_suspend [of r l q] t r by (simp add: turn_def)
  have i: "length (threads l) < length (threads ?l)" by simp
  have t': "turn (threads ?l ! length (threads l)) ?l (p, ?l')"
    using t r by (simp add: turn_def stopping_def defiant_def)
  show "life_ok (spawn r)" if "life_ok l"
    unfolding e by (rule life_ok_suspend [OF _ i t']) (use that q in \<open>auto simp: life_ok_def stopping_def\<close>)
  show "life_obeys (spawn r)" if "life_obeys l" "\<not> from_direct q"
    unfolding e by (rule life_obeys_suspend [OF _ i t']) (use that q in \<open>auto simp: life_obeys_def defiant_def\<close>)
qed

lemma turn_call_start: "turn (StartConnect Direct 0) l (enter_start Direct l)"
  by (rule turn_enter_start) (simp_all add: so_far_def)

lemma turn_call_stop: "turn Finished l (enter_stop_for_good (after_stop ContDone) ContDone l)"
proof -
  let ?m = "l\<lparr>sess := (sess l)\<lparr>must_stay_stopped := True\<rparr>\<rparr>"
  have s: "so_far Finished l ?m" by (simp add: so_far_def session_ok_def stopping_def)
  show ?thesis
    unfolding enter_stop_for_good_def
    by (intro turn_enter_stop [OF s] turn_after_stop [OF s]) (auto simp: defiant_def)
qed

lemma turn_call_restart: "turn Finished l (RestartLock, l)"
  by (simp add: turn_def)

lemma resume_turn:
  assumes "life_ok l" "i < length (threads l)" "resume cfg r (threads l ! i) l = Some (x, ps)"
  shows "turn (threads l ! i) l x" "set ps \<subseteq> {RestartLock}"
proof -
  have "holds_lock (threads l ! i) \<longrightarrow> restart_lock l"
    using locked_by_mem [of "threads l ! i" "threads l"] assms(1,2) by (auto simp: life_ok_def split: if_splits)
  from turn_resume [OF assms(3) this] show "turn (threads l ! i) l x" "set ps \<subseteq> {RestartLock}" by auto
qed

lemma life_step_ok:
  assumes "life_step cfg direct l l'" "life_ok l"
  shows "life_ok l' \<and> (\<not> direct \<longrightarrow> life_obeys l \<longrightarrow> life_obeys l')"
  using assms
proof (induction rule: life_step.induct)
  case (call_start l)
  have "life_ok (spawn (enter_start Direct l))"
    using turn_spawn(1) [OF turn_call_start] call_start by simp
  then show ?case using call_start by simp
next
  case (call_stop l)
  then show ?case using turn_spawn [OF turn_call_stop [of l]] by simp
next
  case (call_restart l)
  then show ?case using turn_spawn [OF turn_call_restart [of l]] by simp
next
  case (resume i l r res)
  obtain p m ps where res: "res = ((p, m), ps)" by (metis surj_pair)
  note t = resume_turn [OF resume.prems resume.hyps(1) resume.hyps(2) [unfolded res]]
  show ?case
    using life_ok_suspend [OF resume.prems resume.hyps(1) t] life_obeys_suspend [OF _ resume.hyps(1) t] by (simp add: res)
next
  case (handle l s)
  then show ?case
    using handler_keeps [OF handle.hyps] by (auto simp: life_ok_def life_obeys_def core_def stopping_def defiant_def)
qed (auto simp: life_ok_def life_obeys_def stopping_def defiant_def)

lemma life_reachable_ok:
  assumes "life_reachable cfg direct l0 l" "life_ok l0"
  shows "life_ok l \<and> (\<not> direct \<longrightarrow> life_obeys l0 \<longrightarrow> life_obeys l)"
  using assms by (induction rule: life_reachable.induct) (use life_step_ok in blast)+

lemma life_ok_init: "life_ok Life_init"
  using session_ok_init by (simp add: life_ok_def Life_init_def stopping_def Session_init_def)

end
