(* ===== verification/Session_Outcome.thy ===== *)
theory Session_Outcome
  imports Session_Life
begin

text \<open>
  How the life of a session ends: every coroutine takes a bounded number of turns and some
  coroutine can always go on, a stop is final, and two schedules, run by the executable
  \<open>play\<close>, that show what it is not.
\<close>

section \<open>Progress\<close>

text \<open>The turns a coroutine has left at most.\<close>

fun turns_after :: "stop_cont \<Rightarrow> nat" where
  "turns_after ContRestart = 9"
| "turns_after c = 0"

fun turns_left :: "pc \<Rightarrow> nat" where
  "turns_left (StopPing c w) = turns_after c + 5"
| "turns_left (StopClose c n) = turns_after c + 4"
| "turns_left (StopRecv c w) = turns_after c + 3"
| "turns_left (StopPending c) = turns_after c + 2"
| "turns_left (StopHandler c) = turns_after c + 1"
| "turns_left (StartConnect c n) = 9"
| "turns_left (StartPing c) = 8"
| "turns_left (StartInit c) = 7"
| "turns_left (StartHandler c) = 6"
| "turns_left RestartLock = 15"
| "turns_left p = 0"

lemma turns_bound: "turns_left p \<le> 15"
proof -
  have b: "turns_after c \<le> 9" for c by (cases c) simp_all
  show ?thesis by (cases p) (simp_all add: order.trans [OF b])
qed

lemma turns_enter_stop: "turns_left (fst (k l)) \<le> turns_after c + 5 \<Longrightarrow> turns_left (fst (enter_stop k c l)) \<le> turns_after c + 5"
  by (auto simp: enter_stop_def Let_def split: prod.splits bool.splits option.splits)

lemma turns_finish_restart [simp]: "turns_left (fst (finish_restart l)) = 0"
  by (simp add: finish_restart_def)

lemma turns_after_start: "turns_left (fst (after_start c l)) \<le> 5"
  using turns_enter_stop [of finish_restart l ContUndo] by (cases c) (simp_all add: after_start_def)

lemma turns_start_fails: "turns_left (fst (enter_stop_for_good (start_raised c) (ContRaise d) l)) \<le> 5"
proof -
  have "turns_left (fst (start_raised c m)) = 0" for m :: "'a life" by (simp add: start_raised_def)
  then show ?thesis
    unfolding enter_stop_for_good_def by (intro order.trans [OF turns_enter_stop]) simp_all
qed

lemma turns_after_stop: "turns_left (fst (after_stop c l)) \<le> turns_after c"
  using turns_after_start [of InRestart l]
  by (cases c) (auto simp: after_stop_def start_raised_def enter_start_def)

lemma turns_finish_stop: "turns_left (fst (finish_stop cfg c l)) \<le> turns_after c + 1"
  using turns_after_stop [of c "set_state STOPPED l"] by (simp add: finish_stop_def Let_def)

lemma turns_wait_pending: "turns_left (fst (wait_pending cfg c l)) \<le> turns_after c + 2"
  using turns_finish_stop [of cfg c l] by (simp add: wait_pending_def)

lemma turns_start_finish: "turns_left (fst (start_finish cfg c l)) \<le> 6"
  by (auto simp: start_finish_def Let_def intro: order.trans [OF turns_after_start])

lemma turns_enter_restart:
  fixes l :: "'a life"
  shows "turns_left (fst (enter_restart l)) \<le> 14"
proof -
  have "turns_left (fst (enter_stop (after_stop ContRestart) ContRestart m)) \<le> 14" for m :: "'a life"
    using turns_enter_stop [of "after_stop ContRestart" m ContRestart] turns_after_stop [of ContRestart m] by simp
  then show ?thesis by (simp add: enter_restart_def Let_def)
qed

lemma resume_turns: "resume cfg r q l = Some (x, ps) \<Longrightarrow> turns_left (fst x) < turns_left q"
proof (induction cfg r q l rule: resume.induct)
  case (2 cfg r c n l)
  then show ?case
    using turns_wait_pending [of cfg c "l\<lparr>open_links := open_links l - {n}\<rparr>"]
    by (auto simp: Let_def split: option.splits)
next
  case (3 cfg r c w l)
  then show ?case
    using turns_wait_pending [of cfg c "l\<lparr>recv_task := None\<rparr>"] by (auto split: if_splits)
next
  case (4 cfg r c l)
  then show ?case using turns_finish_stop [of cfg c l] by (auto split: if_splits)
next
  case (5 cfg r c l)
  then show ?case using turns_after_stop [of c l] by auto
next
  case (6 cfg r c n l)
  then show ?case
    using turns_after_start [of c l] turns_start_fails [of c c l] by (cases r) auto
next
  case (7 cfg r c l)
  then show ?case
    using turns_after_start [of c l] turns_start_fails [of c c l] turns_start_finish [of cfg c l]
    by (cases r; cases "is_cdn cfg") auto
next
  case (8 cfg r c l)
  then show ?case
    using turns_after_start [of c l] turns_start_fails [of c c l] turns_start_finish [of cfg c l] by (cases r) auto
next
  case (9 cfg r c l)
  then show ?case using turns_after_start [of c l] by auto
next
  case (10 cfg r l)
  then show ?case using turns_enter_restart [of l] by (auto split: if_splits)
qed (auto split: if_splits)

lemma goes_on: "p \<noteq> RestartLock \<or> \<not> restart_lock l \<Longrightarrow> p \<notin> {Finished, RaisedError} \<Longrightarrow>
  \<exists>res. resume cfg r p (l\<lparr>ended := UNIV, pending := 0\<rparr>) = Some res"
  by (cases p; cases r) (auto simp: Let_def split: option.splits)

lemma holder_unfinished: "holds_lock p \<Longrightarrow> p \<notin> {Finished, RaisedError, RestartLock}"
  by (cases p) auto

lemma some_coroutine_goes_on:
  assumes ok: "life_ok l" and p: "p \<in> set (threads l)" "p \<notin> {Finished, RaisedError}"
  shows "\<exists>i res. i < length (threads l) \<and> resume cfg r (threads l ! i) (l\<lparr>ended := UNIV, pending := 0\<rparr>) = Some res"
proof -
  have "\<exists>q\<in>set (threads l). \<exists>res. resume cfg r q (l\<lparr>ended := UNIV, pending := 0\<rparr>) = Some res"
  proof (cases "p = RestartLock \<and> restart_lock l")
    case True
    then have "filter holds_lock (threads l) \<noteq> []" using ok by (auto simp: life_ok_def locked_by_def)
    then obtain q where q: "q \<in> set (threads l)" "holds_lock q" by (auto simp: filter_empty_conv)
    then show ?thesis using goes_on [of q l] holder_unfinished by blast
  next
    case False
    then show ?thesis using goes_on [of p l] p by blast
  qed
  then show ?thesis by (metis in_set_conv_nth)
qed

section \<open>Schedules\<close>

text \<open>A schedule is a list of the steps to take; \<open>play\<close> runs one.\<close>

datatype event =
    CallStart
  | CallStop
  | CallRestart
  | GoOn nat wait_result
  | WorkerEnds nat
  | TasksChange nat

fun play_event :: "life_config \<Rightarrow> event \<Rightarrow> 'g life \<Rightarrow> 'g life option" where
  "play_event cfg CallStart l = Some (spawn (enter_start Direct l))"
| "play_event cfg CallStop l = Some (spawn (enter_stop_for_good (after_stop ContDone) ContDone l))"
| "play_event cfg CallRestart l = Some (spawn (RestartLock, l))"
| "play_event cfg (GoOn i r) l =
     (if i < length (threads l) then map_option (suspend i) (resume cfg r (threads l ! i) l) else None)"
| "play_event cfg (WorkerEnds w) l = Some (l\<lparr>ended := insert w (ended l)\<rparr>)"
| "play_event cfg (TasksChange n) l = Some (l\<lparr>pending := n\<rparr>)"

fun play :: "life_config \<Rightarrow> event list \<Rightarrow> 'g life \<Rightarrow> 'g life option" where
  "play cfg [] l = Some l"
| "play cfg (e # es) l = Option.bind (play_event cfg e l) (play cfg es)"

lemma play_event_step: "play_event cfg e l = Some l' \<Longrightarrow> e \<noteq> CallStart \<or> direct \<Longrightarrow> life_step cfg direct l l'"
  by (cases e) (auto intro: life_step.intros split: if_splits)

lemma life_reachable_trans:
  "life_reachable cfg direct l1 l2 \<Longrightarrow> life_reachable cfg direct l0 l1 \<Longrightarrow> life_reachable cfg direct l0 l2"
  by (induction rule: life_reachable.induct) (auto intro: life_reachable.step)

lemma play_reachable: "play cfg es l = Some l' \<Longrightarrow> CallStart \<notin> set es \<or> direct \<Longrightarrow> life_reachable cfg direct l l'"
proof (induction es arbitrary: l)
  case Nil
  then show ?case by (simp add: life_reachable.init)
next
  case (Cons e es)
  then obtain l1 where l1: "play_event cfg e l = Some l1" "play cfg es l1 = Some l'"
    by (auto split: Option.bind_splits)
  have "life_reachable cfg direct l1 l'" using Cons l1(2) by auto
  then show ?case
    using play_event_step [OF l1(1)] Cons.prems(2) life_reachable.step [OF life_reachable.init]
      life_reachable_trans by fastforce
qed

text \<open>A session that is up, on connection 0, with its two workers.\<close>

definition Life_started :: "'g life" where
  "Life_started = Life_init\<lparr>sess := Session_init\<lparr>state := STARTED, is_started := True\<rparr>, open_links := {0},
     recv_task := Some 1, ping_task := Some 2, next_id := 3\<rparr>"

definition plain_config :: life_config where
  "plain_config = \<lparr>is_cdn = False, connect_handler = False, disconnect_handler = False\<rparr>"

text \<open>A stop while a restart is dialling, and the ping after it that is not answered.\<close>

definition dialling_race :: "event list" where
  "dialling_race = [CallRestart, GoOn 0 WaitOk, WorkerEnds 2, GoOn 0 WaitOk, GoOn 0 WaitOk, WorkerEnds 1,
     GoOn 0 WaitOk, CallStop, GoOn 1 WaitOk, GoOn 0 WaitOk, GoOn 0 WaitOSError, GoOn 2 WaitOk]"

definition start_race :: "event list" where
  "start_race = [CallStart, CallStop, GoOn 1 WaitOk, GoOn 0 WaitOk, GoOn 0 WaitOk, GoOn 0 WaitOk]"

lemma life_ok_started: "life_ok Life_started" "life_obeys Life_started"
  by (auto simp: life_ok_def life_obeys_def Life_started_def Life_init_def stopping_def defiant_def Session_init_def
      session_ok_def stored_ok_def factory_ok_init)

lemmas play_simps = Life_started_def Life_init_def Session_init_def plain_config_def spawn_def suspend_def
  enter_stop_for_good_def enter_stop_def stop_begin_def after_stop_def enter_start_def after_start_def finish_restart_def
  finish_stop_def wait_pending_def start_finish_def enter_restart_def set_state_def start_raised_def Let_def

lemma dialling_race_result:
  "\<exists>l. must_stay_stopped (sess l) \<and> play plain_config dialling_race (Life_started :: 'g life) = Some l \<and> state (sess l) = STOPPED \<and>
     open_links l = {3} \<and> recv_task l = Some 4 \<and> 4 \<notin> ended l \<and> set (threads l) = {Finished}"
  by (simp add: play_simps dialling_race_def)

lemma start_race_result:
  "\<exists>l. play plain_config start_race (Life_init :: 'g life) = Some l \<and> must_stay_stopped (sess l) \<and>
     state (sess l) = STARTED \<and> open_links l = {1} \<and> set (threads l) = {Finished}"
  by (simp add: play_simps start_race_def)


section \<open>Properties\<close>

text \<open>
  C11. In every state that any interleaving of \<open>start\<close>, \<open>stop\<close>, \<open>restart\<close>, the workers and
  the handlers can reach, the tables of the session are well formed, the lock of \<open>restart\<close>
  has exactly one holder when it is taken and none when it is free, and a session that is
  \<open>STOPPING\<close> has a coroutine inside \<open>_stop\<close> that will end this state.
\<close>

theorem lifecycle_invariant:
  assumes "life_reachable cfg direct Life_init l"
  shows "session_ok (sess l) \<and> length (filter holds_lock (threads l)) = (if restart_lock l then 1 else 0) \<and>
    (state (sess l) = STOPPING \<longrightarrow> (\<exists>p\<in>set (threads l). in_stop p))"
  using life_reachable_ok [OF assms life_ok_init] by (auto simp: life_ok_def locked_by_def stopping_def)

lemma lifecycle_invariant_witness:
  "\<exists>l :: nat life. play plain_config start_race Life_init = Some l \<and> session_ok (sess l)"
proof -
  obtain l :: "nat life" where l: "play plain_config start_race Life_init = Some l"
    using start_race_result by blast
  then show ?thesis
    using lifecycle_invariant [OF play_reachable [OF l, where direct = True]] by blast
qed

text \<open>
  C10. A stop is final: when nobody calls \<open>start\<close> itself, then however a call of \<open>stop\<close>
  interleaves with restarts, with the failures of their dialling and with the handlers, once
  all coroutines have returned the session is \<open>STOPPED\<close>.
\<close>

theorem stop_wins:
  assumes "session_ok (sess l0)" "threads l0 = []" "\<not> restart_lock l0"
    "state (sess l0) \<noteq> STOPPING" "\<not> must_stay_stopped (sess l0)"
    and "life_reachable cfg False l0 l" "must_stay_stopped (sess l)" "set (threads l) \<subseteq> {Finished, RaisedError}"
  shows "state (sess l) = STOPPED"
proof -
  have "life_ok l0" "life_obeys l0" using assms(1-5) by (simp_all add: life_ok_def life_obeys_def stopping_def defiant_def)
  with life_reachable_ok [OF assms(6)] have l: "life_ok l" "life_obeys l" by blast+
  have "\<not> in_stop p \<and> \<not> restarting p" if "p \<in> set (threads l)" for p using that assms(8) by auto
  then have "\<not> stopping l" "\<not> defiant l" using l by (auto simp: life_ok_def life_obeys_def)
  then show ?thesis using assms(7) by (cases "state (sess l)") (auto simp: stopping_def defiant_def)
qed

lemma stop_wins_witness:
  "\<exists>l :: nat life. play plain_config dialling_race Life_started = Some l \<and> state (sess l) = STOPPED"
proof -
  obtain l :: "nat life" where l: "play plain_config dialling_race Life_started = Some l" "must_stay_stopped (sess l)"
      "set (threads l) = {Finished}"
    using dialling_race_result by blast
  have r: "life_reachable plain_config False Life_started l"
    by (rule play_reachable [OF l(1)]) (simp add: dialling_race_def)
  have "state (sess l) = STOPPED"
    by (rule stop_wins [OF _ _ _ _ _ r l(2)])
      (use life_ok_started l(3) in \<open>auto simp: life_ok_def Life_started_def Life_init_def Session_init_def\<close>)
  then show ?thesis using l(1) by blast
qed



text \<open>
  What the flag \<open>_must_stay_stopped\<close> does not cover.  A stop while a restart is
  dialling, whose ping then fails: the session is \<open>STOPPED\<close> for good and every coroutine has
  returned, but the new connection is still open and its worker still runs.  A stop while a
  direct \<open>start\<close> is dialling: the session ends up \<open>STARTED\<close>.
\<close>

lemma stop_races:
  "(\<exists>l :: 'g life. life_reachable plain_config False Life_started l \<and> must_stay_stopped (sess l) \<and>
     state (sess l) = STOPPED \<and> set (threads l) = {Finished} \<and> open_links l = {3} \<and> recv_task l = Some 4 \<and> 4 \<notin> ended l) \<and>
   (\<exists>l :: 'g life. life_reachable plain_config True Life_init l \<and> must_stay_stopped (sess l) \<and>
     state (sess l) = STARTED \<and> set (threads l) = {Finished} \<and> open_links l = {1})"
proof
  show "\<exists>l :: 'g life. life_reachable plain_config False Life_started l \<and> must_stay_stopped (sess l) \<and>
     state (sess l) = STOPPED \<and> set (threads l) = {Finished} \<and> open_links l = {3} \<and> recv_task l = Some 4 \<and> 4 \<notin> ended l"
  proof -
    obtain l :: "'g life" where l: "play plain_config dialling_race Life_started = Some l" and p: "must_stay_stopped (sess l)"
      "state (sess l) = STOPPED" "open_links l = {3}" "recv_task l = Some 4" "4 \<notin> ended l" "set (threads l) = {Finished}"
      using dialling_race_result by blast
    have "life_reachable plain_config False Life_started l"
      by (rule play_reachable [OF l]) (simp add: dialling_race_def)
    then show ?thesis using p by blast
  qed
  show "\<exists>l :: 'g life. life_reachable plain_config True Life_init l \<and> must_stay_stopped (sess l) \<and>
     state (sess l) = STARTED \<and> set (threads l) = {Finished} \<and> open_links l = {1}"
  proof -
    obtain l :: "'g life" where l: "play plain_config start_race Life_init = Some l" and p: "must_stay_stopped (sess l)"
      "state (sess l) = STARTED" "open_links l = {1}" "set (threads l) = {Finished}"
      using start_race_result by blast
    have "life_reachable plain_config True Life_init l" by (rule play_reachable [OF l]) simp
    then show ?thesis using p by blast
  qed
qed

end
