(* ===== verification/Dispatcher.thy ===== *)
theory Dispatcher
  imports Prelude "HOL-Library.Sublist" "HOL-Library.Multiset"
begin

text \<open>
  \<open>kurigram/pyrogram/dispatcher.py\<close> with \<open>handlers/handler.py\<close>, \<open>handlers/error_handler.py\<close> and
  the combinators of \<open>filters.py\<close>: the registration of handlers in groups, the dispatch of one
  update to them, and the workers that drain the queue of updates.

  Filters, callbacks and parsers are the user's code or generated: functions on the state,
  which they may change, by registering handlers for instance.  The dictionary of groups is
  the list of its items in their order; its lists are copied before they are changed, so a
  value of it stays what it is while it is iterated over.
\<close>

section \<open>Handlers and filters\<close>

datatype flt =
    CustomFilter nat
  | InvertFilter flt
  | AndFilter flt flt
  | OrFilter flt flt

text \<open>The class of a handler: \<open>ErrorHandler\<close> with its exception classes,
  \<open>RawUpdateHandler\<close>, or the class for one type of parsed updates.\<close>

datatype handler_class = ErrorHandler "nat list" | RawUpdateHandler | UpdateHandler nat

record handler =
  ident :: nat
  handler_class :: handler_class
  filters :: "flt option"

record dispatcher =
  groups :: "(int \<times> handler list) list"

text \<open>How a callback ends; an exception has a class.\<close>

datatype outcome = Returned | StopPropagation | ContinuePropagation | Raised nat

text \<open>What a callback or filter is called with.\<close>

datatype ('p, 'u) arg = Parsed 'p | Raw 'u

text \<open>The code that is not in the repository.  A parser gives the parsed update with the
  class of its handlers, \<open>None\<close> for \<open>NoneType\<close>; the outer \<open>None\<close> is an exception, and so is
  that of a filter.\<close>

record ('p, 'u, 's) user_code =
  custom :: "nat \<Rightarrow> ('p, 'u) arg \<Rightarrow> 's \<Rightarrow> bool option \<times> 's"
  callback :: "nat \<Rightarrow> ('p, 'u) arg \<Rightarrow> 's \<Rightarrow> outcome \<times> 's"
  error_callback :: "nat \<Rightarrow> nat \<Rightarrow> handler \<Rightarrow> 'u \<Rightarrow> 's \<Rightarrow> outcome \<times> 's"
  parser :: "'u \<Rightarrow> 's \<Rightarrow> ('p \<times> nat option) option \<times> 's"
  is_subclass :: "nat \<Rightarrow> nat \<Rightarrow> bool"

fun resolve_filter :: "('p, 'u, 's) user_code \<Rightarrow> flt \<Rightarrow> ('p, 'u) arg \<Rightarrow> 's \<Rightarrow> bool option \<times> 's" where
  "resolve_filter env (CustomFilter i) a s = custom env i a s"
| "resolve_filter env (InvertFilter f) a s =
     (case resolve_filter env f a s of (r, s1) \<Rightarrow> (map_option Not r, s1))"
| "resolve_filter env (AndFilter f g) a s =
     (case resolve_filter env f a s of
        (Some True, s1) \<Rightarrow> resolve_filter env g a s1
      | (r, s1) \<Rightarrow> (r, s1))"
| "resolve_filter env (OrFilter f g) a s =
     (case resolve_filter env f a s of
        (Some False, s1) \<Rightarrow> resolve_filter env g a s1
      | (r, s1) \<Rightarrow> (r, s1))"

definition check :: "('p, 'u, 's) user_code \<Rightarrow> handler \<Rightarrow> ('p, 'u) arg \<Rightarrow> 's \<Rightarrow> bool option \<times> 's" where
  "check env h a s = (case filters h of None \<Rightarrow> (Some True, s) | Some f \<Rightarrow> resolve_filter env f a s)"

section \<open>Registration\<close>

fun append_handler :: "int \<Rightarrow> handler \<Rightarrow> (int \<times> handler list) list \<Rightarrow> (int \<times> handler list) list" where
  "append_handler n h [] = [(n, [h])]"
| "append_handler n h ((m, hs) # gs) = (if m = n then (m, hs @ [h]) # gs else (m, hs) # append_handler n h gs)"

definition add_handler :: "handler \<Rightarrow> int \<Rightarrow> 'a dispatcher_scheme \<Rightarrow> 'a dispatcher_scheme" where
  "add_handler h n d = d\<lparr>groups := sort_key fst (append_handler n h (groups d))\<rparr>"

fun delete_handler :: "int \<Rightarrow> handler \<Rightarrow> (int \<times> handler list) list \<Rightarrow> (int \<times> handler list) list" where
  "delete_handler n h [] = []"
| "delete_handler n h ((m, hs) # gs) =
     (if m = n then (if remove1 h hs = [] then gs else (m, remove1 h hs) # gs) else (m, hs) # delete_handler n h gs)"

definition remove_handler :: "handler \<Rightarrow> int \<Rightarrow> 'a dispatcher_scheme \<Rightarrow> 'a dispatcher_scheme res" where
  "remove_handler h n d =
     (case map_of (groups d) n of
        None \<Rightarrow> Inl ValueError
      | Some hs \<Rightarrow> if h \<notin> set hs then Inl ValueError else Inr (d\<lparr>groups := delete_handler n h (groups d)\<rparr>))"

section \<open>Dispatch\<close>

text \<open>\<open>handle_update_handler_exception\<close>: whether a group has handled the exception, and
  whether the others still get it.\<close>

fun error_group :: "('p, 'u, 's) user_code \<Rightarrow> nat \<Rightarrow> handler \<Rightarrow> 'u \<Rightarrow> handler list \<Rightarrow> 's \<Rightarrow> bool \<times> bool \<times> 's" where
  "error_group env exc uh update [] s = (False, True, s)"
| "error_group env exc uh update (h # hs) s =
     (case handler_class h of
        ErrorHandler cs \<Rightarrow>
          if \<not> list_ex (is_subclass env exc) cs then error_group env exc uh update hs s
          else (case error_callback env (ident h) exc uh update s of
                  (StopPropagation, s1) \<Rightarrow> (True, False, s1)
                | (ContinuePropagation, s1) \<Rightarrow>
                    (case error_group env exc uh update hs s1 of (_, go, s2) \<Rightarrow> (True, go, s2))
                | (Raised _, s1) \<Rightarrow> (False, True, s1)
                | (Returned, s1) \<Rightarrow> (True, True, s1))
      | _ \<Rightarrow> error_group env exc uh update hs s)"

fun error_groups :: "('p, 'u, 's) user_code \<Rightarrow> nat \<Rightarrow> handler \<Rightarrow> 'u \<Rightarrow> handler list list \<Rightarrow> 's \<Rightarrow> bool \<times> 's" where
  "error_groups env exc uh update [] s = (False, s)"
| "error_groups env exc uh update (g # gs) s =
     (case error_group env exc uh update g s of
        (handled, go, s1) \<Rightarrow>
          if go then (case error_groups env exc uh update gs s1 of (h, s2) \<Rightarrow> (handled \<or> h, s2)) else (handled, s1))"

definition handle_update_handler_exception ::
    "('p, 'u, 'a dispatcher_scheme) user_code \<Rightarrow> nat \<Rightarrow> handler \<Rightarrow> 'u \<Rightarrow> 'a dispatcher_scheme \<Rightarrow> bool \<times> 'a dispatcher_scheme" where
  "handle_update_handler_exception env exc uh update s = error_groups env exc uh update (map snd (groups s)) s"

text \<open>What a handler is checked and called with, if at all.\<close>

definition chosen_arg :: "'p \<Rightarrow> nat option \<Rightarrow> 'u \<Rightarrow> handler \<Rightarrow> ('p, 'u) arg option" where
  "chosen_arg p handler_type update h =
     (case handler_class h of
        ErrorHandler _ \<Rightarrow> None
      | UpdateHandler t \<Rightarrow> if handler_type = Some t then Some (Parsed p) else None
      | RawUpdateHandler \<Rightarrow> Some (Raw update))"

text \<open>One group: whether the other groups follow, and the callbacks that ran with their
  outcomes.\<close>

fun run_group ::
    "('p, 'u, 'a dispatcher_scheme) user_code \<Rightarrow> 'p \<Rightarrow> nat option \<Rightarrow> 'u \<Rightarrow> handler list \<Rightarrow> 'a dispatcher_scheme \<Rightarrow>
     bool \<times> (handler \<times> outcome) list \<times> 'a dispatcher_scheme" where
  "run_group env p ht update [] s = (True, [], s)"
| "run_group env p ht update (h # hs) s =
     (case chosen_arg p ht update h of
        None \<Rightarrow> run_group env p ht update hs s
      | Some a \<Rightarrow>
          (case check env h a s of
             (Some True, s1) \<Rightarrow>
               (case callback env (ident h) a s1 of
                  (StopPropagation, s2) \<Rightarrow> (False, [(h, StopPropagation)], s2)
                | (ContinuePropagation, s2) \<Rightarrow>
                    (case run_group env p ht update hs s2 of (go, rs, s3) \<Rightarrow> (go, (h, ContinuePropagation) # rs, s3))
                | (Raised e, s2) \<Rightarrow> (True, [(h, Raised e)], snd (handle_update_handler_exception env e h update s2))
                | (Returned, s2) \<Rightarrow> (True, [(h, Returned)], s2))
           | (_, s1) \<Rightarrow> run_group env p ht update hs s1))"

fun run_groups ::
    "('p, 'u, 'a dispatcher_scheme) user_code \<Rightarrow> 'p \<Rightarrow> nat option \<Rightarrow> 'u \<Rightarrow> handler list list \<Rightarrow> 'a dispatcher_scheme \<Rightarrow>
     (handler \<times> outcome) list \<times> 'a dispatcher_scheme" where
  "run_groups env p ht update [] s = ([], s)"
| "run_groups env p ht update (g # gs) s =
     (case run_group env p ht update g s of
        (True, rs, s1) \<Rightarrow> (case run_groups env p ht update gs s1 of (rs2, s2) \<Rightarrow> (rs @ rs2, s2))
      | (False, rs, s1) \<Rightarrow> (rs, s1))"

text \<open>The body of the loop of \<open>handler_worker\<close>.\<close>

definition dispatch ::
    "('p, 'u, 'a dispatcher_scheme) user_code \<Rightarrow> 'u \<Rightarrow> 'a dispatcher_scheme \<Rightarrow> (handler \<times> outcome) list \<times> 'a dispatcher_scheme" where
  "dispatch env update s =
     (case parser env update s of
        (None, s1) \<Rightarrow> ([], s1)
      | (Some (p, ht), s1) \<Rightarrow> run_groups env p ht update (map snd (groups s1)) s1)"

section \<open>Queue and workers\<close>

text \<open>The queue with its sentinels, the workers with what they work on, and the phase of the
  client's life.  \<open>accepted\<close>, \<open>taken\<close> and \<open>finished\<close> record what has happened since the last
  start.\<close>

datatype 'u worker = Idle | Busy 'u | Gone
datatype phase = Stopped | Opening | Running | Stopping

record 'u queue_state =
  phase :: phase
  accepting_updates :: bool
  updates_queue :: "'u option list"
  workers :: "'u worker list"
  accepted :: "'u list"
  taken :: "'u list"
  finished :: "'u list"

definition Queue_init :: "'u queue_state" where
  "Queue_init = \<lparr>phase = Stopped, accepting_updates = False, updates_queue = [], workers = [], accepted = [],
     taken = [], finished = []\<rparr>"

definition enqueue :: "'u \<Rightarrow> 'u queue_state \<Rightarrow> 'u queue_state" where
  "enqueue u q =
     (if \<not> accepting_updates q then q
      else q\<lparr>updates_queue := updates_queue q @ [Some u], accepted := accepted q @ [u]\<rparr>)"

text \<open>\<open>start\<close>, before and after the call of \<open>start_handler\<close>; \<open>n\<close> is \<open>client.workers\<close>.\<close>

definition start_open :: "'u queue_state \<Rightarrow> 'u queue_state" where
  "start_open q = q\<lparr>phase := Opening, updates_queue := [], accepting_updates := True, accepted := [], taken := [], finished := []\<rparr>"

definition start_workers :: "nat \<Rightarrow> 'u queue_state \<Rightarrow> 'u queue_state" where
  "start_workers n q = q\<lparr>phase := Running, workers := workers q @ replicate n Idle\<rparr>"

text \<open>\<open>stop\<close>, up to its wait for the workers and after it.\<close>

definition stop_close :: "nat \<Rightarrow> 'u queue_state \<Rightarrow> 'u queue_state" where
  "stop_close n q = q\<lparr>phase := Stopping, accepting_updates := False, updates_queue := updates_queue q @ replicate n None\<rparr>"

definition stop_end :: "'u queue_state \<Rightarrow> 'u queue_state" where
  "stop_end q = q\<lparr>phase := Stopped, workers := []\<rparr>"

text \<open>A worker takes from the queue, and ends its work on an update.\<close>

definition worker_take :: "nat \<Rightarrow> 'u queue_state \<Rightarrow> 'u queue_state" where
  "worker_take i q =
     (case updates_queue q of
        [] \<Rightarrow> q
      | None # us \<Rightarrow> q\<lparr>updates_queue := us, workers := (workers q)[i := Gone]\<rparr>
      | Some u # us \<Rightarrow> q\<lparr>updates_queue := us, workers := (workers q)[i := Busy u], taken := taken q @ [u]\<rparr>)"

definition worker_done :: "nat \<Rightarrow> 'u queue_state \<Rightarrow> 'u queue_state" where
  "worker_done i q =
     (case workers q ! i of
        Busy u \<Rightarrow> q\<lparr>workers := (workers q)[i := Idle], finished := finished q @ [u]\<rparr>
      | _ \<Rightarrow> q)"

inductive queue_step :: "nat \<Rightarrow> 'u queue_state \<Rightarrow> 'u queue_state \<Rightarrow> bool" for n where
  enqueue: "queue_step n q (enqueue u q)"
| start_open: "phase q = Stopped \<Longrightarrow> queue_step n q (start_open q)"
| start_workers: "phase q = Opening \<Longrightarrow> queue_step n q (start_workers n q)"
| stop_close: "phase q = Running \<Longrightarrow> queue_step n q (stop_close n q)"
| stop_end: "phase q = Stopping \<Longrightarrow> set (workers q) \<subseteq> {Gone} \<Longrightarrow> queue_step n q (stop_end q)"
| worker_take: "i < length (workers q) \<Longrightarrow> workers q ! i = Idle \<Longrightarrow> queue_step n q (worker_take i q)"
| worker_done: "i < length (workers q) \<Longrightarrow> queue_step n q (worker_done i q)"

inductive queue_reachable :: "nat \<Rightarrow> 'u queue_state \<Rightarrow> bool" for n where
  init: "queue_reachable n Queue_init"
| step: "queue_reachable n q \<Longrightarrow> queue_step n q q' \<Longrightarrow> queue_reachable n q'"

end
