(* ===== verification/Dispatcher_Laws.thy ===== *)
theory Dispatcher_Laws
  imports Dispatcher
begin

text \<open>
  What \<open>Dispatcher\<close> promises: registration keeps the groups in order, a dispatch runs at most
  one handler of a group to a normal end, and the updates accepted before a stop are all
  dispatched, by an invariant over every interleaving of the workers.
\<close>

section \<open>Registration keeps the groups in order\<close>

definition groups_ok :: "(int \<times> handler list) list \<Rightarrow> bool" where
  "groups_ok gs \<longleftrightarrow> sorted_wrt (<) (map fst gs) \<and> (\<forall>g\<in>set gs. snd g \<noteq> [])"

lemma append_keys: "fst ` set (append_handler n h gs) = insert n (fst ` set gs)"
  by (induction gs) (simp, force)

lemma append_distinct: "distinct (map fst gs) \<Longrightarrow> distinct (map fst (append_handler n h gs))"
  by (induction gs) (simp, force simp: append_keys)

lemma append_nonempty: "\<forall>g\<in>set gs. snd g \<noteq> [] \<Longrightarrow> \<forall>g\<in>set (append_handler n h gs). snd g \<noteq> []"
  by (induction gs) (fastforce split: if_splits)+

lemma append_lookup:
  "map_of (append_handler n h gs) m =
     (if m = n then Some ((case map_of gs n of None \<Rightarrow> [] | Some hs \<Rightarrow> hs) @ [h]) else map_of gs m)"
  by (induction gs) auto

lemma sort_key_lookup: "distinct (map fst gs) \<Longrightarrow> map_of (sort_key fst gs) = map_of gs"
proof
  fix k
  assume d: "distinct (map fst gs)"
  then have "distinct (map fst (sort_key fst gs))" by (simp add: distinct_map)
  then have "map_of (sort_key fst gs) k = Some v \<longleftrightarrow> map_of gs k = Some v" for v
    using d by (simp add: map_of_eq_Some_iff)
  then show "map_of (sort_key fst gs) k = map_of gs k" by (metis not_Some_eq)
qed

lemma strict_keys: "groups_ok gs \<Longrightarrow> distinct (map fst gs)"
  by (simp add: groups_ok_def strict_sorted_iff)

lemma groups_ok_add: "groups_ok (groups d) \<Longrightarrow> groups_ok (groups (add_handler h n d))"
proof -
  assume ok: "groups_ok (groups d)"
  let ?gs = "append_handler n h (groups d)"
  have "distinct (map fst ?gs)" by (rule append_distinct [OF strict_keys [OF ok]])
  then have "distinct (map fst (sort_key fst ?gs))" by (simp add: distinct_map)
  moreover have "sorted (map fst (sort_key fst ?gs))" by simp
  ultimately have "sorted_wrt (<) (map fst (sort_key fst ?gs))" by (simp add: strict_sorted_iff)
  then show ?thesis using append_nonempty [of "groups d" n h] ok by (simp add: groups_ok_def add_handler_def)
qed

lemma delete_keys: "fst ` set (delete_handler n h gs) \<subseteq> fst ` set gs"
  by (induction gs) (force split: if_splits)+

lemma groups_ok_delete: "groups_ok gs \<Longrightarrow> groups_ok (delete_handler n h gs)"
proof (induction gs)
  case (Cons g gs)
  then show ?case using delete_keys [of n h gs] by (cases g) (fastforce simp: groups_ok_def)
qed simp

lemma groups_ok_remove: "groups_ok (groups d) \<Longrightarrow> remove_handler h n d = Inr d' \<Longrightarrow> groups_ok (groups d')"
  by (auto simp: remove_handler_def groups_ok_delete split: option.splits if_splits)

lemma alist_from_keys: "distinct (map fst gs) \<Longrightarrow> gs = map (\<lambda>k. (k, the (map_of gs k))) (map fst gs)"
  by (simp add: comp_def) (rule map_idI [symmetric], auto)

lemma sorted_groups_unique:
  assumes "groups_ok gs" "groups_ok hs" "map_of gs = map_of hs"
  shows "gs = hs"
proof -
  have "set (map fst gs) = set (map fst hs)" using assms(3) by (metis dom_map_of_conv_image_fst set_map)
  then have "map fst gs = map fst hs"
    using assms(1,2) unfolding groups_ok_def by (intro strict_sorted_equal) simp_all
  then show ?thesis
    using alist_from_keys [OF strict_keys [OF assms(1)]] alist_from_keys [OF strict_keys [OF assms(2)]] assms(3) by simp
qed

lemma delete_lookup:
  "distinct (map fst gs) \<Longrightarrow> map_of (delete_handler n h gs) m =
     (if m = n then (case map_of gs n of None \<Rightarrow> None | Some hs \<Rightarrow> if remove1 h hs = [] then None else Some (remove1 h hs))
      else map_of gs m)"
proof (induction gs)
  case (Cons g gs)
  obtain a b where g: "g = (a, b)" by fastforce
  have "a = n \<Longrightarrow> map_of gs n = None" using Cons.prems g by (simp add: map_of_eq_None_iff)
  then show ?case using Cons by (cases "m = n"; cases "a = n") (simp_all add: g)
qed simp

lemma remove_add_groups:
  assumes "groups_ok (groups d)" "\<forall>hs. map_of (groups d) n = Some hs \<longrightarrow> h \<notin> set hs"
  shows "remove_handler h n (add_handler h n d) = Inr d"
proof -
  let ?e = "add_handler h n d"
  have e: "groups_ok (groups ?e)" by (rule groups_ok_add [OF assms(1)])
  have l: "map_of (groups ?e) = map_of (append_handler n h (groups d))"
    using sort_key_lookup [OF append_distinct [OF strict_keys [OF assms(1)]]] by (simp add: add_handler_def)
  have ne: "map_of (groups d) n \<noteq> Some []"
    using assms(1) by (auto simp: groups_ok_def dest!: map_of_SomeD)
  have "map_of (delete_handler n h (groups ?e)) m = map_of (groups d) m" for m
    using assms(2) ne unfolding delete_lookup [OF strict_keys [OF e]] l append_lookup
    by (auto simp: remove1_append split: option.splits)
  then have "delete_handler n h (groups ?e) = groups d"
    by (intro sorted_groups_unique [OF groups_ok_delete [OF e] assms(1)]) blast
  moreover have "\<exists>hs. map_of (groups ?e) n = Some hs \<and> h \<in> set hs" by (simp add: l append_lookup)
  ultimately show ?thesis by (auto simp: remove_handler_def add_handler_def)
qed

section \<open>What a dispatch runs\<close>

definition group_runs :: "'p \<Rightarrow> nat option \<Rightarrow> 'u \<Rightarrow> handler list \<Rightarrow> (handler \<times> outcome) list \<Rightarrow> bool" where
  "group_runs p ht update hs rs \<longleftrightarrow> subseq (map fst rs) hs \<and> (\<forall>x\<in>set rs. chosen_arg p ht update (fst x) \<noteq> None) \<and>
     (\<forall>x\<in>set (butlast rs). snd x = ContinuePropagation)"

lemma run_group_runs:
  "run_group env p ht update hs s = (go, rs, s') \<Longrightarrow>
   group_runs p ht update hs rs \<and> (go \<longleftrightarrow> StopPropagation \<notin> set (map snd rs))"
proof (induction hs arbitrary: s go rs s')
  case Nil
  then show ?case by (simp add: group_runs_def)
next
  case (Cons h hs)
  have skip: "run_group env p ht update hs s1 = (go, rs, s') \<Longrightarrow> ?case" for s1
    using Cons.IH [of s1 go rs s'] by (auto simp: group_runs_def)
  show ?case
  proof (cases "chosen_arg p ht update h")
    case None
    then show ?thesis using Cons.prems skip by simp
  next
    case (Some a)
    obtain r s1 where c: "check env h a s = (r, s1)" by fastforce
    show ?thesis
    proof (cases "r = Some True")
      case False
      then show ?thesis using Cons.prems skip Some c by (auto split: option.splits bool.splits)
    next
      case True
      obtain o' s2 where o: "callback env (ident h) a s1 = (o', s2)" by fastforce
      show ?thesis
      proof (cases o')
        case ContinuePropagation
        obtain go2 rs2 s3 where "run_group env p ht update hs s2 = (go2, rs2, s3)" by (metis surj_pair)
        then show ?thesis
          using Cons.IH [of s2 go2 rs2 s3] Cons.prems Some c True o ContinuePropagation
          by (auto simp: group_runs_def split: if_splits)
      qed (use Cons.prems Some c True o in \<open>auto simp: group_runs_def\<close>)
    qed
  qed
qed

text \<open>The runs of a list of groups: of each group in turn, until one stops the rest.\<close>

fun groups_run :: "'p \<Rightarrow> nat option \<Rightarrow> 'u \<Rightarrow> handler list list \<Rightarrow> (handler \<times> outcome) list \<Rightarrow> bool" where
  "groups_run p ht update [] rs = (rs = [])"
| "groups_run p ht update (g # gs) rs =
     (\<exists>r1 r2. rs = r1 @ r2 \<and> group_runs p ht update g r1 \<and>
        (if StopPropagation \<in> set (map snd r1) then r2 = [] else groups_run p ht update gs r2))"

lemma run_groups_runs: "run_groups env p ht update gs s = (rs, s') \<Longrightarrow> groups_run p ht update gs rs"
proof (induction gs arbitrary: s rs s')
  case (Cons g gs)
  obtain go r1 s1 where g: "run_group env p ht update g s = (go, r1, s1)" by (metis surj_pair)
  note r = run_group_runs [OF g]
  show ?case
  proof (cases go)
    case True
    obtain r2 s2 where "run_groups env p ht update gs s1 = (r2, s2)" by fastforce
    then have "groups_run p ht update gs r2" "rs = r1 @ r2" using Cons g True by auto
    then show ?thesis using r True by auto
  next
    case False
    then show ?thesis using Cons.prems g r by auto
  qed
qed simp

section \<open>The queue\<close>

definition live :: "'u worker list \<Rightarrow> nat" where
  "live ws = length (filter (\<lambda>w. w \<noteq> Gone) ws)"

definition busy :: "'u worker list \<Rightarrow> 'u multiset" where
  "busy ws = mset (concat (map (\<lambda>w. case w of Busy u \<Rightarrow> [u] | _ \<Rightarrow> []) ws))"

definition queue_ok :: "nat \<Rightarrow> 'u queue_state \<Rightarrow> bool" where
  "queue_ok n q \<longleftrightarrow>
     (\<exists>us k. updates_queue q = map Some us @ replicate k None \<and> accepted q = taken q @ us \<and>
        k = (if phase q = Stopping then live (workers q) else 0) \<and> (Gone \<in> set (workers q) \<longrightarrow> us = [])) \<and>
     mset (taken q) = mset (finished q) + busy (workers q) \<and>
     (accepting_updates q \<longleftrightarrow> phase q = Opening \<or> phase q = Running) \<and>
     (phase q \<noteq> Stopping \<longrightarrow> Gone \<notin> set (workers q)) \<and>
     (workers q = [] \<or> length (workers q) = n) \<and>
     (phase q = Stopped \<or> phase q = Opening \<longleftrightarrow> workers q = [] \<and> phase q \<noteq> Running \<and> phase q \<noteq> Stopping) \<and>
     (phase q = Running \<or> phase q = Stopping \<longrightarrow> length (workers q) = n)"

lemma live_simps [simp]:
  "live [] = 0" "live (w # ws) = (if w = Gone then 0 else 1) + live ws" "live (ws @ vs) = live ws + live vs"
  "live (replicate n Idle) = n"
  by (auto simp: live_def)

lemma live_update:
  "i < length ws \<Longrightarrow> live (ws[i := w]) + (if ws ! i = Gone then 0 else 1) = live ws + (if w = Gone then 0 else 1)"
proof (induction ws arbitrary: i)
  case (Cons a ws)
  then show ?case by (cases i) auto
qed simp

lemma busy_simps [simp]:
  "busy [] = {#}" "busy (w # ws) = (case w of Busy u \<Rightarrow> {#u#} | _ \<Rightarrow> {#}) + busy ws" "busy (replicate n Idle) = {#}"
  by (auto simp: busy_def split: worker.splits)

lemma busy_update:
  "i < length ws \<Longrightarrow> busy (ws[i := w]) + (case ws ! i of Busy u \<Rightarrow> {#u#} | _ \<Rightarrow> {#}) =
     busy ws + (case w of Busy u \<Rightarrow> {#u#} | _ \<Rightarrow> {#})"
proof (induction ws arbitrary: i)
  case (Cons a ws)
  then show ?case by (cases i) (auto simp: union_ac)
qed simp

lemma live_all: "Gone \<notin> set ws \<Longrightarrow> live ws = length ws"
  by (induction ws) auto

lemma live_none: "set ws \<subseteq> {Gone} \<Longrightarrow> live ws = 0"
  by (induction ws) auto

lemma busy_none: "set ws \<subseteq> {Gone} \<Longrightarrow> busy ws = {#}"
  by (induction ws) auto

lemma live_pos: "w \<in> set ws \<Longrightarrow> w \<noteq> Gone \<Longrightarrow> 0 < live ws"
  by (induction ws) auto

lemma gone_update: "Gone \<in> set (ws[i := w]) \<Longrightarrow> w \<noteq> Gone \<Longrightarrow> Gone \<in> set ws"
  using set_update_subset_insert by fastforce

lemma queue_ok_take:
  assumes q: "queue_ok n q" and i: "i < length (workers q)" "workers q ! i = Idle"
  shows "queue_ok n (worker_take i q)"
proof -
  obtain us k where u: "updates_queue q = map Some us @ replicate k None" "accepted q = taken q @ us"
      "k = (if phase q = Stopping then live (workers q) else 0)" "Gone \<in> set (workers q) \<Longrightarrow> us = []"
    using q by (auto simp: queue_ok_def)
  show ?thesis
  proof (cases us)
    case (Cons a us')
    have w: "worker_take i q = q\<lparr>updates_queue := map Some us' @ replicate k None, workers := (workers q)[i := Busy a], taken := taken q @ [a]\<rparr>"
      by (simp add: worker_take_def u(1) Cons)
    have g: "Gone \<notin> set (workers q)" using u(4) Cons by auto
    then have g': "Gone \<notin> set ((workers q)[i := Busy a])" using gone_update by fastforce
    have "busy ((workers q)[i := Busy a]) = busy (workers q) + {#a#}" using busy_update [OF i(1), of "Busy a"] i(2) by simp
    moreover have "live ((workers q)[i := Busy a]) = live (workers q)" using live_update [OF i(1), of "Busy a"] i(2) by simp
    ultimately show ?thesis
      using q u(2,3) g' i(1) unfolding w queue_ok_def by (auto simp: Cons)
  next
    case Nil
    show ?thesis
    proof (cases k)
      case 0
      then show ?thesis using q by (simp add: worker_take_def u(1) Nil)
    next
      case (Suc k')
      then have p: "phase q = Stopping" "live (workers q) = Suc k'" using u(3) by (auto split: if_splits)
      have w: "worker_take i q = q\<lparr>updates_queue := replicate k' None, workers := (workers q)[i := Gone]\<rparr>"
        by (simp add: worker_take_def u(1) Nil Suc)
      have "busy ((workers q)[i := Gone]) = busy (workers q)" using busy_update [OF i(1), of Gone] i(2) by simp
      moreover have "live ((workers q)[i := Gone]) = k'" using live_update [OF i(1), of Gone] i(2) p(2) by simp
      ultimately show ?thesis
        using q p(1) u(2) Nil i(1) unfolding w queue_ok_def by auto
    qed
  qed
qed

lemma queue_ok_done:
  assumes q: "queue_ok n q" and i: "i < length (workers q)"
  shows "queue_ok n (worker_done i q)"
proof (cases "workers q ! i")
  case (Busy u)
  have w: "worker_done i q = q\<lparr>workers := (workers q)[i := Idle], finished := finished q @ [u]\<rparr>"
    by (simp add: worker_done_def Busy)
  have "busy ((workers q)[i := Idle]) + {#u#} = busy (workers q)" using busy_update [OF i, of Idle] Busy by simp
  moreover have "live ((workers q)[i := Idle]) = live (workers q)" using live_update [OF i, of Idle] Busy by simp
  moreover have "Gone \<in> set ((workers q)[i := Idle]) \<Longrightarrow> Gone \<in> set (workers q)" using gone_update by fastforce
  ultimately show ?thesis using q i unfolding w queue_ok_def by (auto simp: union_ac)
qed (use q in \<open>simp_all add: worker_done_def\<close>)

lemma queue_ok_step: "queue_step n q q' \<Longrightarrow> queue_ok n q \<Longrightarrow> queue_ok n q'"
proof (induction rule: queue_step.induct)
  case (enqueue q u)
  then show ?case by (cases "phase q") (auto simp: queue_ok_def enqueue_def)
next
  case (start_open q)
  then show ?case by (auto simp: queue_ok_def start_open_def)
next
  case (start_workers q)
  then show ?case by (auto simp: queue_ok_def start_workers_def)
next
  case (stop_close q)
  then have "live (workers q) = n" using live_all by (auto simp: queue_ok_def)
  then show ?case using stop_close by (auto simp: queue_ok_def stop_close_def)
next
  case (stop_end q)
  then show ?case using live_none [of "workers q"] busy_none [of "workers q"] by (auto simp: queue_ok_def stop_end_def)
next
  case (worker_take i q)
  then show ?case by (intro queue_ok_take)
next
  case (worker_done i q)
  then show ?case by (intro queue_ok_done)
qed

lemma queue_ok_init: "queue_ok n Queue_init"
  by (simp add: queue_ok_def Queue_init_def)

lemma queue_reachable_ok: "queue_reachable n q \<Longrightarrow> queue_ok n q"
  by (induction rule: queue_reachable.induct) (use queue_ok_init queue_ok_step in blast)+

text \<open>
  C20. Groups stay dispatchable: after any registration the groups are in ascending order
  without repetition and none is empty, the handler stands behind the others of its group,
  the other groups are as they were, and taking the handler away again restores the groups
  exactly, if it was not registered there before.
\<close>

theorem registration_ok:
  assumes "groups_ok (groups d)"
  shows "groups_ok (groups (add_handler h n d)) \<and>
    map_of (groups (add_handler h n d)) = (map_of (groups d))(n \<mapsto> (case map_of (groups d) n of None \<Rightarrow> [] | Some hs \<Rightarrow> hs) @ [h]) \<and>
    (case remove_handler h n d of Inl e \<Rightarrow> e = ValueError \<and> (\<forall>hs. map_of (groups d) n = Some hs \<longrightarrow> h \<notin> set hs) \<and>
         remove_handler h n (add_handler h n d) = Inr d
     | Inr d' \<Rightarrow> groups_ok (groups d'))"
proof -
  have l: "map_of (groups (add_handler h n d)) m = map_of (append_handler n h (groups d)) m" for m
    using sort_key_lookup [OF append_distinct [OF strict_keys [OF assms]]] by (simp add: add_handler_def)
  have "(\<forall>hs. map_of (groups d) n = Some hs \<longrightarrow> h \<notin> set hs) \<longleftrightarrow> remove_handler h n d = Inl ValueError"
    "\<exists>d'. remove_handler h n d = Inr d' \<or> remove_handler h n d = Inl ValueError"
    by (auto simp: remove_handler_def split: option.splits)
  then show ?thesis
    using groups_ok_add [OF assms] remove_add_groups [OF assms] groups_ok_remove [OF assms, of h n]
    by (auto simp: fun_eq_iff l append_lookup split: sum.splits)
qed

lemma registration_ok_witness:
  "groups_ok (groups (add_handler \<lparr>ident = 1, handler_class = RawUpdateHandler, filters = None\<rparr> 3 \<lparr>groups = []\<rparr>))"
  using registration_ok [of "\<lparr>groups = []\<rparr>" "\<lparr>ident = 1, handler_class = RawUpdateHandler, filters = None\<rparr>" 3]
  by (simp add: groups_ok_def)


text \<open>
  C19. No update is lost when the client stops: with at least one worker, once all workers have
  ended every update accepted since the start has been dispatched to its end, taken in the
  order of arrival; and until then no worker waits on an empty queue, so the stop comes to an
  end when the callbacks do.
\<close>

theorem no_update_lost:
  assumes "queue_reachable n q" "0 < n" "phase q = Stopping"
  shows "(\<forall>w\<in>set (workers q). w = Idle \<longrightarrow> updates_queue q \<noteq> []) \<and>
    (set (workers q) \<subseteq> {Gone} \<longrightarrow> taken q = accepted q \<and> mset (finished q) = mset (accepted q) \<and> updates_queue q = [])"
proof -
  have ok: "queue_ok n q" by (rule queue_reachable_ok [OF assms(1)])
  then obtain us where u: "updates_queue q = map Some us @ replicate (live (workers q)) None" "accepted q = taken q @ us"
      "Gone \<in> set (workers q) \<Longrightarrow> us = []" "mset (taken q) = mset (finished q) + busy (workers q)" "length (workers q) = n"
    using assms(3) by (auto simp: queue_ok_def)
  have "updates_queue q \<noteq> []" if "w \<in> set (workers q)" "w = Idle" for w
    using live_pos [OF that(1)] that(2) u(1) by auto
  moreover have "taken q = accepted q \<and> mset (finished q) = mset (accepted q) \<and> updates_queue q = []" if g: "set (workers q) \<subseteq> {Gone}"
  proof -
    have "workers q \<noteq> []" using u(5) assms(2) by auto
    then have "Gone \<in> set (workers q)" using g by (cases "workers q") auto
    then show ?thesis using u live_none [OF g] busy_none [OF g] by simp
  qed
  ultimately show ?thesis by blast
qed

section \<open>Concrete runs\<close>

definition demo_code :: "(unit, nat, dispatcher) user_code" where
  "demo_code = \<lparr>custom = \<lambda>i a s. (Some (i = 1), s),
     callback = \<lambda>i a s. (if i = 1 then ContinuePropagation else if i = 2 then Returned else StopPropagation, s),
     error_callback = \<lambda>i e h u s. (Returned, s), parser = \<lambda>u s. (Some ((), Some 0), s), is_subclass = (=)\<rparr>"

definition demo_handler :: "nat \<Rightarrow> flt option \<Rightarrow> handler" where
  "demo_handler i f = \<lparr>ident = i, handler_class = UpdateHandler 0, filters = f\<rparr>"

text \<open>Handler 1 passes the update on, 2 keeps it, 3 would be next in the group, 5 is not let
  through by its filter, 4 stops everything before 6.\<close>

definition demo_groups :: dispatcher where
  "demo_groups = \<lparr>groups = [(0, [demo_handler 1 (Some (CustomFilter 1)), demo_handler 2 None, demo_handler 3 None]),
     (1, [demo_handler 5 (Some (InvertFilter (CustomFilter 1))), demo_handler 4 None]), (2, [demo_handler 6 None])]\<rparr>"


lemma no_update_lost_witness:
  "\<exists>q :: nat queue_state. queue_reachable 1 q \<and> accepted q = [7] \<and> finished q = [7] \<and> updates_queue q = []"
proof -
  define q1 where "q1 = start_workers 1 (enqueue (7 :: nat) (start_open Queue_init))"
  define q2 where "q2 = worker_done 0 (worker_take 0 (stop_close 1 q1))"
  define q where "q = worker_take 0 q2"
  note defs = q1_def q2_def q_def start_workers_def enqueue_def start_open_def Queue_init_def stop_close_def worker_take_def worker_done_def
  have "queue_reachable 1 (enqueue (7 :: nat) (start_open Queue_init))"
    by (rule queue_reachable.step [OF queue_reachable.step [OF queue_reachable.init queue_step.start_open] queue_step.enqueue])
      (simp add: defs)
  from queue_reachable.step [OF this queue_step.start_workers] have "queue_reachable 1 q1" by (simp add: defs)
  from queue_reachable.step [OF this queue_step.stop_close] have "queue_reachable 1 (stop_close 1 q1)" by (simp add: defs)
  from queue_reachable.step [OF this queue_step.worker_take] have "queue_reachable 1 (worker_take 0 (stop_close 1 q1))" by (simp add: defs)
  from queue_reachable.step [OF this queue_step.worker_done] have "queue_reachable 1 q2" by (simp add: defs)
  from queue_reachable.step [OF this queue_step.worker_take, of 0] have r: "queue_reachable 1 q" by (simp add: defs)
  have p: "phase q = Stopping" "set (workers q) \<subseteq> {Gone}" "accepted q = [7]" "finished q = [7]" by (simp_all add: defs)
  show ?thesis using no_update_lost [OF r _ p(1)] r p by auto
qed

end
