(* ===== verification/Tcp.thy ===== *)
theory Tcp
  imports Aes_Modes
begin

text \<open>
  \<open>kurigram/pyrogram/connection/transport/tcp/tcp.py\<close> and \<open>faketls_records.py\<close>:
  reading exactly so many bytes from a socket that delivers them in arbitrary
  pieces, the fake-TLS record layer, the AES-CTR stream on top, and the obfuscated2
  header that opens it.  The locale \<open>exact_reader\<close> is the contract between a layer
  and the one above it.
\<close>

section \<open>The socket\<close>

text \<open>
  A socket is the pieces that \<open>reader.read\<close> will find, one after the other.  An empty
  piece, and running out of pieces, stand for a closed connection, a timeout or an
  \<open>OSError\<close>: \<open>_recv_from_socket\<close> answers all three with \<open>None\<close>, having consumed what
  it got.  A read takes at most what it asked for out of the first piece.
\<close>

type_synonym socket = "bytes list"

fun read_pieces :: "nat \<Rightarrow> socket \<Rightarrow> bytes option \<times> socket" where
  "read_pieces n [] = (if n = 0 then Some [] else None, [])"
| "read_pieces n (c # cs) =
     (if n = 0 then (Some [], c # cs)
      else if c = [] then (None, cs)
      else if n < length c then (Some (take n c), drop n c # cs)
      else case read_pieces (n - length c) cs of
             (None, s) \<Rightarrow> (None, s)
           | (Some d, s) \<Rightarrow> (Some (c @ d), s))"

definition recv_from_socket :: "int \<Rightarrow> socket \<Rightarrow> bytes option \<times> socket" where
  "recv_from_socket n s = read_pieces (nat n) s"

lemma read_pieces_ok:
  "[] \<notin> set s \<Longrightarrow> n \<le> length (concat s) \<Longrightarrow>
   \<exists>s'. read_pieces n s = (Some (take n (concat s)), s') \<and> [] \<notin> set s' \<and> concat s' = drop n (concat s)"
proof (induction n s rule: read_pieces.induct)
  case (2 n c cs)
  show ?case
  proof (cases "n = 0 \<or> n < length c")
    case True
    with 2(2) show ?thesis by auto
  next
    case False
    moreover have "n - length c \<le> length (concat cs)" using 2(3) by simp
    ultimately obtain s' where "read_pieces (n - length c) cs = (Some (take (n - length c) (concat cs)), s')"
      "[] \<notin> set s'" "concat s' = drop (n - length c) (concat cs)" using 2 by auto
    with False 2(2) show ?thesis by auto
  qed
qed simp

lemma read_pieces_short:
  "length (concat s) < n \<Longrightarrow> fst (read_pieces n s) = None"
proof (induction n s rule: read_pieces.induct)
  case (2 n c cs)
  then have "c \<noteq> [] \<Longrightarrow> fst (read_pieces (n - length c) cs) = None" by (simp add: less_diff_conv2)
  with 2(2) show ?case by (cases "c = []") (auto split: prod.splits option.splits)
qed simp

lemma read_pieces_consumes:
  "read_pieces n s = (Some d, s') \<Longrightarrow> length d = n \<and> length (concat s) = n + length (concat s')"
proof (induction n s arbitrary: d rule: read_pieces.induct)
  case (2 n c cs)
  show ?case
  proof (cases "n = 0 \<or> n < length c")
    case True
    with 2(2) show ?thesis by (auto split: if_splits)
  next
    case False
    with 2(2) obtain e where e: "read_pieces (n - length c) cs = (Some e, s')" and "d = c @ e" "c \<noteq> []"
      by (auto split: if_splits prod.splits option.splits)
    with 2(1) [OF _ _ _ e] False show ?thesis by auto
  qed
qed (auto split: if_splits)

section \<open>Exact readers\<close>

text \<open>
  What a layer expects of the one below: as long as \<open>n\<close> bytes are still to come, asking
  for \<open>n\<close> returns the next \<open>n\<close>.  \<open>pending\<close> are the bytes to come, \<open>good\<close> an invariant
  of the reader's state.
\<close>

locale exact_reader =
  fixes rd :: "int \<Rightarrow> 's \<Rightarrow> (bytes option \<times> 's) res"
    and pending :: "'s \<Rightarrow> bytes"
    and good :: "'s \<Rightarrow> bool"
  assumes read_exact: "good s \<Longrightarrow> n \<le> length (pending s) \<Longrightarrow>
    \<exists>s'. rd (int n) s = Inr (Some (take n (pending s)), s') \<and> good s' \<and> pending s' = drop n (pending s)"
begin

lemma read_prefix:
  assumes "good s" "pending s = xs @ ys" "n = int (length xs)"
  obtains s' where "rd n s = Inr (Some xs, s')" "good s'" "pending s' = ys"
  using read_exact [OF assms(1), of "length xs"] assms(2,3) by auto

end

definition socket_recv :: "int \<Rightarrow> socket \<Rightarrow> (bytes option \<times> socket) res" where
  "socket_recv n s = Inr (recv_from_socket n s)"

interpretation socket_reader: exact_reader socket_recv concat "\<lambda>s. [] \<notin> set s"
proof
  fix s :: socket and n
  assume "[] \<notin> set s" "n \<le> length (concat s)"
  then show "\<exists>s'. socket_recv (int n) s = Inr (Some (take n (concat s)), s') \<and>
      [] \<notin> set s' \<and> concat s' = drop n (concat s)"
    using read_pieces_ok [of s n] by (auto simp: socket_recv_def recv_from_socket_def)
qed

section \<open>Fake-TLS records\<close>

definition APPLICATION_DATA_PREFIX :: bytes where "APPLICATION_DATA_PREFIX = [0x17, 0x03, 0x03]"
definition RECORD_LENGTH_SIZE :: nat where "RECORD_LENGTH_SIZE = 2"
definition RECORD_HEADER_SIZE :: nat where
  "RECORD_HEADER_SIZE = length APPLICATION_DATA_PREFIX + RECORD_LENGTH_SIZE"
definition CHANGE_CIPHER_SPEC :: bytes where
  "CHANGE_CIPHER_SPEC = [0x14, 0x03, 0x03, 0x00, 0x01, 0x01]"
definition MAX_RECORD_PAYLOAD :: nat where "MAX_RECORD_PAYLOAD = 2878"

definition GREETING_RESPONSE_PREFIXES :: "bytes list" where
  "GREETING_RESPONSE_PREFIXES = [[0x16, 0x03, 0x03], CHANGE_CIPHER_SPEC @ APPLICATION_DATA_PREFIX]"

record records =
  prologue :: bytes
  buffer :: bytes
  sent_change_cipher_spec :: bool

definition FakeTlsRecords_init :: "bytes \<Rightarrow> records" where
  "FakeTlsRecords_init p = \<lparr>prologue = p, buffer = [], sent_change_cipher_spec = False\<rparr>"

text \<open>A record; its length fits two bytes because a chunk has at most 2878.\<close>

definition tls_record :: "bytes \<Rightarrow> bytes" where
  "tls_record chunk = APPLICATION_DATA_PREFIX @ be_bytes RECORD_LENGTH_SIZE (int (length chunk)) @ chunk"

definition wrap :: "bytes \<Rightarrow> records \<Rightarrow> bytes \<times> records" where
  "wrap data r =
     (let payload = prologue r @ data;
          wire = (if sent_change_cipher_spec r then [] else CHANGE_CIPHER_SPEC)
      in (wire @ concat (map tls_record (chunks MAX_RECORD_PAYLOAD payload)),
          r\<lparr>prologue := [], sent_change_cipher_spec := True\<rparr>))"

definition read_record :: "socket \<Rightarrow> (bytes option \<times> socket) res" where
  "read_record s =
     (case recv_from_socket (int RECORD_HEADER_SIZE) s of
        (None, s1) \<Rightarrow> Inr (None, s1)
      | (Some header, s1) \<Rightarrow>
          if take (length APPLICATION_DATA_PREFIX) header \<noteq> APPLICATION_DATA_PREFIX then Inl OSError
          else Inr (recv_from_socket (be_int (drop (length header - RECORD_LENGTH_SIZE) header)) s1))"

lemma read_record_consumes:
  assumes "read_record s = Inr (Some d, s')"
  shows "length (concat s') < length (concat s)"
proof -
  obtain h s1 where h: "recv_from_socket (int RECORD_HEADER_SIZE) s = (h, s1)" by fastforce
  with assms obtain x where x: "h = Some x"
    and r: "recv_from_socket (be_int (drop (length x - RECORD_LENGTH_SIZE) x)) s1 = (Some d, s')"
    by (auto simp: read_record_def split: option.splits if_splits)
  have "0 < RECORD_HEADER_SIZE" by (simp add: RECORD_HEADER_SIZE_def RECORD_LENGTH_SIZE_def)
  with h x r show ?thesis
    using read_pieces_consumes [of RECORD_HEADER_SIZE s x s1] read_pieces_consumes [OF r [unfolded recv_from_socket_def]]
    by (auto simp: recv_from_socket_def)
qed

text \<open>\<open>FakeTlsRecords.recv\<close>: every pass takes a record header off the socket.\<close>

function records_fill :: "nat \<Rightarrow> bytes \<Rightarrow> socket \<Rightarrow> (bool \<times> bytes \<times> socket) res" where
  "records_fill n b s =
     (if n \<le> length b then Inr (True, b, s)
      else case read_record s of
             Inl e \<Rightarrow> Inl e
           | Inr (None, s1) \<Rightarrow> Inr (False, b, s1)
           | Inr (Some d, s1) \<Rightarrow> records_fill n (b @ d) s1)"
  by pat_completeness auto
termination
  by (relation "measure (\<lambda>(n, b, s). length (concat s))") (auto simp: read_record_consumes)

declare records_fill.simps [simp del]

definition records_recv :: "int \<Rightarrow> records \<times> socket \<Rightarrow> (bytes option \<times> (records \<times> socket)) res" where
  "records_recv n rs =
     (case rs of (r, s) \<Rightarrow>
        bindR (records_fill (nat n) (buffer r) s) (\<lambda>(ok, b, s1).
          if ok then Inr (Some (take (nat n) b), (r\<lparr>buffer := drop (nat n) b\<rparr>, s1))
          else Inr (None, (r\<lparr>buffer := b\<rparr>, s1))))"

text \<open>The payload of a byte stream made of records.\<close>

function unrecord :: "bytes \<Rightarrow> bytes" where
  "unrecord w =
     (if length w < RECORD_HEADER_SIZE then []
      else let n = nat (be_int (pyslice 3 5 w))
           in take n (drop RECORD_HEADER_SIZE w) @ unrecord (drop (RECORD_HEADER_SIZE + n) w))"
  by pat_completeness auto
termination
  by (relation "measure length") (auto simp: RECORD_HEADER_SIZE_def RECORD_LENGTH_SIZE_def)

declare unrecord.simps [simp del]

definition recorded :: "bytes \<Rightarrow> bool" where
  "recorded w \<longleftrightarrow> (\<exists>ps. (\<forall>p \<in> set ps. length p < 65536) \<and> w = concat (map tls_record ps))"

lemmas record_consts = RECORD_HEADER_SIZE_def RECORD_LENGTH_SIZE_def APPLICATION_DATA_PREFIX_def

lemma be_int_be_bytes2: "length p < 65536 \<Longrightarrow> be_int (be_bytes 2 (int (length p))) = int (length p)"
  by (simp add: be_int_def be_bytes_def le_int_le_bytes)

lemma unrecord_Cons:
  assumes "length p < 65536"
  shows "unrecord (tls_record p @ w) = p @ unrecord w"
proof -
  have "pyslice 3 5 (tls_record p @ w) = be_bytes 2 (int (length p))"
    by (simp add: pyslice_def tls_record_def record_consts)
  moreover have "drop RECORD_HEADER_SIZE (tls_record p @ w) = p @ w"
    by (simp add: tls_record_def record_consts)
  moreover from this have "drop (RECORD_HEADER_SIZE + length p) (tls_record p @ w) = w"
    by (metis add.commute append_eq_conv_conj drop_drop)
  ultimately show ?thesis
    using assms be_int_be_bytes2 [OF assms]
    by (subst unrecord.simps) (simp add: tls_record_def record_consts)
qed

lemma unrecord_concat: "\<forall>p \<in> set ps. length p < 65536 \<Longrightarrow> unrecord (concat (map tls_record ps)) = concat ps"
proof (induction ps)
  case Nil
  then show ?case by (subst unrecord.simps) (simp add: record_consts)
qed (simp add: unrecord_Cons)

lemma read_record_ok:
  assumes "[] \<notin> set s" "concat s = tls_record p @ w" "length p < 65536"
  shows "\<exists>s'. read_record s = Inr (Some p, s') \<and> [] \<notin> set s' \<and> concat s' = w"
proof -
  let ?h = "APPLICATION_DATA_PREFIX @ be_bytes RECORD_LENGTH_SIZE (int (length p))"
  have h: "length ?h = RECORD_HEADER_SIZE" by (simp add: RECORD_HEADER_SIZE_def)
  obtain s1 where s1: "recv_from_socket (int RECORD_HEADER_SIZE) s = (Some ?h, s1)" "[] \<notin> set s1"
    "concat s1 = p @ w"
    using read_pieces_ok [OF assms(1), of RECORD_HEADER_SIZE] assms(2) h
    by (auto simp: recv_from_socket_def tls_record_def)
  obtain s2 where s2: "recv_from_socket (int (length p)) s1 = (Some p, s2)" "[] \<notin> set s2" "concat s2 = w"
    using read_pieces_ok [OF s1(2), of "length p"] s1(3) by (auto simp: recv_from_socket_def)
  have "drop (length ?h - RECORD_LENGTH_SIZE) ?h = be_bytes 2 (int (length p))"
    by (simp add: record_consts)
  with s1 s2 be_int_be_bytes2 [OF assms(3)] show ?thesis
    by (simp add: read_record_def del: length_append drop_append)
qed

lemma records_fill_ok:
  assumes "[] \<notin> set s" "\<forall>p \<in> set ps. length p < 65536" "concat s = concat (map tls_record ps)"
    "n \<le> length (b @ concat ps)"
  shows "\<exists>b' s' ps'. records_fill n b s = Inr (True, b', s') \<and> n \<le> length b' \<and> [] \<notin> set s' \<and>
    (\<forall>p \<in> set ps'. length p < 65536) \<and> concat s' = concat (map tls_record ps') \<and>
    b' @ concat ps' = b @ concat ps"
  using assms
proof (induction ps arbitrary: b s)
  case Nil
  then show ?case by (subst records_fill.simps) (auto intro: exI [of _ "[]"])
next
  case (Cons p ps)
  show ?case
  proof (cases "n \<le> length b")
    case True
    with Cons.prems show ?thesis
      by (subst records_fill.simps) (auto intro!: exI [of _ "p # ps"])
  next
    case False
    from Cons.prems read_record_ok [of s p "concat (map tls_record ps)"] obtain s' where
      s': "read_record s = Inr (Some p, s')" "[] \<notin> set s'" "concat s' = concat (map tls_record ps)" by auto
    with Cons.IH [of s' "b @ p"] Cons.prems False show ?thesis
      by (subst records_fill.simps) (simp add: add.assoc)
  qed
qed

interpretation records_reader: exact_reader records_recv
  "\<lambda>(r, s). buffer r @ unrecord (concat s)" "\<lambda>(r, s). [] \<notin> set s \<and> recorded (concat s)"
proof
  fix rs :: "records \<times> socket" and n
  obtain r s where rs: "rs = (r, s)" by fastforce
  assume "case rs of (r, s) \<Rightarrow> [] \<notin> set s \<and> recorded (concat s)"
    and n: "n \<le> length (case rs of (r, s) \<Rightarrow> buffer r @ unrecord (concat s))"
  then obtain ps where g: "[] \<notin> set s" and ps: "\<forall>p \<in> set ps. length p < 65536"
    "concat s = concat (map tls_record ps)" by (auto simp: rs recorded_def)
  have u: "unrecord (concat s) = concat ps" using ps by (simp add: unrecord_concat)
  with n rs records_fill_ok [OF g ps, of n "buffer r"] obtain b' s' ps' where
    f: "records_fill n (buffer r) s = Inr (True, b', s')" "n \<le> length b'" "[] \<notin> set s'"
    "\<forall>p \<in> set ps'. length p < 65536" "concat s' = concat (map tls_record ps')"
    "b' @ concat ps' = buffer r @ concat ps" by auto
  have "unrecord (concat s') = concat ps'" using f(4,5) by (simp add: unrecord_concat)
  moreover have "take n b' = take n (buffer r @ concat ps)" "drop n b' @ concat ps' = drop n (buffer r @ concat ps)"
    using f(2) unfolding f(6) [symmetric] by simp_all
  ultimately show "\<exists>s'. records_recv (int n) rs = Inr (Some (take n (case rs of (r, s) \<Rightarrow> buffer r @ unrecord (concat s))), s') \<and>
      (case s' of (r, s) \<Rightarrow> [] \<notin> set s \<and> recorded (concat s)) \<and>
      (case s' of (r, s) \<Rightarrow> buffer r @ unrecord (concat s)) = drop n (case rs of (r, s) \<Rightarrow> buffer r @ unrecord (concat s))"
    using f(1,3-5) u by (auto simp: rs records_recv_def recorded_def)
qed

section \<open>The cipher stream\<close>

text \<open>\<open>CipherArgs\<close>: the key, and the counter and position that every call updates in
  place.\<close>

record cipher_args =
  ckey :: bytes
  civ :: bytes
  cpos :: nat

definition ctr_encrypt :: "aes \<Rightarrow> bytes \<Rightarrow> cipher_args \<Rightarrow> (bytes \<times> cipher_args) res" where
  "ctr_encrypt c data a =
     bindR (ctr256_encrypt c data (ckey a) (civ a) (Some (cpos a))) (\<lambda>(out, iv, st).
       Inr (out, a\<lparr>civ := iv, cpos := the st\<rparr>))"

definition ctr_decrypt :: "aes \<Rightarrow> bytes \<Rightarrow> cipher_args \<Rightarrow> (bytes \<times> cipher_args) res" where
  "ctr_decrypt c data a =
     bindR (ctr256_decrypt c data (ckey a) (civ a) (Some (cpos a))) (\<lambda>(out, iv, st).
       Inr (out, a\<lparr>civ := iv, cpos := the st\<rparr>))"

definition cipher_ok :: "cipher_args \<Rightarrow> bool" where
  "cipher_ok a \<longleftrightarrow> length (ckey a) = 32 \<and> length (civ a) = 16 \<and> cpos a < 16"

definition stream_of :: "aes \<Rightarrow> cipher_args \<Rightarrow> bytes \<Rightarrow> bytes" where
  "stream_of c a data = xor_bytes data (keystream (aes_encrypt c (ckey a)) (civ a) (cpos a) (length data))"

definition advance :: "nat \<Rightarrow> cipher_args \<Rightarrow> cipher_args" where
  "advance n a = a\<lparr>civ := (increment ^^ ((cpos a + n) div 16)) (civ a), cpos := (cpos a + n) mod 16\<rparr>"

lemma ctr_encrypt_eq:
  "aes_law c \<Longrightarrow> cipher_ok a \<Longrightarrow> ctr_encrypt c d a = Inr (stream_of c a d, advance (length d) a)"
  by (simp add: ctr_encrypt_def ctr256_encrypt_def ctr_spec cipher_ok_def stream_of_def advance_def)

lemma ctr_decrypt_eq:
  "aes_law c \<Longrightarrow> cipher_ok a \<Longrightarrow> ctr_decrypt c d a = Inr (stream_of c a d, advance (length d) a)"
  by (simp add: ctr_decrypt_def ctr256_decrypt_def ctr_spec cipher_ok_def stream_of_def advance_def)

lemma cipher_ok_advance [simp]: "cipher_ok a \<Longrightarrow> cipher_ok (advance n a)"
  by (simp add: cipher_ok_def advance_def)

lemma length_stream_of [simp]: "length (stream_of c a d) = length d"
  by (simp add: stream_of_def)

lemma stream_of_stream_of [simp]: "stream_of c a (stream_of c a d) = d"
  by (simp add: stream_of_def xor_bytes_cancel)

lemma stream_of_append: "stream_of c a (d @ e) = stream_of c a d @ stream_of c (advance (length d) a) e"
  by (simp add: stream_of_def advance_def keystream_append xor_bytes_append)

lemma advance_advance: "advance n (advance m a) = advance (m + n) a"
proof -
  have "(increment ^^ (((cpos a + m) mod 16 + n) div 16)) ((increment ^^ ((cpos a + m) div 16)) (civ a))
      = (increment ^^ ((cpos a + (m + n)) div 16)) (civ a)"
    using position_step [of "cpos a + m" n] by (metis add.assoc comp_apply funpow_add)
  then show ?thesis by (simp add: advance_def mod_simps add.assoc)
qed

lemma stream_of_take_drop:
  "stream_of c a (take n w) = take n (stream_of c a w)"
  "n \<le> length w \<Longrightarrow> stream_of c (advance n a) (drop n w) = drop n (stream_of c a w)"
proof -
  have e: "stream_of c a w = stream_of c a (take n w) @ stream_of c (advance (length (take n w)) a) (drop n w)"
    using stream_of_append [of c a "take n w" "drop n w"] by simp
  have "take n (stream_of c a (take n w) @ y) = stream_of c a (take n w)" if "n \<le> length w \<or> y = []" for y
    using that by auto
  from this [of "stream_of c (advance (length (take n w)) a) (drop n w)"] e
  show "stream_of c a (take n w) = take n (stream_of c a w)"
    by (metis drop_all length_0_conv length_stream_of list.size(3) nle_le)
  show "n \<le> length w \<Longrightarrow> stream_of c (advance n a) (drop n w) = drop n (stream_of c a w)"
    using e by (metis append_eq_conv_conj length_stream_of length_take min.absorb2)
qed

section \<open>TCP\<close>

record tcp =
  reader :: "socket option"
  writer_open :: bool
  written :: bytes
  marker :: bool
  tls :: "records option"
  encrypt :: "cipher_args option"
  decrypt :: "cipher_args option"

text \<open>\<open>TCP.send\<close> over a socket: a closed writer swallows the data; the marker must have
  been sent; then encryption and the record layer.\<close>

definition tcp_send :: "aes \<Rightarrow> bytes \<Rightarrow> bool \<Rightarrow> tcp \<Rightarrow> tcp res" where
  "tcp_send c data wait_for_marker t =
     (if \<not> writer_open t then Inr t
      else if wait_for_marker \<and> \<not> marker t then Inl TimeoutError
      else bindR (case encrypt t of
                    None \<Rightarrow> Inr (data, t)
                  | Some a \<Rightarrow> bindR (ctr_encrypt c data a) (\<lambda>(d, a'). Inr (d, t\<lparr>encrypt := Some a'\<rparr>)))
        (\<lambda>(d, t1). case tls t1 of
            None \<Rightarrow> Inr (t1\<lparr>written := written t1 @ d\<rparr>)
          | Some r \<Rightarrow> let (w, r') = wrap d r in Inr (t1\<lparr>tls := Some r', written := written t1 @ w\<rparr>)))"

definition tcp_recv :: "aes \<Rightarrow> int \<Rightarrow> tcp \<Rightarrow> (bytes option \<times> tcp) res" where
  "tcp_recv c n t =
     (case reader t of
        None \<Rightarrow> Inr (None, t)
      | Some s \<Rightarrow>
          bindR (case tls t of
                   None \<Rightarrow> (let (d, s') = recv_from_socket n s in Inr (d, t\<lparr>reader := Some s'\<rparr>))
                 | Some r \<Rightarrow> bindR (records_recv n (r, s)) (\<lambda>(d, r', s').
                     Inr (d, t\<lparr>tls := Some r', reader := Some s'\<rparr>)))
            (\<lambda>(data, t1).
               case data of
                 None \<Rightarrow> Inr (None, t1)
               | Some d \<Rightarrow>
                   (case decrypt t1 of
                      None \<Rightarrow> Inr (Some d, t1)
                    | Some a \<Rightarrow> bindR (ctr_decrypt c d a) (\<lambda>(out, a').
                        Inr (Some out, t1\<lparr>decrypt := Some a'\<rparr>)))))"

text \<open>The plain bytes still to come on a connection.\<close>

definition raw_pending :: "tcp \<Rightarrow> bytes" where
  "raw_pending t =
     (case reader t of
        None \<Rightarrow> []
      | Some s \<Rightarrow> (case tls t of None \<Rightarrow> concat s | Some r \<Rightarrow> buffer r @ unrecord (concat s)))"

definition tcp_pending :: "aes \<Rightarrow> tcp \<Rightarrow> bytes" where
  "tcp_pending c t =
     (case decrypt t of None \<Rightarrow> raw_pending t | Some a \<Rightarrow> stream_of c a (raw_pending t))"

definition tcp_good :: "tcp \<Rightarrow> bool" where
  "tcp_good t \<longleftrightarrow>
     (case reader t of
        None \<Rightarrow> False
      | Some s \<Rightarrow> [] \<notin> set s \<and> (tls t \<noteq> None \<longrightarrow> recorded (concat s))) \<and>
     (case decrypt t of None \<Rightarrow> True | Some a \<Rightarrow> cipher_ok a)"

text \<open>The connection reads exactly through all its layers.\<close>

lemma tcp_raw_read:
  assumes "tcp_good t" "n \<le> length (raw_pending t)" "reader t = Some s"
  shows "\<exists>t'. (case tls t of
                None \<Rightarrow> (let (d, s') = recv_from_socket (int n) s in Inr (d, t\<lparr>reader := Some s'\<rparr>))
              | Some r \<Rightarrow> bindR (records_recv (int n) (r, s)) (\<lambda>(d, r', s').
                  Inr (d, t\<lparr>tls := Some r', reader := Some s'\<rparr>))) = Inr (Some (take n (raw_pending t)), t') \<and>
    decrypt t' = decrypt t \<and> tcp_good t' \<and> raw_pending t' = drop n (raw_pending t)"
proof (cases "tls t")
  case None
  then show ?thesis
    using assms socket_reader.read_exact [of s n]
    by (auto simp: tcp_good_def raw_pending_def socket_recv_def)
next
  case (Some r)
  then obtain rs' where rs': "records_recv (int n) (r, s) = Inr (Some (take n (buffer r @ unrecord (concat s))), rs')"
    "case rs' of (r, s) \<Rightarrow> [] \<notin> set s \<and> recorded (concat s)"
    "(case rs' of (r, s) \<Rightarrow> buffer r @ unrecord (concat s)) = drop n (buffer r @ unrecord (concat s))"
    using assms records_reader.read_exact [of "(r, s)" n] by (auto simp: tcp_good_def raw_pending_def)
  obtain r' s' where "rs' = (r', s')" by fastforce
  with rs' Some assms show ?thesis
    by (auto simp: tcp_good_def raw_pending_def)
qed

lemma tcp_exact_reader:
  assumes "aes_law c"
  shows "exact_reader (tcp_recv c) (tcp_pending c) tcp_good"
proof
  fix t n assume g: "tcp_good t" and n: "n \<le> length (tcp_pending c t)"
  then obtain s where s: "reader t = Some s" by (auto simp: tcp_good_def split: option.splits)
  have n': "n \<le> length (raw_pending t)" using n by (auto simp: tcp_pending_def split: option.splits)
  from tcp_raw_read [OF g n' s] obtain t' where
    t': "(case tls t of
                None \<Rightarrow> (let (d, s') = recv_from_socket (int n) s in Inr (d, t\<lparr>reader := Some s'\<rparr>))
              | Some r \<Rightarrow> bindR (records_recv (int n) (r, s)) (\<lambda>(d, r', s').
                  Inr (d, t\<lparr>tls := Some r', reader := Some s'\<rparr>))) = Inr (Some (take n (raw_pending t)), t')"
    "decrypt t' = decrypt t" "tcp_good t'" "raw_pending t' = drop n (raw_pending t)" by blast
  show "\<exists>t'. tcp_recv c (int n) t = Inr (Some (take n (tcp_pending c t)), t') \<and> tcp_good t' \<and>
      tcp_pending c t' = drop n (tcp_pending c t)"
  proof (cases "decrypt t")
    case None
    with t' s show ?thesis by (intro exI [of _ t']) (simp add: tcp_recv_def tcp_pending_def)
  next
    case (Some a)
    then have a: "cipher_ok a" using g by (simp add: tcp_good_def)
    let ?t = "t'\<lparr>decrypt := Some (advance n a)\<rparr>"
    have l: "length (take n (raw_pending t)) = n" using n' by simp
    have "tcp_recv c (int n) t = Inr (Some (stream_of c a (take n (raw_pending t))), ?t)"
      using t' s Some ctr_decrypt_eq [OF assms a] l by (simp add: tcp_recv_def)
    moreover have "tcp_good ?t" using t'(3) a by (auto simp: tcp_good_def split: option.splits)
    moreover have "raw_pending ?t = raw_pending t'" by (simp add: raw_pending_def split: option.splits)
    ultimately show ?thesis
      using t'(4) Some n' by (intro exI [of _ ?t]) (simp add: tcp_pending_def stream_of_take_drop)
  qed
qed

text \<open>Several sends in a row.\<close>

fun tcp_send_all :: "aes \<Rightarrow> bytes list \<Rightarrow> tcp \<Rightarrow> tcp res" where
  "tcp_send_all c [] t = Inr t"
| "tcp_send_all c (d # ds) t = bindR (tcp_send c d True t) (tcp_send_all c ds)"

definition can_send :: "tcp \<Rightarrow> bool" where
  "can_send t \<longleftrightarrow> writer_open t \<and> marker t"

definition settled :: "tcp \<Rightarrow> bool" where
  "settled t \<longleftrightarrow> (case tls t of None \<Rightarrow> True | Some r \<Rightarrow> prologue r = [] \<and> sent_change_cipher_spec r)"

definition wire_of :: "tcp \<Rightarrow> bytes \<Rightarrow> bytes" where
  "wire_of t d = (case tls t of None \<Rightarrow> d | Some _ \<Rightarrow> concat (map tls_record (chunks MAX_RECORD_PAYLOAD d)))"

lemma tcp_send_step:
  assumes "aes_law c" "can_send t" "settled t" "encrypt t = Some a" "cipher_ok a"
  shows "\<exists>t'. tcp_send c d True t = Inr t' \<and> can_send t' \<and> settled t' \<and>
    encrypt t' = Some (advance (length d) a) \<and> (tls t' = None \<longleftrightarrow> tls t = None) \<and>
    written t' = written t @ wire_of t (stream_of c a d)"
  using assms
  by (auto simp: tcp_send_def can_send_def ctr_encrypt_eq settled_def wrap_def wire_of_def split: option.splits)

lemma tcp_send_all_steps:
  "aes_law c \<Longrightarrow> can_send t \<Longrightarrow> settled t \<Longrightarrow> encrypt t = Some a \<Longrightarrow> cipher_ok a \<Longrightarrow>
   \<exists>t' ws. tcp_send_all c ds t = Inr t' \<and> concat ws = stream_of c a (concat ds) \<and>
     written t' = written t @ concat (map (wire_of t) ws)"
proof (induction ds arbitrary: t a)
  case Nil
  have "stream_of c a [] = []" by (metis length_0_conv length_stream_of list.size(3))
  then show ?case by (intro exI [of _ t] exI [of _ "[]"]) simp
next
  case (Cons d ds)
  from tcp_send_step [OF Cons.prems, of d] obtain t1 where
    t1: "tcp_send c d True t = Inr t1" "can_send t1" "settled t1" "encrypt t1 = Some (advance (length d) a)"
    "tls t1 = None \<longleftrightarrow> tls t = None" "written t1 = written t @ wire_of t (stream_of c a d)" by (elim exE conjE)
  have w: "wire_of t1 = wire_of t" using t1(5) by (auto simp: wire_of_def fun_eq_iff split: option.splits)
  from Cons.IH [OF Cons.prems(1) t1(2-4) cipher_ok_advance [OF Cons.prems(5)]] obtain t' ws where
    "tcp_send_all c ds t1 = Inr t'" "concat ws = stream_of c (advance (length d) a) (concat ds)"
    "written t' = written t1 @ concat (map (wire_of t1) ws)" by blast
  with t1(1,6) w have "tcp_send_all c (d # ds) t = Inr t'"
    "concat (stream_of c a d # ws) = stream_of c a (concat (d # ds))"
    "written t' = written t @ concat (map (wire_of t) (stream_of c a d # ws))"
    by (simp_all add: stream_of_append)
  then show ?case by blast
qed

lemma unrecord_wires:
  "unrecord (concat (map (\<lambda>d. concat (map tls_record (chunks MAX_RECORD_PAYLOAD d))) ws)) = concat ws"
  "recorded (concat (map (\<lambda>d. concat (map tls_record (chunks MAX_RECORD_PAYLOAD d))) ws))"
proof -
  let ?ps = "concat (map (chunks MAX_RECORD_PAYLOAD) ws)"
  have e: "concat (map (\<lambda>d. concat (map tls_record (chunks MAX_RECORD_PAYLOAD d))) ws) = concat (map tls_record ?ps)"
    by (induction ws) auto
  have l: "\<forall>p \<in> set ?ps. length p < 65536"
    using chunks_lengths [of MAX_RECORD_PAYLOAD] by (fastforce simp: MAX_RECORD_PAYLOAD_def)
  have "concat ?ps = concat ws"
    by (induction ws) (simp_all add: MAX_RECORD_PAYLOAD_def)
  with unrecord_concat [OF l] show "unrecord (concat (map (\<lambda>d. concat (map tls_record (chunks MAX_RECORD_PAYLOAD d))) ws)) = concat ws"
    by (simp only: e)
  show "recorded (concat (map (\<lambda>d. concat (map tls_record (chunks MAX_RECORD_PAYLOAD d))) ws))"
    using l unfolding e recorded_def by blast
qed

lemma sent_is_pending:
  assumes law: "aes_law c" and t: "can_send t" "settled t" "encrypt t = Some a" "cipher_ok a"
    and s: "tcp_send_all c ds t = Inr t'" "written t' = written t @ w"
    and u: "reader u = Some pieces" "[] \<notin> set pieces" "concat pieces = w" "decrypt u = Some a"
      "case tls u of None \<Rightarrow> tls t = None | Some q \<Rightarrow> tls t \<noteq> None \<and> buffer q = []"
  shows "tcp_good u \<and> tcp_pending c u = concat ds"
proof -
  from tcp_send_all_steps [OF law t, of ds] s obtain ws where
    ws: "concat ws = stream_of c a (concat ds)" "w = concat (map (wire_of t) ws)" by auto
  show ?thesis
  proof (cases "tls t = None")
    case True
    then have "wire_of t = (\<lambda>d. d)" by (simp add: wire_of_def fun_eq_iff)
    then have "w = concat ws" using ws(2) by simp
    with True u t(4) ws(1) show ?thesis
      by (auto simp: tcp_good_def tcp_pending_def raw_pending_def split: option.splits)
  next
    case False
    then have "wire_of t = (\<lambda>d. concat (map tls_record (chunks MAX_RECORD_PAYLOAD d)))"
      by (auto simp: wire_of_def fun_eq_iff)
    with ws(2) have "w = concat (map (\<lambda>d. concat (map tls_record (chunks MAX_RECORD_PAYLOAD d))) ws)"
      by simp
    with unrecord_wires [of ws] have "unrecord w = concat ws" "recorded w" by simp_all
    with False u t(4) ws(1) show ?thesis
      by (auto simp: tcp_good_def tcp_pending_def raw_pending_def split: option.splits)
  qed
qed

section \<open>The obfuscated2 header\<close>

definition ABRIDGED_OBFUSCATE_TAG :: bytes where "ABRIDGED_OBFUSCATE_TAG = replicate 4 0xEF"
definition INTERMEDIATE_PADDED_OBFUSCATE_TAG :: bytes where
  "INTERMEDIATE_PADDED_OBFUSCATE_TAG = replicate 4 0xDD"
definition OBFUSCATE_TAG_SIZE :: nat where "OBFUSCATE_TAG_SIZE = 4"
definition OBFUSCATED2_SECRET_SIZE :: nat where "OBFUSCATED2_SECRET_SIZE = 16"
definition MARKED_SECRET_SIZE :: nat where "MARKED_SECRET_SIZE = OBFUSCATED2_SECRET_SIZE + 1"

definition OBFUSCATED2_RESERVED_PREFIXES :: "bytes list" where
  "OBFUSCATED2_RESERVED_PREFIXES =
     [[0x48, 0x45, 0x41, 0x44], [0x50, 0x4F, 0x53, 0x54], [0x47, 0x45, 0x54, 0x20],
      [0x4F, 0x50, 0x54, 0x49], replicate 4 0xDD, replicate 4 0xEE, [0x16, 0x03, 0x01, 0x02]]"

definition nonce_ok :: "bytes list \<Rightarrow> bytes \<Rightarrow> bool" where
  "nonce_ok reserved_prefixes nonce \<longleftrightarrow>
     hd nonce \<noteq> 0xEF \<and> take 4 nonce \<notin> set reserved_prefixes \<and> pyslice 4 8 nonce \<noteq> replicate 4 0"

text \<open>The loop over \<open>os.urandom(64)\<close>, over the draws it would make; \<open>None\<close> while no draw
  was acceptable.\<close>

fun generate_obfuscated2_nonce :: "bytes list \<Rightarrow> bytes list \<Rightarrow> bytes option" where
  "generate_obfuscated2_nonce reserved_prefixes [] = None"
| "generate_obfuscated2_nonce reserved_prefixes (nonce # draws) =
     (if nonce_ok reserved_prefixes nonce then Some nonce
      else generate_obfuscated2_nonce reserved_prefixes draws)"

definition finalize_obfuscated2_tag :: "aes \<Rightarrow> bytes \<Rightarrow> cipher_args \<Rightarrow> (bytes \<times> cipher_args) res" where
  "finalize_obfuscated2_tag c nonce enc =
     bindR (ctr_encrypt c nonce enc) (\<lambda>(out, enc'). Inr (pyslice 56 64 out, enc'))"

record obfuscated2_header =
  hdr :: bytes
  hdr_encrypt :: cipher_args
  hdr_decrypt :: cipher_args

text \<open>\<open>nonce\<close> is the result of \<open>generate_obfuscated2_nonce()\<close>.\<close>

definition build_obfuscated2_header ::
    "aes \<Rightarrow> (bytes \<Rightarrow> bytes) \<Rightarrow> bytes \<Rightarrow> bytes \<Rightarrow> int \<Rightarrow> bytes \<Rightarrow> obfuscated2_header res" where
  "build_obfuscated2_header c sha nonce secret dc_id obfuscate_tag =
     bindR (checkR (length secret = OBFUSCATED2_SECRET_SIZE) ValueError) (\<lambda>_.
     bindR (checkR (length obfuscate_tag = OBFUSCATE_TAG_SIZE) ValueError) (\<lambda>_.
     let reversed_tail = rev (pyslice 8 56 nonce);
         enc = \<lparr>ckey = sha (pyslice 8 40 nonce @ secret), civ = pyslice 40 56 nonce, cpos = 0\<rparr>;
         dec = \<lparr>ckey = sha (pyslice 0 32 reversed_tail @ secret), civ = pyslice 32 48 reversed_tail, cpos = 0\<rparr>
     in bindR (to_bytes_le 2 True dc_id) (\<lambda>dc.
        let nonce = take 56 nonce @ obfuscate_tag @ dc @ drop 62 nonce
        in bindR (finalize_obfuscated2_tag c nonce enc) (\<lambda>(tail, enc').
           Inr \<lparr>hdr = take 56 nonce @ tail @ drop 64 nonce, hdr_encrypt = enc', hdr_decrypt = dec\<rparr>))))"

text \<open>\<open>TCP._obfuscated2_secret\<close>; \<open>pads\<close> is \<open>uses_random_padding(self.proxy)\<close> and \<open>tag\<close>
  the class attribute \<open>OBFUSCATE_TAG\<close>.\<close>

definition obfuscated2_secret :: "int option \<Rightarrow> bytes option \<Rightarrow> bool \<Rightarrow> bytes \<Rightarrow> bytes res" where
  "obfuscated2_secret dc_id tag pads secret =
     (if dc_id = None then Inl ValueError
      else if tag = None \<or> tag = Some [] then Inl ValueError
      else if pads \<and> tag \<noteq> Some INTERMEDIATE_PADDED_OBFUSCATE_TAG then Inl ValueError
      else if length secret = MARKED_SECRET_SIZE then Inr (drop 1 secret)
      else Inr secret)"

text \<open>\<open>TCP._read_greeting_response\<close>.\<close>

fun read_greeting_segments :: "bytes list \<Rightarrow> socket \<Rightarrow> (bytes \<times> socket) res" where
  "read_greeting_segments [] s = Inr ([], s)"
| "read_greeting_segments (prefix # ps) s =
     (case recv_from_socket (int (length prefix + RECORD_LENGTH_SIZE)) s of
        (None, _) \<Rightarrow> Inl OSError
      | (Some head, s1) \<Rightarrow>
          if take (length prefix) head \<noteq> prefix then Inl OSError
          else (case recv_from_socket (be_int (drop (length head - RECORD_LENGTH_SIZE) head)) s1 of
                  (None, _) \<Rightarrow> Inl OSError
                | (Some bd, s2) \<Rightarrow>
                    bindR (read_greeting_segments ps s2) (\<lambda>(r, s3). Inr (head @ bd @ r, s3))))"

definition read_greeting_response :: "socket \<Rightarrow> (bytes \<times> socket) res" where
  "read_greeting_response s = read_greeting_segments GREETING_RESPONSE_PREFIXES s"

lemma generate_nonce_ok:
  "generate_obfuscated2_nonce r draws = Some n \<Longrightarrow> nonce_ok r n \<and> n \<in> set draws"
  by (induction r draws rule: generate_obfuscated2_nonce.induct) (auto split: if_splits)

lemma generate_nonce_complete:
  "\<exists>n \<in> set draws. nonce_ok r n \<Longrightarrow> generate_obfuscated2_nonce r draws \<noteq> None"
  by (induction r draws rule: generate_obfuscated2_nonce.induct) auto

section \<open>Properties\<close>


definition plain_tcp :: tcp where
  "plain_tcp = \<lparr>reader = None, writer_open = True, written = [], marker = True, tls = None,
     encrypt = Some \<lparr>ckey = replicate 32 1, civ = replicate 16 0, cpos = 0\<rparr>, decrypt = None\<rparr>"


lemma header_opens:
  assumes law: "aes_law c" "\<And>x. length (sha x) = 32"
    and l: "length nonce = 64" "length secret = 16" "length tag = 4" "in_range True 2 dc_id"
  shows "\<exists>h plain. build_obfuscated2_header c sha nonce secret dc_id tag = Inr h \<and>
    length (hdr h) = 64 \<and> take 56 (hdr h) = take 56 nonce \<and>
    ctr_decrypt c (hdr h) \<lparr>ckey = sha (pyslice 8 40 (hdr h) @ secret), civ = pyslice 40 56 (hdr h), cpos = 0\<rparr>
      = Inr (plain, hdr_encrypt h) \<and>
    pyslice 56 60 plain = tag \<and> from_bytes_le True (pyslice 60 62 plain) = dc_id"
proof -
  define k where "k = \<lparr>ckey = sha (pyslice 8 40 nonce @ secret), civ = pyslice 40 56 nonce, cpos = 0\<rparr>"
  define x where "x = take 56 nonce"
  define y where "y = tag @ le_bytes 2 dc_id @ drop 62 nonce"
  have k: "cipher_ok k" using law(2) l(1) by (simp add: cipher_ok_def k_def)
  have len: "length x = 56" "length y = 8" using l by (simp_all add: x_def y_def)
  let ?z = "stream_of c (advance 56 k) y"
  define h where "h = \<lparr>hdr = x @ ?z, hdr_encrypt = advance 64 k, hdr_decrypt =
      \<lparr>ckey = sha (pyslice 0 32 (rev (pyslice 8 56 nonce)) @ secret),
       civ = pyslice 32 48 (rev (pyslice 8 56 nonce)), cpos = 0\<rparr>\<rparr>"
  have st: "stream_of c k (x @ y) = stream_of c k x @ ?z" "stream_of c k (x @ ?z) = stream_of c k x @ y"
    by (simp_all add: stream_of_append len)
  have f: "finalize_obfuscated2_tag c (x @ y) k = Inr (?z, advance 64 k)"
    using ctr_encrypt_eq [OF law(1) k, of "x @ y"] st(1) len by (simp add: finalize_obfuscated2_tag_def pyslice_def)
  have "build_obfuscated2_header c sha nonce secret dc_id tag = Inr h"
    using l f len by (simp add: build_obfuscated2_header_def OBFUSCATED2_SECRET_SIZE_def OBFUSCATE_TAG_SIZE_def
        to_bytes_le_def Let_def k_def [symmetric] x_def y_def h_def)
  moreover have "pyslice 8 40 (hdr h) = pyslice 8 40 nonce" "pyslice 40 56 (hdr h) = pyslice 40 56 nonce"
    using l(1) by (simp_all add: h_def x_def pyslice_def drop_take)
  moreover have "ctr_decrypt c (hdr h) k = Inr (stream_of c k x @ y, hdr_encrypt h)"
    using ctr_decrypt_eq [OF law(1) k, of "x @ ?z"] st(2) len by (simp add: h_def)
  moreover have "pyslice 56 60 (stream_of c k x @ y) = tag"
    "from_bytes_le True (pyslice 60 62 (stream_of c k x @ y)) = dc_id"
    using l len from_bytes_le_le_bytes [OF l(4)] by (simp_all add: pyslice_def y_def)
  moreover have "length (hdr h) = 64" "take 56 (hdr h) = take 56 nonce"
    using len by (simp_all add: h_def x_def)
  ultimately show ?thesis
    by (intro exI [of _ h] exI [of _ "stream_of c k x @ y"]) (simp add: k_def)
qed

text \<open>
  The obfuscated2 header lets its receiver set up the same cipher: it is 64 bytes
  and keeps the first 56 of the nonce; the key derived from its bytes 8 to 40 and the
  secret, with bytes 40 to 56 as counter, decrypts it to the framing tag at 56 and the
  data-centre id at 60; and the cipher state that leaves is the one the sender goes on
  with.
\<close>

lemma obfuscated2_header_opens:
  assumes law: "aes_law c" "\<And>x. length (sha x) = 32"
    and l: "length nonce = 64" "length secret = 16" "length tag = 4" "in_range True 2 dc_id"
  shows "\<exists>h plain. build_obfuscated2_header c sha nonce secret dc_id tag = Inr h \<and>
    length (hdr h) = 64 \<and> take 56 (hdr h) = take 56 nonce \<and>
    ctr_decrypt c (hdr h) \<lparr>ckey = sha (pyslice 8 40 (hdr h) @ secret), civ = pyslice 40 56 (hdr h), cpos = 0\<rparr>
      = Inr (plain, hdr_encrypt h) \<and>
    pyslice 56 60 plain = tag \<and> from_bytes_le True (pyslice 60 62 plain) = dc_id"
  by (rule header_opens [OF law l])

end
