(* ===== verification/Framing.thy ===== *)
theory Framing
  imports Tcp
begin

text \<open>
  The packet framings on top of \<open>TCP\<close>: \<open>tcp_abridged.py\<close>, \<open>tcp_intermediate.py\<close>,
  \<open>tcp_intermediate_padded.py\<close>, \<open>tcp_full.py\<close> and the two obfuscated variants
  \<open>tcp_abridged_o.py\<close> and \<open>tcp_intermediate_o.py\<close>.  A \<open>recv\<close> is written over the
  \<open>recv\<close> of the layer below, a \<open>send\<close> as the bytes it hands to the layer below.
\<close>

type_synonym 's read = "int \<Rightarrow> 's \<Rightarrow> (bytes option \<times> 's) res"

text \<open>\<open>x = await super().recv(n); if x is None: return None\<close>.\<close>

definition then_recv :: "(bytes option \<times> 's) res \<Rightarrow> (bytes \<Rightarrow> 's \<Rightarrow> (bytes option \<times> 's) res) \<Rightarrow> (bytes option \<times> 's) res" where
  "then_recv r f = bindR r (\<lambda>(x, s). case x of None \<Rightarrow> Inr (None, s) | Some b \<Rightarrow> f b s)"

lemma then_recv_Some [simp]: "then_recv (Inr (Some b, s)) f = f b s"
  by (simp add: then_recv_def)

section \<open>Abridged\<close>

definition abridged_header :: "bytes \<Rightarrow> bytes res" where
  "abridged_header data =
     (let n = int (length data) div 4
      in if n \<le> 126 then Inr [word_of_int n] else bindR (to_bytes_le 3 False n) (\<lambda>l. Inr (0x7F # l)))"

definition TCPAbridged_send :: "bytes \<Rightarrow> bytes res" where
  "TCPAbridged_send data = bindR (abridged_header data) (\<lambda>h. Inr (h @ data))"

definition TCPAbridged_recv :: "'s read \<Rightarrow> 's \<Rightarrow> (bytes option \<times> 's) res" where
  "TCPAbridged_recv rd s =
     then_recv (rd 1 s) (\<lambda>l s1.
       if l = [0x7F] then then_recv (rd 3 s1) (\<lambda>l s2. rd (le_int l * 4) s2)
       else rd (le_int l * 4) s1)"

section \<open>Intermediate\<close>

text \<open>\<open>struct.pack("<i", n)\<close> and \<open>struct.unpack("<i", b)\<close>.\<close>

definition pack_i :: "int \<Rightarrow> bytes res" where
  "pack_i n = (if in_range True 4 n then Inr (le_bytes 4 n) else Inl StructError)"

definition unpack_i :: "bytes \<Rightarrow> int res" where
  "unpack_i b = (if length b = 4 then Inr (from_bytes_le True b) else Inl StructError)"

definition TCPIntermediate_send :: "bytes \<Rightarrow> bytes res" where
  "TCPIntermediate_send data = bindR (pack_i (int (length data))) (\<lambda>h. Inr (h @ data))"

definition TCPIntermediate_recv :: "'s read \<Rightarrow> 's \<Rightarrow> (bytes option \<times> 's) res" where
  "TCPIntermediate_recv rd s = then_recv (rd 4 s) (\<lambda>l s1. bindR (unpack_i l) (\<lambda>n. rd n s1))"

section \<open>Padded intermediate\<close>

text \<open>\<open>padding\<close> is what \<open>os.urandom(os.urandom(1)[0] & 0x0F)\<close> returned.\<close>

definition TCPIntermediatePadded_send :: "bytes \<Rightarrow> bytes \<Rightarrow> bytes res" where
  "TCPIntermediatePadded_send padding data =
     bindR (pack_i (int (length data) + int (length padding))) (\<lambda>h. Inr (h @ data @ padding))"

definition strip_padding :: "int \<Rightarrow> bytes \<Rightarrow> bytes" where
  "strip_padding n data =
     (if n < 24 then (if n \<ge> 8 \<and> take 4 data = replicate 4 0xFF then take 8 data else take 4 data)
      else if take 8 data \<noteq> replicate 8 0
      then (let strip = (n - 24) mod 16
            in if strip \<noteq> 0 then take (length data - nat strip) data else data)
      else data)"

definition TCPIntermediatePadded_recv :: "'s read \<Rightarrow> 's \<Rightarrow> (bytes option \<times> 's) res" where
  "TCPIntermediatePadded_recv rd s =
     then_recv (rd 4 s) (\<lambda>l s1. bindR (unpack_i l) (\<lambda>n.
       then_recv (rd n s1) (\<lambda>data s2. Inr (Some (strip_padding n data), s2))))"

section \<open>Full\<close>

text \<open>\<open>struct.pack("<I", n)\<close>; \<open>crc32\<close> is the parameter \<open>crc\<close>.\<close>

definition pack_I :: "int \<Rightarrow> bytes res" where
  "pack_I n = (if in_range False 4 n then Inr (le_bytes 4 n) else Inl StructError)"

definition TCPFull_send :: "(bytes \<Rightarrow> int) \<Rightarrow> bytes \<Rightarrow> int \<Rightarrow> (bytes \<times> int) res" where
  "TCPFull_send crc data seq =
     bindR (pack_I (int (length data) + 12)) (\<lambda>l.
     bindR (pack_I seq) (\<lambda>q.
       let d = l @ q @ data
       in bindR (pack_I (crc d)) (\<lambda>e. Inr (d @ e, seq + 1))))"

definition TCPFull_recv :: "(bytes \<Rightarrow> int) \<Rightarrow> 's read \<Rightarrow> 's \<Rightarrow> (bytes option \<times> 's) res" where
  "TCPFull_recv crc rd s =
     then_recv (rd 4 s) (\<lambda>length_bytes s1.
     then_recv (rd (le_int length_bytes - 4) s1) (\<lambda>packet s2.
       let packet = length_bytes @ packet;
           checksum = drop (length packet - 4) packet;
           packet = take (length packet - 4) packet
       in if crc packet \<noteq> le_int checksum then Inr (None, s2) else Inr (Some (drop 8 packet), s2)))"

section \<open>The obfuscated variants\<close>

text \<open>\<open>aes.ctr256_decrypt(x, *self.decrypt)\<close> with the cipher arguments threaded.\<close>

definition TCPAbridgedO_send :: "aes \<Rightarrow> bytes \<Rightarrow> cipher_args \<Rightarrow> (bytes \<times> cipher_args) res" where
  "TCPAbridgedO_send c data a = bindR (abridged_header data) (\<lambda>h. ctr_encrypt c (h @ data) a)"

definition TCPAbridgedO_recv ::
    "aes \<Rightarrow> 's read \<Rightarrow> cipher_args \<times> 's \<Rightarrow> (bytes option \<times> (cipher_args \<times> 's)) res" where
  "TCPAbridgedO_recv c rd as =
     (case as of (a, s) \<Rightarrow>
       bindR (rd 1 s) (\<lambda>(l, s1). case l of None \<Rightarrow> Inr (None, a, s1) | Some l \<Rightarrow>
       bindR (ctr_decrypt c l a) (\<lambda>(l, a1).
         let finish = (\<lambda>l a s. bindR (rd (le_int l * 4) s) (\<lambda>(d, s'). case d of None \<Rightarrow> Inr (None, a, s')
               | Some d \<Rightarrow> bindR (ctr_decrypt c d a) (\<lambda>(d, a'). Inr (Some d, a', s'))))
         in if l = [0x7F]
            then bindR (rd 3 s1) (\<lambda>(l, s2). case l of None \<Rightarrow> Inr (None, a1, s2) | Some l \<Rightarrow>
                 bindR (ctr_decrypt c l a1) (\<lambda>(l, a2). finish l a2 s2))
            else finish l a1 s1)))"

definition TCPIntermediateO_send :: "aes \<Rightarrow> bytes \<Rightarrow> cipher_args \<Rightarrow> (bytes \<times> cipher_args) res" where
  "TCPIntermediateO_send c data a = bindR (pack_i (int (length data))) (\<lambda>h. ctr_encrypt c (h @ data) a)"

definition TCPIntermediateO_recv ::
    "aes \<Rightarrow> 's read \<Rightarrow> cipher_args \<times> 's \<Rightarrow> (bytes option \<times> (cipher_args \<times> 's)) res" where
  "TCPIntermediateO_recv c rd as =
     (case as of (a, s) \<Rightarrow>
       bindR (rd 4 s) (\<lambda>(l, s1). case l of None \<Rightarrow> Inr (None, a, s1) | Some l \<Rightarrow>
       bindR (ctr_decrypt c l a) (\<lambda>(l, a1).
       bindR (unpack_i l) (\<lambda>n.
       bindR (rd n s1) (\<lambda>(d, s2). case d of None \<Rightarrow> Inr (None, a1, s2)
         | Some d \<Rightarrow> bindR (ctr_decrypt c d a1) (\<lambda>(d, a2). Inr (Some d, a2, s2)))))))"

text \<open>The nonce of \<open>TCPIntermediateO.connect\<close> has its own list of reserved prefixes and
  its own tag; the rest of the two \<open>connect\<close>s is the same.\<close>

definition INTERMEDIATE_O_RESERVED :: "bytes list" where
  "INTERMEDIATE_O_RESERVED =
     [[0x48, 0x45, 0x41, 0x44], [0x50, 0x4F, 0x53, 0x54], [0x47, 0x45, 0x54, 0x20],
      [0x4F, 0x50, 0x54, 0x49], replicate 4 0xEE]"

definition connect_o :: "aes \<Rightarrow> bytes \<Rightarrow> bytes \<Rightarrow> (bytes \<times> cipher_args \<times> cipher_args) res" where
  "connect_o c tag nonce0 =
     (let nonce = take 56 nonce0 @ tag @ drop 60 nonce0;
          temp = rev (pyslice 8 56 nonce);
          enc = \<lparr>ckey = pyslice 8 40 nonce, civ = pyslice 40 56 nonce, cpos = 0\<rparr>;
          dec = \<lparr>ckey = pyslice 0 32 temp, civ = pyslice 32 48 temp, cpos = 0\<rparr>
      in bindR (finalize_obfuscated2_tag c nonce enc) (\<lambda>(tail, enc').
           Inr (take 56 nonce @ tail, enc', dec)))"

section \<open>What a framing promises\<close>

text \<open>
  A framing over a reader: \<open>frame p w\<close> says that \<open>w\<close> is a way to send the packet \<open>p\<close>.
  The receiver gets \<open>p\<close> back and leaves exactly what follows.
\<close>

locale framing = exact_reader rd pending good
  for rd :: "int \<Rightarrow> 's \<Rightarrow> (bytes option \<times> 's) res" and pending :: "'s \<Rightarrow> bytes" and good :: "'s \<Rightarrow> bool" +
  fixes frame :: "bytes \<Rightarrow> bytes \<Rightarrow> bool"
    and recv :: "'s \<Rightarrow> (bytes option \<times> 's) res"
  assumes recv_frame: "good s \<Longrightarrow> frame p w \<Longrightarrow> pending s = w @ ys \<Longrightarrow>
    \<exists>s'. recv s = Inr (Some p, s') \<and> good s' \<and> pending s' = ys"
begin

text \<open>Packets sent one after the other arrive one after the other.\<close>

primrec recv_many :: "nat \<Rightarrow> 's \<Rightarrow> (bytes option list \<times> 's) res" where
  "recv_many 0 s = Inr ([], s)"
| "recv_many (Suc n) s = bindR (recv s) (\<lambda>(p, s1). bindR (recv_many n s1) (\<lambda>(ps, s2). Inr (p # ps, s2)))"

lemma recv_many_frames:
  "good s \<Longrightarrow> list_all2 frame ps ws \<Longrightarrow> pending s = concat ws @ ys \<Longrightarrow>
   \<exists>s'. recv_many (length ps) s = Inr (map Some ps, s') \<and> good s' \<and> pending s' = ys"
proof (induction ps arbitrary: ws s)
  case Nil
  then show ?case by simp
next
  case (Cons p ps)
  then obtain w ws' where ws: "ws = w # ws'" "frame p w" "list_all2 frame ps ws'"
    by (auto simp: list_all2_Cons1)
  from recv_frame [OF Cons.prems(1) ws(2), of "concat ws' @ ys"] Cons.prems(3) ws(1) obtain s1 where
    s1: "recv s = Inr (Some p, s1)" "good s1" "pending s1 = concat ws' @ ys" by auto
  from Cons.IH [OF s1(2) ws(3) s1(3)] s1(1) show ?case by auto
qed

end

lemma pack_i_length: "pack_i n = Inr h \<Longrightarrow> length h = 4 \<and> unpack_i h = Inr n"
  by (auto simp: pack_i_def unpack_i_def from_bytes_le_le_bytes split: if_splits)

lemma abridged_header_short: "int (length p) div 4 \<le> 126 \<Longrightarrow> abridged_header p = Inr [word_of_int (int (length p) div 4)]"
  by (simp add: abridged_header_def)

lemma abridged_header_long:
  "126 < int (length p) div 4 \<Longrightarrow> abridged_header p = Inr h \<Longrightarrow>
   h = 0x7F # le_bytes 3 (int (length p) div 4) \<and> in_range False 3 (int (length p) div 4)"
  by (auto simp: abridged_header_def to_bytes_le_def Let_def split: if_splits)

lemma word_of_int_127: "0 \<le> n \<Longrightarrow> n \<le> 126 \<Longrightarrow> (word_of_int n :: byte) \<noteq> 0x7F"
proof
  assume n: "0 \<le> n" "n \<le> 126" and e: "(word_of_int n :: byte) = 0x7F"
  from e have "uint (word_of_int n :: byte) = uint (0x7F :: byte)" by (rule arg_cong)
  with n show False unfolding uint_word_of_int_byte by simp
qed

context exact_reader
begin

lemma abridged_framing:
  "framing rd pending good (\<lambda>p w. 4 dvd length p \<and> TCPAbridged_send p = Inr w) (TCPAbridged_recv rd)"
proof (unfold_locales, elim conjE)
  fix s p w ys
  assume g: "good s" and d: "4 dvd length p" and t: "TCPAbridged_send p = Inr w" and r: "pending s = w @ ys"
  from t obtain h where h: "abridged_header p = Inr h" and w: "w = h @ p"
    by (auto simp: TCPAbridged_send_def res_simps)
  have q: "int (length p) div 4 * 4 = int (length p)" using d by presburger
  show "\<exists>s'. TCPAbridged_recv rd s = Inr (Some p, s') \<and> good s' \<and> pending s' = ys"
  proof (cases "int (length p) div 4 \<le> 126")
    case True
    then have h': "h = [word_of_int (int (length p) div 4)]" using h by (simp add: abridged_header_short)
    obtain s1 where s1: "rd 1 s = Inr (Some h, s1)" "good s1" "pending s1 = p @ ys"
      by (rule read_prefix [OF g, of h "p @ ys" 1]) (simp_all add: r w h')
    obtain s2 where s2: "rd (int (length p)) s1 = Inr (Some p, s2)" "good s2" "pending s2 = ys"
      by (rule read_prefix [OF s1(2,3)]) simp_all
    have "le_int h = int (length p) div 4"
      unfolding h' le_int.simps uint_word_of_int_byte using True by simp
    moreover have "h \<noteq> [0x7F]" using True word_of_int_127 [of "int (length p) div 4"] by (simp add: h')
    ultimately show ?thesis using s1(1) s2 q by (simp add: TCPAbridged_recv_def)
  next
    case False
    with h have h': "h = 0x7F # le_bytes 3 (int (length p) div 4)" "in_range False 3 (int (length p) div 4)"
      using abridged_header_long [of p h] by auto
    let ?l = "le_bytes 3 (int (length p) div 4)"
    obtain s1 where s1: "rd 1 s = Inr (Some [0x7F], s1)" "good s1" "pending s1 = ?l @ (p @ ys)"
      by (rule read_prefix [OF g, of "[0x7F]" "?l @ (p @ ys)" 1]) (simp_all add: r w h')
    obtain s2 where s2: "rd 3 s1 = Inr (Some ?l, s2)" "good s2" "pending s2 = p @ ys"
      by (rule read_prefix [OF s1(2,3)]) simp_all
    obtain s3 where s3: "rd (int (length p)) s2 = Inr (Some p, s3)" "good s3" "pending s3 = ys"
      by (rule read_prefix [OF s2(2,3)]) simp_all
    have "le_int ?l = int (length p) div 4" using h'(2) by (simp add: le_int_le_bytes in_range_def)
    with s1(1) s2(1) s3 q show ?thesis by (simp add: TCPAbridged_recv_def)
  qed
qed

lemma intermediate_framing:
  "framing rd pending good (\<lambda>p w. TCPIntermediate_send p = Inr w) (TCPIntermediate_recv rd)"
proof
  fix s p w ys
  assume g: "good s" and t: "TCPIntermediate_send p = Inr w" and r: "pending s = w @ ys"
  from t obtain h where h: "pack_i (int (length p)) = Inr h" and w: "w = h @ p"
    by (auto simp: TCPIntermediate_send_def res_simps)
  note h = pack_i_length [OF h]
  obtain s1 where s1: "rd 4 s = Inr (Some h, s1)" "good s1" "pending s1 = p @ ys"
    by (rule read_prefix [OF g, of h "p @ ys" 4]) (simp_all add: r w h)
  obtain s2 where "rd (int (length p)) s1 = Inr (Some p, s2)" "good s2" "pending s2 = ys"
    by (rule read_prefix [OF s1(2,3)]) simp_all
  with s1(1) h show "\<exists>s'. TCPIntermediate_recv rd s = Inr (Some p, s') \<and> good s' \<and> pending s' = ys"
    by (simp add: TCPIntermediate_recv_def)
qed

text \<open>An encrypted packet is 24 bytes of ids and whole blocks; its key id is not zero.\<close>

lemma padded_framing:
  "framing rd pending good
     (\<lambda>p w. 24 \<le> length p \<and> (length p - 24) mod 16 = 0 \<and> take 8 p \<noteq> replicate 8 0 \<and>
        (\<exists>padding. length padding < 16 \<and> TCPIntermediatePadded_send padding p = Inr w))
     (TCPIntermediatePadded_recv rd)"
proof (unfold_locales, elim conjE exE)
  fix s p w ys padding
  assume g: "good s" and p: "24 \<le> length p" "(length p - 24) mod 16 = 0" "take 8 p \<noteq> replicate 8 0"
    and pad: "length padding < 16" and t: "TCPIntermediatePadded_send padding p = Inr w"
    and r: "pending s = w @ ys"
  let ?d = "p @ padding"
  from t obtain h where h: "pack_i (int (length ?d)) = Inr h" and w: "w = h @ ?d"
    by (auto simp: TCPIntermediatePadded_send_def res_simps)
  note h = pack_i_length [OF h]
  obtain s1 where s1: "rd 4 s = Inr (Some h, s1)" "good s1" "pending s1 = ?d @ ys"
    by (rule read_prefix [OF g, of h "?d @ ys" 4]) (simp_all add: r w h)
  obtain s2 where s2: "rd (int (length ?d)) s1 = Inr (Some ?d, s2)" "good s2" "pending s2 = ys"
    by (rule read_prefix [OF s1(2,3)]) simp_all
  obtain k where k: "length p = 24 + 16 * k" using p(1,2) by (metis le_add_diff_inverse mod_eq_0_iff_dvd dvdE)
  have "(int (length ?d) - 24) mod 16 = int (length padding)" using pad by (simp add: k)
  then have "strip_padding (int (length ?d)) ?d = p"
    using p by (simp add: strip_padding_def Let_def k)
  with s1(1) s2 h show "\<exists>s'. TCPIntermediatePadded_recv rd s = Inr (Some p, s') \<and> good s' \<and> pending s' = ys"
    by (simp add: TCPIntermediatePadded_recv_def)
qed

lemma full_framing:
  "framing rd pending good (\<lambda>p w. \<exists>n n'. TCPFull_send crc p n = Inr (w, n')) (TCPFull_recv crc rd)"
proof (unfold_locales, elim exE)
  fix s p w ys n n'
  assume g: "good s" and t: "TCPFull_send crc p n = Inr (w, n')" and r: "pending s = w @ ys"
  from t obtain l q e where l: "pack_I (int (length p) + 12) = Inr l" and q: "pack_I n = Inr q"
    and e: "pack_I (crc (l @ q @ p)) = Inr e" and w: "w = l @ (q @ p @ e)"
    by (auto simp: TCPFull_send_def Let_def res_simps)
  have I: "length b = 4 \<and> le_int b = m" if "pack_I m = Inr b" for m b
    using that by (auto simp: pack_I_def in_range_def le_int_le_bytes split: if_splits)
  note l = I [OF l] and q = I [OF q] and e = I [OF e]
  obtain s1 where s1: "rd 4 s = Inr (Some l, s1)" "good s1" "pending s1 = (q @ p @ e) @ ys"
    by (rule read_prefix [OF g, of l "(q @ p @ e) @ ys" 4]) (simp_all add: r w l)
  obtain s2 where s2: "rd (le_int l - 4) s1 = Inr (Some (q @ p @ e), s2)" "good s2" "pending s2 = ys"
    by (rule read_prefix [OF s1(2,3)]) (simp_all add: l q e)
  have "take (length (l @ q @ p @ e) - 4) (l @ q @ p @ e) = l @ q @ p"
    "drop (length (l @ q @ p @ e) - 4) (l @ q @ p @ e) = e" using l q e by simp_all
  with s1(1) s2 e l q show "\<exists>s'. TCPFull_recv crc rd s = Inr (Some p, s') \<and> good s' \<and> pending s' = ys"
    by (simp add: TCPFull_recv_def Let_def)
qed

end

section \<open>The cipher as a layer\<close>

definition ctr_read :: "aes \<Rightarrow> 's read \<Rightarrow> int \<Rightarrow> cipher_args \<times> 's \<Rightarrow> (bytes option \<times> (cipher_args \<times> 's)) res" where
  "ctr_read c rd n as =
     (case as of (a, s) \<Rightarrow>
        bindR (rd n s) (\<lambda>(d, s1). case d of None \<Rightarrow> Inr (None, a, s1)
          | Some d \<Rightarrow> bindR (ctr_decrypt c d a) (\<lambda>(d, a'). Inr (Some d, a', s1))))"

text \<open>The cipher state is the initial one, advanced by what has been read.\<close>

definition in_step :: "('s \<Rightarrow> bytes) \<Rightarrow> ('s \<Rightarrow> bool) \<Rightarrow> nat \<Rightarrow> cipher_args \<Rightarrow> cipher_args \<times> 's \<Rightarrow> bool" where
  "in_step pending good len_all a0 as \<longleftrightarrow>
     (case as of (a, s) \<Rightarrow> good s \<and> length (pending s) \<le> len_all \<and> a = advance (len_all - length (pending s)) a0)"

lemma ctr_exact_reader:
  assumes "exact_reader rd pending good" "aes_law c" "cipher_ok a0"
  shows "exact_reader (ctr_read c rd) (\<lambda>(a, s). stream_of c a (pending s)) (in_step pending good len_all a0)"
proof
  fix as :: "cipher_args \<times> 'a" and n
  obtain a s where as: "as = (a, s)" by fastforce
  assume g: "in_step pending good len_all a0 as"
    and n: "n \<le> length (case as of (a, s) \<Rightarrow> stream_of c a (pending s))"
  then have g: "good s" and n': "n \<le> length (pending s)" and t: "length (pending s) \<le> len_all"
    and ad: "a = advance (len_all - length (pending s)) a0" by (simp_all add: as in_step_def)
  have a: "cipher_ok a" using ad assms(3) by simp
  from exact_reader.read_exact [OF assms(1) g n'] obtain s' where
    s': "rd (int n) s = Inr (Some (take n (pending s)), s')" "good s'" "pending s' = drop n (pending s)" by blast
  have "advance n a = advance (len_all - length (pending s')) a0"
    using ad t n' by (simp add: advance_advance s'(3))
  then have "in_step pending good len_all a0 (advance n a, s')"
    using s' t by (simp add: in_step_def)
  with s' show "\<exists>s'. ctr_read c rd (int n) as = Inr (Some (take n (case as of (a, s) \<Rightarrow> stream_of c a (pending s))), s') \<and>
      in_step pending good len_all a0 s' \<and>
      (case s' of (a, s) \<Rightarrow> stream_of c a (pending s)) = drop n (case as of (a, s) \<Rightarrow> stream_of c a (pending s))"
    using n' ctr_decrypt_eq [OF assms(2) a, of "take n (pending s)"]
    by (intro exI [of _ "(advance n a, s')"]) (simp add: as ctr_read_def stream_of_take_drop)
qed

text \<open>The obfuscated transports are the plain ones over that layer.\<close>

lemma abridged_o_layered: "TCPAbridgedO_recv c rd as = TCPAbridged_recv (ctr_read c rd) as"
  by (cases as)
    (simp add: TCPAbridgedO_recv_def TCPAbridged_recv_def ctr_read_def then_recv_def bindR_def Let_def
      split: sum.splits option.splits prod.splits)

lemma intermediate_o_layered: "TCPIntermediateO_recv c rd as = TCPIntermediate_recv (ctr_read c rd) as"
  by (cases as)
    (simp add: TCPIntermediateO_recv_def TCPIntermediate_recv_def ctr_read_def then_recv_def bindR_def
      split: sum.splits option.splits prod.splits)

section \<open>The framings over a plain socket\<close>

interpretation abridged_socket: framing socket_recv concat "\<lambda>s. [] \<notin> set s"
  "\<lambda>p w. 4 dvd length p \<and> TCPAbridged_send p = Inr w" "TCPAbridged_recv socket_recv"
  by (rule socket_reader.abridged_framing)

interpretation intermediate_socket: framing socket_recv concat "\<lambda>s. [] \<notin> set s"
  "\<lambda>p w. TCPIntermediate_send p = Inr w" "TCPIntermediate_recv socket_recv"
  by (rule socket_reader.intermediate_framing)

section \<open>Properties\<close>

text \<open>
  C21. The abridged transport over any of TCP's stacks (plain, fake-TLS records,
  obfuscated2 cipher) delivers a packet exactly: if the bytes to come begin with what
  \<open>send\<close> produced for a packet of whole 4-byte words, \<open>recv\<close> returns the packet and
  leaves what follows, whichever of the two length forms was used.
\<close>

theorem abridged_round_trip:
  assumes "aes_law c" "tcp_good t" "4 dvd length p" "TCPAbridged_send p = Inr w" "tcp_pending c t = w @ ys"
  shows "\<exists>t'. TCPAbridged_recv (tcp_recv c) t = Inr (Some p, t') \<and> tcp_good t' \<and> tcp_pending c t' = ys"
  using framing.recv_frame [OF exact_reader.abridged_framing [OF tcp_exact_reader [OF assms(1)]] assms(2)]
    assms(3-5) by blast

definition idle_tcp :: "bytes list \<Rightarrow> tcp" where
  "idle_tcp pieces = \<lparr>reader = Some pieces, writer_open = True, written = [], marker = True, tls = None,
     encrypt = None, decrypt = None\<rparr>"

lemma idle_tcp_simps [simp]:
  "[] \<notin> set pieces \<Longrightarrow> tcp_good (idle_tcp pieces)" "tcp_pending c (idle_tcp pieces) = concat pieces"
  by (simp_all add: tcp_good_def idle_tcp_def tcp_pending_def raw_pending_def)

theorem abridged_round_trip_witness:
  "\<exists>t'. TCPAbridged_recv (tcp_recv xor_aes) (idle_tcp [[1], [5, 6], [7, 8, 9]]) = Inr (Some [5, 6, 7, 8], t') \<and>
     tcp_pending xor_aes t' = [9]"
  using abridged_round_trip [OF xor_aes_law, of "idle_tcp [[1], [5, 6], [7, 8, 9]]" "[5, 6, 7, 8]" "[1, 5, 6, 7, 8]" "[9]"]
  by (auto simp: TCPAbridged_send_def abridged_header_def numeral_eq_Suc)

text \<open>
  The padded transport strips exactly the random padding: whatever 0 to 15 bytes
  \<open>send\<close> appended, an encrypted packet (24 bytes of ids with a key id that is not
  zero, then whole 16-byte blocks) comes back unchanged.
\<close>

lemma padded_round_trip:
  assumes "aes_law c" "tcp_good t" "24 \<le> length p" "(length p - 24) mod 16 = 0" "take 8 p \<noteq> replicate 8 0"
    "length padding < 16" "TCPIntermediatePadded_send padding p = Inr w" "tcp_pending c t = w @ ys"
  shows "\<exists>t'. TCPIntermediatePadded_recv (tcp_recv c) t = Inr (Some p, t') \<and> tcp_good t' \<and> tcp_pending c t' = ys"
  by (rule framing.recv_frame [OF exact_reader.padded_framing [OF tcp_exact_reader [OF assms(1)]] assms(2) _ assms(8)])
    (use assms(3-7) in blast)

text \<open>
  The full transport delivers a packet exactly, under any sequence number: the
  checksum over length, sequence number and packet matches at the receiver, which
  returns the packet, leaves what follows, and the sender counts on by one.
\<close>

lemma full_round_trip:
  assumes "aes_law c" "tcp_good t" "TCPFull_send crc p n = Inr (w, n')" "tcp_pending c t = w @ ys"
  shows "n' = n + 1 \<and>
    (\<exists>t'. TCPFull_recv crc (tcp_recv c) t = Inr (Some p, t') \<and> tcp_good t' \<and> tcp_pending c t' = ys)"
proof
  show "n' = n + 1" using assms(3) by (auto simp: TCPFull_send_def Let_def res_simps)
  show "\<exists>t'. TCPFull_recv crc (tcp_recv c) t = Inr (Some p, t') \<and> tcp_good t' \<and> tcp_pending c t' = ys"
    by (rule framing.recv_frame [OF exact_reader.full_framing [OF tcp_exact_reader [OF assms(1)]] assms(2) _ assms(4)])
      (use assms(3) in blast)
qed

text \<open>
  The obfuscated abridged transport delivers a packet over a plain connection: the
  receiver that starts from the sender's cipher state gets the packet back, and both
  go on from the same state.
\<close>

lemma abridged_o_round_trip:
  assumes "aes_law c" "cipher_ok a" "4 dvd length p" "TCPAbridgedO_send c p a = Inr (w, a')"
    "[] \<notin> set pieces" "concat pieces = w @ ys"
  shows "\<exists>s'. TCPAbridgedO_recv c socket_recv (a, pieces) = Inr (Some p, a', s') \<and> concat s' = ys"
proof -
  from assms(4) obtain h where h: "abridged_header p = Inr h"
    and e: "ctr_encrypt c (h @ p) a = Inr (w, a')" by (auto simp: TCPAbridgedO_send_def res_simps)
  have w: "w = stream_of c a (h @ p)" "a' = advance (length (h @ p)) a"
    using e ctr_encrypt_eq [OF assms(1,2)] by auto
  let ?T = "length (w @ ys)"
  have P: "stream_of c a (concat pieces) = (h @ p) @ stream_of c a' ys"
    using assms(6) w by (simp add: stream_of_append advance_advance)
  have S: "TCPAbridged_send p = Inr (h @ p)" using h by (simp add: TCPAbridged_send_def)
  have I: "in_step concat (\<lambda>s. [] \<notin> set s) ?T a (a, pieces)"
    using assms(5,6) by (simp add: in_step_def advance_def cipher_ok_def [THEN iffD1, OF assms(2)])
  note fr = exact_reader.abridged_framing [OF ctr_exact_reader [OF socket_reader.exact_reader_axioms assms(1,2)]]
  from framing.recv_frame [OF fr I, of p "h @ p" "stream_of c a' ys"] assms(3) P S
  obtain b s' where r: "TCPAbridged_recv (ctr_read c socket_recv) (a, pieces) = Inr (Some p, (b, s'))"
    "in_step concat (\<lambda>s. [] \<notin> set s) ?T a (b, s')" "stream_of c b (concat s') = stream_of c a' ys" by auto
  from r(3) have "length (concat s') = length ys" by (metis length_stream_of)
  with r(2) w have "b = a'" by (simp add: in_step_def)
  with r(3) have "concat s' = ys" by (metis stream_of_stream_of)
  with r(1) \<open>b = a'\<close> show ?thesis by (simp add: abridged_o_layered)
qed

end
