(* ===== verification/FakeTls.thy ===== *)
theory FakeTls
  imports TL_Primitives "HOL-Library.Multiset"
begin

text \<open>
  \<open>kurigram/pyrogram/crypto/faketls.py\<close>: the greeting of an MTProxy that hides behind TLS.
  A list of operations is rendered to the bytes of a ClientHello; then its random field is
  replaced by an HMAC that the proxy can check, and the answer is checked in the same way.

  The draws of \<open>secrets\<close> come from a source \<open>'r secrets\<close> whose state is passed along.  A
  run has three outcomes: \<open>None\<close> when a loop does not end, \<open>Some (Inl e)\<close> for an exception,
  \<open>Some (Inr x)\<close> for a value.  The reader of a ClientHello at the end is the specification.
\<close>

section \<open>Runs\<close>

type_synonym 'a run = "'a res option"

definition bindN :: "'a run \<Rightarrow> ('a \<Rightarrow> 'b run) \<Rightarrow> 'b run" where
  "bindN m f = (case m of None \<Rightarrow> None | Some (Inl e) \<Rightarrow> Some (Inl e) | Some (Inr x) \<Rightarrow> f x)"

lemma bindN_simps [simp]: "bindN None f = None" "bindN (Some (Inl e)) f = Some (Inl e)" "bindN (Some (Inr x)) f = f x"
  by (simp_all add: bindN_def)

lemma bindN_ok: "bindN m f = Some (Inr y) \<longleftrightarrow> (\<exists>x. m = Some (Inr x) \<and> f x = Some (Inr y))"
  by (simp add: bindN_def split: option.splits sum.splits)

lemma bindN_assoc: "bindN (bindN m f) g = bindN m (\<lambda>x. bindN (f x) g)"
  by (simp add: bindN_def split: option.splits sum.splits)

record 'r secrets =
  token_bytes :: "nat \<Rightarrow> 'r \<Rightarrow> bytes \<times> 'r"
  randbits :: "nat \<Rightarrow> 'r \<Rightarrow> int \<times> 'r"
  randbelow :: "nat \<Rightarrow> 'r \<Rightarrow> nat \<times> 'r"

text \<open>What the documentation of \<open>secrets\<close> says.\<close>

definition secrets_law :: "'r secrets \<Rightarrow> bool" where
  "secrets_law s \<longleftrightarrow> (\<forall>n r. length (fst (token_bytes s n r)) = n) \<and>
     (\<forall>k r. 0 \<le> fst (randbits s k r) \<and> fst (randbits s k r) < 2 ^ k) \<and>
     (\<forall>n r. 0 < n \<longrightarrow> fst (randbelow s n r) < n)"

section \<open>The operations of the list\<close>

definition GREASE_SIZE :: nat where "GREASE_SIZE = 7"
definition CURVE25519_PRIME :: int where "CURVE25519_PRIME = 2 ^ 255 - 19"
definition CURVE25519_A :: int where "CURVE25519_A = 486662"
definition CURVE25519_KEY_SIZE :: nat where "CURVE25519_KEY_SIZE = 32"
definition ML_KEM_768_MODULUS :: int where "ML_KEM_768_MODULUS = 3329"
definition ML_KEM_768_COEFFICIENT_PAIRS :: nat where "ML_KEM_768_COEFFICIENT_PAIRS = 384"
definition ML_KEM_768_SEED_SIZE :: nat where "ML_KEM_768_SEED_SIZE = 32"
definition PADDING_TARGET_OFFSET :: int where "PADDING_TARGET_OFFSET = 513"
definition RANDOM_OFFSET :: nat where "RANDOM_OFFSET = 11"
definition RANDOM_SIZE :: nat where "RANDOM_SIZE = 32"
definition TIMESTAMP_SIZE :: nat where "TIMESTAMP_SIZE = 4"
definition SCOPE_LENGTH_SIZE :: nat where "SCOPE_LENGTH_SIZE = 2"

definition ECH_SIZES :: "nat list" where "ECH_SIZES = [144, 176, 208, 240]"

datatype op =
    STRING bytes
  | RANDOM nat
  | ZERO nat
  | DOMAIN
  | GREASE nat
  | BEGIN_SCOPE
  | END_SCOPE
  | KEY
  | ML_KEM_768_KEY
  | PERMUTATION "op list list"
  | PADDING

text \<open>The drawn size \<open>_ECH_PAYLOAD_SIZE\<close> is an argument.\<close>

definition extension_ops :: "nat \<Rightarrow> op list list" where
  "extension_ops ech =
     [[STRING [0x00, 0x00], BEGIN_SCOPE, BEGIN_SCOPE, STRING [0x00], BEGIN_SCOPE, DOMAIN, END_SCOPE, END_SCOPE, END_SCOPE],
      [STRING [0x00, 0x05, 0x00, 0x05, 0x01, 0x00, 0x00, 0x00, 0x00]],
      [STRING [0x00, 0x0a, 0x00, 0x0c, 0x00, 0x0a], GREASE 4, STRING [0x11, 0xec, 0x00, 0x1d, 0x00, 0x17, 0x00, 0x18]],
      [STRING [0x00, 0x0b, 0x00, 0x02, 0x01, 0x00]],
      [STRING [0x00, 0x0d, 0x00, 0x18, 0x00, 0x16, 0x09, 0x04, 0x09, 0x05, 0x09, 0x06, 0x04, 0x03, 0x08, 0x04,
         0x04, 0x01, 0x05, 0x03, 0x08, 0x05, 0x05, 0x01, 0x08, 0x06, 0x06, 0x01]],
      [STRING [0x00, 0x10, 0x00, 0x0e, 0x00, 0x0c, 0x02, 0x68, 0x32, 0x08, 0x68, 0x74, 0x74, 0x70, 0x2f, 0x31, 0x2e, 0x31]],
      [STRING [0x00, 0x12, 0x00, 0x00]],
      [STRING [0x00, 0x17, 0x00, 0x00]],
      [STRING [0x00, 0x1b, 0x00, 0x03, 0x02, 0x00, 0x02]],
      [STRING [0x00, 0x23, 0x00, 0x00]],
      [STRING [0x00, 0x2b, 0x00, 0x07, 0x06], GREASE 6, STRING [0x03, 0x04, 0x03, 0x03]],
      [STRING [0x00, 0x2d, 0x00, 0x02, 0x01, 0x01]],
      [STRING [0x00, 0x33, 0x04, 0xef, 0x04, 0xed], GREASE 4, STRING [0x00, 0x01, 0x00, 0x11, 0xec, 0x04, 0xc0],
         ML_KEM_768_KEY, KEY, STRING [0x00, 0x1d, 0x00, 0x20], KEY],
      [STRING [0x44, 0xcd, 0x00, 0x05, 0x00, 0x03, 0x02, 0x68, 0x32]],
      [STRING [0xfe, 0x0d], BEGIN_SCOPE, STRING [0x00, 0x00, 0x01, 0x00, 0x01], RANDOM 1, STRING [0x00, 0x20], KEY,
         BEGIN_SCOPE, RANDOM ech, END_SCOPE, END_SCOPE],
      [STRING [0xff, 0x01, 0x00, 0x01, 0x00]]]"

definition cipher_suites :: bytes where
  "cipher_suites = [0x13, 0x01, 0x13, 0x02, 0x13, 0x03, 0xc0, 0x2b, 0xc0, 0x2f, 0xc0, 0x2c, 0xc0, 0x30, 0xcc, 0xa9, 0xcc, 0xa8,
     0xc0, 0x13, 0xc0, 0x14, 0x00, 0x9c, 0x00, 0x9d, 0x00, 0x2f, 0x00, 0x35, 0x01, 0x00]"

definition client_hello_ops :: "nat \<Rightarrow> op list" where
  "client_hello_ops ech =
     [STRING [0x16, 0x03, 0x01], BEGIN_SCOPE, STRING [0x01, 0x00], BEGIN_SCOPE, STRING [0x03, 0x03], ZERO RANDOM_SIZE,
      STRING [0x20], RANDOM 32, STRING [0x00, 0x20], GREASE 0, STRING cipher_suites,
      BEGIN_SCOPE, GREASE 2, STRING [0x00, 0x00], PERMUTATION (extension_ops ech), GREASE 3, STRING [0x00, 0x01, 0x00],
      PADDING, END_SCOPE, END_SCOPE, END_SCOPE]"

section \<open>Drawn values\<close>

fun separate :: "bytes \<Rightarrow> bytes" where
  "separate (a # b # bs) = a # (if b = a then b XOR 0x10 else b) # separate bs"
| "separate bs = bs"

text \<open>\<open>separate\<close> is the second loop: at every odd index.\<close>

definition generate_grease :: "'r secrets \<Rightarrow> 'r \<Rightarrow> bytes \<times> 'r" where
  "generate_grease s r =
     (let (bs, r) = token_bytes s GREASE_SIZE r
      in (separate (map (\<lambda>b. (b AND 0xF0) + 0x0A) bs), r))"

definition curve25519_y_squared :: "int \<Rightarrow> int" where
  "curve25519_y_squared x = ((x + CURVE25519_A) * x + 1) * x mod CURVE25519_PRIME"

definition curve25519_double_x :: "int \<Rightarrow> int" where
  "curve25519_double_x x =
     (let denominator = curve25519_y_squared x * 4 mod CURVE25519_PRIME;
          numerator = (x * x - 1) ^ 2 mod CURVE25519_PRIME
      in numerator * (denominator ^ nat (CURVE25519_PRIME - 2) mod CURVE25519_PRIME) mod CURVE25519_PRIME)"

text \<open>\<open>_generate_curve25519_key\<close>: candidates are drawn until one is on the curve, for ever
  if none is.\<close>

definition candidate :: "bytes \<Rightarrow> int" where
  "candidate bs = be_int (bs[31 := bs ! 31 AND 0x7F])"

definition on_curve :: "int \<Rightarrow> bool" where
  "on_curve x \<longleftrightarrow> curve25519_y_squared x ^ nat ((CURVE25519_PRIME - 1) div 2) mod CURVE25519_PRIME = 1"

partial_function (option) curve_draw :: "'r secrets \<Rightarrow> 'r \<Rightarrow> (int \<times> 'r) option" where
  "curve_draw s r =
     (let (bs, r) = token_bytes s CURVE25519_KEY_SIZE r; x = candidate bs
      in if on_curve x then Some (x, r) else curve_draw s r)"

definition generate_curve25519_key :: "'r secrets \<Rightarrow> 'r \<Rightarrow> (bytes \<times> 'r) run" where
  "generate_curve25519_key s r =
     (case curve_draw s r of
        None \<Rightarrow> None
      | Some (x, r) \<Rightarrow>
          Some (bindR (to_bytes_le CURVE25519_KEY_SIZE False ((curve25519_double_x ^^ 3) x)) (\<lambda>bs. Inr (bs, r))))"

text \<open>\<open>bytearray.append\<close>.\<close>

definition append_byte :: "bytes \<Rightarrow> int \<Rightarrow> bytes res" where
  "append_byte bs n = (if 0 \<le> n \<and> n < 256 then Inr (bs @ [word_of_int n]) else Inl ValueError)"

primrec ml_kem_pairs :: "'r secrets \<Rightarrow> nat \<Rightarrow> bytes \<Rightarrow> 'r \<Rightarrow> (bytes \<times> 'r) res" where
  "ml_kem_pairs s 0 key r = Inr (key, r)"
| "ml_kem_pairs s (Suc n) key r =
     (let (a, r) = randbits s 32 r; first = a mod ML_KEM_768_MODULUS;
          (b, r) = randbits s 32 r; second = b mod ML_KEM_768_MODULUS
      in bindR (append_byte key (first AND 0xFF)) (\<lambda>key.
         bindR (append_byte key (drop_bit 8 first OR push_bit 4 (second AND 0x0F))) (\<lambda>key.
         bindR (append_byte key (drop_bit 4 second)) (\<lambda>key. ml_kem_pairs s n key r))))"

definition generate_ml_kem_768_key :: "'r secrets \<Rightarrow> 'r \<Rightarrow> (bytes \<times> 'r) res" where
  "generate_ml_kem_768_key s r =
     bindR (ml_kem_pairs s ML_KEM_768_COEFFICIENT_PAIRS [] r) (\<lambda>(key, r).
       let (seed, r) = token_bytes s ML_KEM_768_SEED_SIZE r in Inr (key @ seed, r))"

primrec shuffle_loop :: "'r secrets \<Rightarrow> nat \<Rightarrow> nat \<Rightarrow> 'a list \<Rightarrow> 'r \<Rightarrow> 'a list \<times> 'r" where
  "shuffle_loop s i 0 xs r = (xs, r)"
| "shuffle_loop s i (Suc n) xs r =
     (let (k, r) = randbelow s (length xs - i) r; t = i + k
      in shuffle_loop s (i + 1) n (xs[i := xs ! t, t := xs ! i]) r)"

definition shuffled :: "'r secrets \<Rightarrow> 'a list \<Rightarrow> 'r \<Rightarrow> 'a list \<times> 'r" where
  "shuffled s parts r = shuffle_loop s 0 (length parts - 1) parts r"

section \<open>The writer\<close>

text \<open>\<open>_HelloWriter\<close>; the stack of open scopes has its top in front.\<close>

record 'r writer =
  out :: bytes
  scopes :: "nat list"
  rng :: 'r

definition put :: "bytes \<Rightarrow> 'r writer \<Rightarrow> 'r writer" where
  "put bs w = w\<lparr>out := out w @ bs\<rparr>"

definition begin_scope :: "'r writer \<Rightarrow> 'r writer" where
  "begin_scope w = put (replicate SCOPE_LENGTH_SIZE 0) (w\<lparr>scopes := length (out w) # scopes w\<rparr>)"

definition close_scope :: "'r writer \<Rightarrow> 'r writer res" where
  "close_scope w =
     (case scopes w of
        [] \<Rightarrow> Inl IndexError
      | b # bs \<Rightarrow>
          let size = int (length (out w)) - int b - int SCOPE_LENGTH_SIZE
          in bindR (to_bytes_be SCOPE_LENGTH_SIZE False size) (\<lambda>n.
             Inr (w\<lparr>out := take b (out w) @ n @ drop (b + SCOPE_LENGTH_SIZE) (out w), scopes := bs\<rparr>)))"

definition write_padding :: "'r writer \<Rightarrow> 'r writer res" where
  "write_padding w =
     (let size = PADDING_TARGET_OFFSET - int (length (out w))
      in if size \<le> 0 then Inr w
         else close_scope (put (replicate (nat size) 0) (begin_scope (put [0x00, 0x15] w))))"

definition put_drawn :: "'r writer \<Rightarrow> bytes \<times> 'r \<Rightarrow> 'r writer" where
  "put_drawn w d = (case d of (bs, r) \<Rightarrow> put bs (w\<lparr>rng := r\<rparr>))"

fun write_op :: "'r secrets \<Rightarrow> bytes \<Rightarrow> bytes \<Rightarrow> op \<Rightarrow> 'r writer \<Rightarrow> 'r writer run"
and render :: "'r secrets \<Rightarrow> bytes \<Rightarrow> bytes \<Rightarrow> op list \<Rightarrow> 'r writer \<Rightarrow> 'r writer run"
and render_parts :: "'r secrets \<Rightarrow> bytes \<Rightarrow> bytes \<Rightarrow> op list list \<Rightarrow> 'r \<Rightarrow> (bytes list \<times> 'r) run" where
  "write_op s grease domain (STRING data) w = Some (Inr (put data w))"
| "write_op s grease domain (RANDOM n) w = Some (Inr (put_drawn w (token_bytes s n (rng w))))"
| "write_op s grease domain (ZERO n) w = Some (Inr (put (replicate n 0) w))"
| "write_op s grease domain DOMAIN w = Some (Inr (put domain w))"
| "write_op s grease domain (GREASE i) w =
     Some (if i < length grease then Inr (put [grease ! i, grease ! i] w) else Inl IndexError)"
| "write_op s grease domain BEGIN_SCOPE w = Some (Inr (begin_scope w))"
| "write_op s grease domain END_SCOPE w = Some (close_scope w)"
| "write_op s grease domain KEY w = bindN (generate_curve25519_key s (rng w)) (\<lambda>d. Some (Inr (put_drawn w d)))"
| "write_op s grease domain ML_KEM_768_KEY w =
     bindN (Some (generate_ml_kem_768_key s (rng w))) (\<lambda>d. Some (Inr (put_drawn w d)))"
| "write_op s grease domain (PERMUTATION parts) w =
     bindN (render_parts s grease domain parts (rng w)) (\<lambda>(rendered, r).
       let (xs, r) = shuffled s rendered r in Some (Inr (put (concat xs) (w\<lparr>rng := r\<rparr>))))"
| "write_op s grease domain PADDING w = Some (write_padding w)"
| "render s grease domain [] w = Some (Inr w)"
| "render s grease domain (p # ps) w = bindN (write_op s grease domain p w) (render s grease domain ps)"
| "render_parts s grease domain [] r = Some (Inr ([], r))"
| "render_parts s grease domain (part # parts) r =
     bindN (render s grease domain part \<lparr>out = [], scopes = [], rng = r\<rparr>) (\<lambda>w.
     bindN (render_parts s grease domain parts (rng w)) (\<lambda>(bs, r). Some (Inr (out w # bs, r))))"

section \<open>The greeting and its answer\<close>

record hello =
  record_bytes :: bytes
  random :: bytes

definition ascii_encode :: "pystr \<Rightarrow> bytes res" where
  "ascii_encode t = (if \<forall>c\<in>set t. c < 128 then Inr (map of_nat t) else Inl UnicodeError)"

text \<open>\<open>hmac sec msg\<close> is HMAC-SHA256.\<close>

definition stamp :: "bytes \<Rightarrow> int \<Rightarrow> bytes" where
  "stamp digest unix_time =
     (let timestamp = le_bytes TIMESTAMP_SIZE (unix_time AND 0xFFFFFFFF); k = RANDOM_SIZE - TIMESTAMP_SIZE
      in take k digest @ xor_bytes (drop k digest) timestamp)"

definition set_random :: "bytes \<Rightarrow> bytes \<Rightarrow> bytes" where
  "set_random rnd bs = take RANDOM_OFFSET bs @ rnd @ drop (RANDOM_OFFSET + RANDOM_SIZE) bs"

definition build_client_hello ::
    "(bytes \<Rightarrow> bytes \<Rightarrow> bytes) \<Rightarrow> 'r secrets \<Rightarrow> nat \<Rightarrow> pystr \<Rightarrow> bytes \<Rightarrow> int \<Rightarrow> 'r \<Rightarrow> hello run" where
  "build_client_hello hmac s ech domain sec unix_time r =
     (let (grease, r) = generate_grease s r
      in bindN (Some (ascii_encode domain)) (\<lambda>domain.
         bindN (render s grease domain (client_hello_ops ech) \<lparr>out = [], scopes = [], rng = r\<rparr>) (\<lambda>w.
           let digest = stamp (hmac sec (out w)) unix_time
           in Some (Inr \<lparr>record_bytes = set_random digest (out w), random = digest\<rparr>))))"

definition server_hello_is_authentic :: "(bytes \<Rightarrow> bytes \<Rightarrow> bytes) \<Rightarrow> bytes \<Rightarrow> bytes \<Rightarrow> bytes \<Rightarrow> bool" where
  "server_hello_is_authentic hmac response sec client_random \<longleftrightarrow>
     (let e = RANDOM_OFFSET + RANDOM_SIZE
      in if length response < e then False
         else let server_random = pyslice RANDOM_OFFSET e response;
                  zeroed = take RANDOM_OFFSET response @ replicate RANDOM_SIZE 0 @ drop e response;
                  digest = hmac sec (client_random @ zeroed)
              in digest = server_random)"

end
