(* ===== verification/FakeTls_Writer.thy ===== *)
theory FakeTls_Writer
  imports FakeTls
begin

text \<open>
  What the operations of \<open>FakeTls\<close> write: \<open>writes\<close> says what stands behind the output when a
  list of operations has run, \<open>sized\<close> that it runs to its end and how many bytes it adds.
\<close>

section \<open>Drawn values\<close>

lemma token_bytes_length: "secrets_law s \<Longrightarrow> token_bytes s n r = (b, r') \<Longrightarrow> length b = n"
  unfolding secrets_law_def by (metis fst_conv)

lemma length_separate [simp]: "length (separate bs) = length bs"
  by (induction bs rule: separate.induct) auto

lemma length_grease: "secrets_law s \<Longrightarrow> generate_grease s r = (g, r') \<Longrightarrow> length g = GREASE_SIZE"
  unfolding generate_grease_def by (auto dest: token_bytes_length split: prod.splits)

lemma shuffle_loop_mset:
  assumes "secrets_law s" "i + n + 1 \<le> length xs \<or> n = 0"
  shows "mset (fst (shuffle_loop s i n xs r)) = mset xs"
  using assms(2)
proof (induction n arbitrary: i xs r)
  case (Suc n)
  obtain k r' where k: "randbelow s (length xs - i) r = (k, r')" by fastforce
  have "0 < length xs - i" using Suc.prems by simp
  then have "fst (randbelow s (length xs - i) r) < length xs - i" using assms(1) unfolding secrets_law_def by blast
  then have "k < length xs - i" using k by simp
  then have "mset (xs[i := xs ! (i + k), i + k := xs ! i]) = mset xs"
    using Suc.prems by (intro mset_swap) auto
  moreover have "Suc i + n + 1 \<le> length (xs[i := xs ! (i + k), i + k := xs ! i]) \<or> n = 0" using Suc.prems by auto
  ultimately show ?case using Suc.IH [of "Suc i" _ r'] by (simp add: Let_def k)
qed simp

lemma mset_shuffled: "secrets_law s \<Longrightarrow> shuffled s xs r = (ys, r') \<Longrightarrow> mset ys = mset xs"
  using shuffle_loop_mset [of s 0 "length xs - 1" xs r] by (cases xs) (auto simp: shuffled_def)

lemma length_curve25519_key: "generate_curve25519_key s r = Some (Inr (bs, r')) \<Longrightarrow> length bs = CURVE25519_KEY_SIZE"
  by (auto simp: generate_curve25519_key_def res_simps split: option.splits)

lemma append_byte_ok: "append_byte bs n = Inr cs \<Longrightarrow> length cs = Suc (length bs)"
  by (auto simp: append_byte_def split: if_splits)

lemma length_ml_kem_pairs: "ml_kem_pairs s n key r = Inr (bs, r') \<Longrightarrow> length bs = length key + 3 * n"
  by (induction n arbitrary: key r) (auto simp: Let_def res_simps split: prod.splits dest!: append_byte_ok)

lemma length_ml_kem_key:
  assumes "secrets_law s" "generate_ml_kem_768_key s r = Inr (bs, r')"
  shows "length bs = 1184"
proof -
  obtain key r1 where k: "ml_kem_pairs s ML_KEM_768_COEFFICIENT_PAIRS [] r = Inr (key, r1)"
    using assms(2) by (auto simp: generate_ml_kem_768_key_def bindR_eq_Inr)
  obtain seed r2 where d: "token_bytes s ML_KEM_768_SEED_SIZE r1 = (seed, r2)" by fastforce
  have "bs = key @ seed" using assms(2) by (simp add: generate_ml_kem_768_key_def k d)
  then show ?thesis
    using length_ml_kem_pairs [OF k] token_bytes_length [OF assms(1) d]
    by (simp add: ML_KEM_768_COEFFICIENT_PAIRS_def ML_KEM_768_SEED_SIZE_def)
qed

lemma sum_list_permuted: "mset xs = mset ys \<Longrightarrow> sum_list (map (f :: 'a \<Rightarrow> nat) xs) = sum_list (map f ys)"
  unfolding sum_mset_sum_list [symmetric] mset_map by simp

section \<open>What a list of operations writes\<close>

definition writes :: "'r secrets \<Rightarrow> bytes \<Rightarrow> bytes \<Rightarrow> nat \<Rightarrow> op list \<Rightarrow> (bytes \<Rightarrow> bool) \<Rightarrow> bool" where
  "writes s g d n ops P \<longleftrightarrow>
     (\<forall>w w'. n \<le> length (out w) \<longrightarrow> render s g d ops w = Some (Inr w') \<longrightarrow>
       (\<exists>b. out w' = out w @ b \<and> scopes w' = scopes w \<and> P b))"

definition cat :: "(bytes \<Rightarrow> bool) \<Rightarrow> (bytes \<Rightarrow> bool) \<Rightarrow> bytes \<Rightarrow> bool" where
  "cat P Q b \<longleftrightarrow> (\<exists>b1 b2. b = b1 @ b2 \<and> P b1 \<and> Q b2)"

definition vec :: "bytes \<Rightarrow> bytes" where
  "vec c = be_bytes 2 (int (length c)) @ c"

lemma length_vec [simp]: "length (vec c) = length c + 2"
  by (simp add: vec_def)

definition vec_of :: "(bytes \<Rightarrow> bool) \<Rightarrow> bytes \<Rightarrow> bool" where
  "vec_of P b \<longleftrightarrow> (\<exists>c. b = vec c \<and> length c < 65536 \<and> P c)"

definition scope :: "op list \<Rightarrow> op list" where
  "scope ops = BEGIN_SCOPE # ops @ [END_SCOPE]"

lemma render_append: "render s g d (xs @ ys) w = bindN (render s g d xs w) (render s g d ys)"
proof (induction xs arbitrary: w)
  case (Cons x xs)
  have "render s g d (xs @ ys) = (\<lambda>w. bindN (render s g d xs w) (render s g d ys))" using Cons by blast
  then show ?case by (simp add: bindN_assoc)
qed simp

lemma writes_append:
  assumes "writes s g d n xs P" "\<And>b. P b \<Longrightarrow> k \<le> length b" "writes s g d (n + k) ys Q"
  shows "writes s g d n (xs @ ys) (cat P Q)"
  unfolding writes_def render_append bindN_ok
proof (intro allI impI)
  fix w w' :: "'a writer"
  assume n: "n \<le> length (out w)" and "\<exists>x. render s g d xs w = Some (Inr x) \<and> render s g d ys x = Some (Inr w')"
  then obtain w1 where w1: "render s g d xs w = Some (Inr w1)" "render s g d ys w1 = Some (Inr w')" by blast
  obtain b1 where b1: "out w1 = out w @ b1" "scopes w1 = scopes w" "P b1"
    using assms(1) n w1(1) unfolding writes_def by blast
  have "n + k \<le> length (out w1)" using n assms(2) [OF b1(3)] b1(1) by simp
  then obtain b2 where "out w' = out w1 @ b2" "scopes w' = scopes w1" "Q b2"
    using assms(3) w1(2) unfolding writes_def by blast
  then show "\<exists>b. out w' = out w @ b \<and> scopes w' = scopes w \<and> cat P Q b"
    using b1 by (auto simp: cat_def)
qed

lemmas writes_cat = writes_append [where k = 0, simplified]

lemma writes_weaken: "writes s g d n xs P \<Longrightarrow> (\<And>b. P b \<Longrightarrow> Q b) \<Longrightarrow> writes s g d n xs Q"
  unfolding writes_def by blast

lemma put_simps [simp]: "out (put bs w) = out w @ bs" "scopes (put bs w) = scopes w" "rng (put bs w) = rng w"
  by (simp_all add: put_def)

lemma writes_single:
  "(\<And>w w'. n \<le> length (out w) \<Longrightarrow> write_op s g d p w = Some (Inr w') \<Longrightarrow>
     \<exists>b. out w' = out w @ b \<and> scopes w' = scopes w \<and> P b) \<Longrightarrow> writes s g d n [p] P"
  by (auto simp: writes_def bindN_ok)

lemma writes_ops:
  "writes s g d n [STRING x] (\<lambda>b. b = x)"
  "writes s g d n [ZERO k] (\<lambda>b. b = replicate k 0)"
  "writes s g d n [DOMAIN] (\<lambda>b. b = d)"
  "i < length g \<Longrightarrow> writes s g d n [GREASE i] (\<lambda>b. b = [g ! i, g ! i])"
  "513 \<le> n \<Longrightarrow> writes s g d n [PADDING] (\<lambda>b. b = [])"
  by (rule writes_single; auto simp: write_padding_def PADDING_TARGET_OFFSET_def Let_def)+

lemma writes_drawn:
  assumes "secrets_law s"
  shows "writes s g d n [RANDOM k] (\<lambda>b. length b = k)" "writes s g d n [KEY] (\<lambda>b. length b = 32)"
    "writes s g d n [ML_KEM_768_KEY] (\<lambda>b. length b = 1184)"
proof -
  show "writes s g d n [RANDOM k] (\<lambda>b. length b = k)"
    using token_bytes_length [OF assms] by (intro writes_single) (auto simp: put_drawn_def split: prod.splits)
  show "writes s g d n [KEY] (\<lambda>b. length b = 32)"
    by (rule writes_single) (auto simp: bindN_ok put_drawn_def CURVE25519_KEY_SIZE_def dest!: length_curve25519_key split: prod.splits)
  show "writes s g d n [ML_KEM_768_KEY] (\<lambda>b. length b = 1184)"
    using length_ml_kem_key [OF assms] by (intro writes_single) (auto simp: bindN_ok put_drawn_def split: prod.splits)
qed

lemma close_scope_ok:
  assumes "close_scope w = Inr w'" "out w = a @ [0, 0] @ c" "scopes w = length a # sc"
  shows "out w' = a @ vec c \<and> scopes w' = sc \<and> length c < 65536"
  using assms by (auto simp: close_scope_def Let_def res_simps SCOPE_LENGTH_SIZE_def vec_def in_range_def)

lemma writes_scope:
  assumes "writes s g d n ops P"
  shows "writes s g d n (scope ops) (vec_of P)"
  unfolding writes_def scope_def
proof (intro allI impI)
  fix w w' :: "'a writer"
  assume n: "n \<le> length (out w)" and "render s g d (BEGIN_SCOPE # ops @ [END_SCOPE]) w = Some (Inr w')"
  then obtain w1 where w1: "render s g d ops (begin_scope w) = Some (Inr w1)" "close_scope w1 = Inr w'"
    by (auto simp: render_append bindN_ok)
  have b: "out (begin_scope w) = out w @ [0, 0]" "scopes (begin_scope w) = length (out w) # scopes w"
    by (simp_all add: begin_scope_def SCOPE_LENGTH_SIZE_def numeral_2_eq_2)
  then obtain c where c: "out w1 = out w @ [0, 0] @ c" "scopes w1 = length (out w) # scopes w" "P c"
    using assms [unfolded writes_def, rule_format, OF _ w1(1)] n by auto
  show "\<exists>b. out w' = out w @ b \<and> scopes w' = scopes w \<and> vec_of P b"
    using close_scope_ok [OF w1(2) c(1,2)] c(3) by (auto simp: vec_of_def)
qed

lemma render_parts_ok:
  assumes "list_all2 (writes s g d 0) parts Ps" "render_parts s g d parts r = Some (Inr (bs, r'))"
  shows "list_all2 (\<lambda>P b. P b) Ps bs"
  using assms
proof (induction arbitrary: r bs rule: list_all2_induct)
  case (Cons part parts P Ps)
  then obtain w cs where "render s g d part \<lparr>out = [], scopes = [], rng = r\<rparr> = Some (Inr w)"
      "render_parts s g d parts (rng w) = Some (Inr (cs, r'))" "bs = out w # cs"
    by (auto simp: bindN_ok)
  then show ?case using Cons unfolding writes_def by fastforce
qed simp

lemma writes_permutation:
  assumes "secrets_law s" "list_all2 (writes s g d 0) parts Ps"
  shows "writes s g d n [PERMUTATION parts]
    (\<lambda>b. \<exists>bs cs. list_all2 (\<lambda>P b. P b) Ps bs \<and> mset cs = mset bs \<and> b = concat cs)"
proof (rule writes_single)
  fix w w' :: "'a writer"
  assume "write_op s g d (PERMUTATION parts) w = Some (Inr w')"
  then obtain bs r cs r' where b: "render_parts s g d parts (rng w) = Some (Inr (bs, r))" "shuffled s bs r = (cs, r')"
      "w' = put (concat cs) (w\<lparr>rng := r'\<rparr>)"
    by (auto simp: bindN_ok case_prod_beta) (metis surjective_pairing)
  then show "\<exists>b. out w' = out w @ b \<and> scopes w' = scopes w \<and>
      (\<exists>bs cs. list_all2 (\<lambda>P b. P b) Ps bs \<and> mset cs = mset bs \<and> b = concat cs)"
    using render_parts_ok [OF assms(2) b(1)] mset_shuffled [OF assms(1) b(2)] by auto
qed

section \<open>The greeting is written\<close>

text \<open>Some draw of a candidate, now or later, is on the curve.\<close>

definition curve_law :: "'r secrets \<Rightarrow> bool" where
  "curve_law s \<longleftrightarrow> (\<forall>r. \<exists>n. on_curve (candidate (fst (token_bytes s 32 (((\<lambda>r. snd (token_bytes s 32 r)) ^^ n) r)))))"

lemma curve_draw_returns:
  assumes "curve_law s"
  shows "\<exists>x r'. curve_draw s r = Some (x, r')"
proof -
  let ?next = "\<lambda>r. snd (token_bytes s 32 r)"
  obtain n where "on_curve (candidate (fst (token_bytes s 32 ((?next ^^ n) r))))"
    using assms unfolding curve_law_def by blast
  then show ?thesis
  proof (induction n arbitrary: r)
    case 0
    then show ?case
      by (subst curve_draw.simps) (auto simp: CURVE25519_KEY_SIZE_def Let_def split: prod.splits)
  next
    case (Suc n)
    from Suc.prems have "on_curve (candidate (fst (token_bytes s 32 ((?next ^^ n) (?next r)))))"
      unfolding funpow_Suc_right o_apply .
    from Suc.IH [OF this] obtain x r' where "curve_draw s (?next r) = Some (x, r')" by blast
    then show ?case
      by (subst curve_draw.simps) (auto simp: CURVE25519_KEY_SIZE_def Let_def split: prod.splits)
  qed
qed

lemma double_x_range: "in_range False 32 ((curve25519_double_x ^^ 3) x)"
proof -
  have "0 \<le> curve25519_double_x y \<and> curve25519_double_x y < CURVE25519_PRIME" for y
    by (simp add: curve25519_double_x_def Let_def CURVE25519_PRIME_def)
  from this [of "(curve25519_double_x ^^ 2) x"] show ?thesis
    by (simp add: in_range_def CURVE25519_PRIME_def numeral_3_eq_3 numeral_2_eq_2)
qed

lemma key_returns: "curve_law s \<Longrightarrow> \<exists>d. generate_curve25519_key s r = Some (Inr d)"
  using curve_draw_returns [of s r] double_x_range
  by (auto simp: generate_curve25519_key_def to_bytes_le_def CURVE25519_KEY_SIZE_def)

lemma low_bits: "0 \<le> (x :: int) AND 255 \<and> x AND 255 < 256" "0 \<le> (x :: int) AND 15 \<and> x AND 15 < 16"
  using take_bit_int_less_exp [of 8 x] take_bit_nonnegative [of 8 x] take_bit_int_less_exp [of 4 x] take_bit_nonnegative [of 4 x]
  by (simp_all add: take_bit_eq_mask mask_eq_exp_minus_1)

lemma or_below: "0 \<le> (x :: int) \<Longrightarrow> 0 \<le> y \<Longrightarrow> x < 2 ^ n \<Longrightarrow> y < 2 ^ n \<Longrightarrow> 0 \<le> x OR y \<and> x OR y < 2 ^ n"
  by (auto intro: OR_upper)

lemma ml_kem_pairs_return: "\<exists>d. ml_kem_pairs s n key r = Inr d"
proof (induction n arbitrary: key r)
  case (Suc n)
  obtain a r1 b r2 where d: "randbits s 32 r = (a, r1)" "randbits s 32 r1 = (b, r2)" by (metis surj_pair)
  let ?f = "a mod ML_KEM_768_MODULUS" and ?g = "b mod ML_KEM_768_MODULUS"
  have m: "0 \<le> ?f" "?f < 3329" "0 \<le> ?g" "?g < 3329" by (simp_all add: ML_KEM_768_MODULUS_def)
  have "0 \<le> drop_bit 8 ?f" "drop_bit 8 ?f < 2 ^ 8" "0 \<le> push_bit 4 (?g AND 15)" "push_bit 4 (?g AND 15) < 2 ^ 8"
    using m low_bits(2) [of ?g] by (simp_all add: drop_bit_eq_div push_bit_eq_mult)
  from or_below [OF this(1,3,2,4)]
  have "0 \<le> drop_bit 8 ?f OR push_bit 4 (?g AND 15)" "drop_bit 8 ?f OR push_bit 4 (?g AND 15) < 256" by simp_all
  moreover have "0 \<le> drop_bit 4 ?g" "drop_bit 4 ?g < 256" using m by (simp_all add: drop_bit_eq_div)
  ultimately show ?case using Suc low_bits(1) [of ?f] by (simp add: d Let_def append_byte_def)
qed simp

lemma ml_kem_key_returns: "\<exists>d. generate_ml_kem_768_key s r = Inr d"
  using ml_kem_pairs_return [of s ML_KEM_768_COEFFICIENT_PAIRS "[]" r]
  by (auto simp: generate_ml_kem_768_key_def Let_def split: prod.splits)

text \<open>Operations that return and write \<open>k\<close> bytes, behind \<open>n\<close> bytes at least.\<close>

definition sized :: "'r secrets \<Rightarrow> bytes \<Rightarrow> bytes \<Rightarrow> nat \<Rightarrow> op list \<Rightarrow> nat \<Rightarrow> bool" where
  "sized s g d n ops k \<longleftrightarrow>
     (\<forall>w. n \<le> length (out w) \<longrightarrow>
       (\<exists>w' b. render s g d ops w = Some (Inr w') \<and> out w' = out w @ b \<and> scopes w' = scopes w \<and> length b = k))"

lemma sizedD:
  "sized s g d n ops k \<Longrightarrow> n \<le> length (out w) \<Longrightarrow>
   \<exists>w' b. render s g d ops w = Some (Inr w') \<and> out w' = out w @ b \<and> scopes w' = scopes w \<and> length b = k"
  by (simp add: sized_def)

lemma sized_append:
  assumes "sized s g d n xs k" "sized s g d (n + k) ys m"
  shows "sized s g d n (xs @ ys) (k + m)"
  unfolding sized_def
proof (intro allI impI)
  fix w :: "'a writer"
  assume n: "n \<le> length (out w)"
  obtain w1 b1 where w1: "render s g d xs w = Some (Inr w1)" "out w1 = out w @ b1" "scopes w1 = scopes w" "length b1 = k"
    using sizedD [OF assms(1) n] by blast
  then have "n + k \<le> length (out w1)" using n by simp
  then obtain w2 b2 where "render s g d ys w1 = Some (Inr w2)" "out w2 = out w1 @ b2" "scopes w2 = scopes w1" "length b2 = m"
    using sizedD [OF assms(2)] by blast
  then show "\<exists>w' b. render s g d (xs @ ys) w = Some (Inr w') \<and> out w' = out w @ b \<and> scopes w' = scopes w \<and> length b = k + m"
    using w1 by (auto simp: render_append)
qed

lemma sized_scope:
  assumes "sized s g d n ops k" "k < 65536"
  shows "sized s g d n (scope ops) (k + 2)"
  unfolding sized_def
proof (intro allI impI)
  fix w :: "'a writer"
  let ?w = "begin_scope w"
  assume "n \<le> length (out w)"
  then have "n \<le> length (out ?w)" by (simp add: begin_scope_def)
  then obtain w1 b where w1: "render s g d ops ?w = Some (Inr w1)" "out w1 = out ?w @ b" "scopes w1 = scopes ?w" "length b = k"
    using sizedD [OF assms(1)] by blast
  have b: "out ?w = out w @ [0, 0]" "scopes ?w = length (out w) # scopes w"
    by (simp_all add: begin_scope_def SCOPE_LENGTH_SIZE_def numeral_2_eq_2)
  then obtain w2 where w2: "close_scope w1 = Inr w2"
    using w1 assms(2) by (auto simp: close_scope_def Let_def to_bytes_be_def in_range_def SCOPE_LENGTH_SIZE_def)
  have "out w2 = out w @ vec b \<and> scopes w2 = scopes w"
    using close_scope_ok [OF w2] w1 b by simp
  then show "\<exists>w' c. render s g d (scope ops) w = Some (Inr w') \<and> out w' = out w @ c \<and> scopes w' = scopes w \<and> length c = k + 2"
    using w1 w2 by (auto simp: scope_def render_append)
qed

lemma sized_single:
  "(\<And>w. n \<le> length (out w) \<Longrightarrow> \<exists>w' b. write_op s g d p w = Some (Inr w') \<and> out w' = out w @ b \<and>
     scopes w' = scopes w \<and> length b = k) \<Longrightarrow> sized s g d n [p] k"
  by (fastforce simp: sized_def)

lemma sized_ops:
  "sized s g d n [STRING x] (length x)" "sized s g d n [ZERO k] k" "sized s g d n [DOMAIN] (length d)"
  "i < length g \<Longrightarrow> sized s g d n [GREASE i] 2" "513 \<le> n \<Longrightarrow> sized s g d n [PADDING] 0"
  by (rule sized_single; simp add: write_padding_def PADDING_TARGET_OFFSET_def Let_def)+

lemma sized_drawn:
  assumes "secrets_law s" "curve_law s"
  shows "sized s g d n [RANDOM k] k" "sized s g d n [KEY] 32" "sized s g d n [ML_KEM_768_KEY] 1184"
proof -
  have put: "\<exists>b. out (put_drawn w (bs, r)) = out w @ b \<and> scopes (put_drawn w (bs, r)) = scopes w \<and> length b = k"
    if "length bs = k" for w :: "'a writer" and bs r k
    using that by (simp add: put_drawn_def)
  show "sized s g d n [RANDOM k] k"
  proof (rule sized_single)
    fix w :: "'a writer"
    obtain bs r where d: "token_bytes s k (rng w) = (bs, r)" by fastforce
    show "\<exists>w' b. write_op s g d (RANDOM k) w = Some (Inr w') \<and> out w' = out w @ b \<and> scopes w' = scopes w \<and> length b = k"
      using put [OF token_bytes_length [OF assms(1) d]] by (simp add: d)
  qed
  show "sized s g d n [KEY] 32"
  proof (rule sized_single)
    fix w :: "'a writer"
    obtain bs r where d: "generate_curve25519_key s (rng w) = Some (Inr (bs, r))"
      using key_returns [OF assms(2), of "rng w"] by auto
    show "\<exists>w' b. write_op s g d KEY w = Some (Inr w') \<and> out w' = out w @ b \<and> scopes w' = scopes w \<and> length b = 32"
      using put [OF length_curve25519_key [OF d, unfolded CURVE25519_KEY_SIZE_def]] by (simp add: d)
  qed
  show "sized s g d n [ML_KEM_768_KEY] 1184"
  proof (rule sized_single)
    fix w :: "'a writer"
    obtain bs r where d: "generate_ml_kem_768_key s (rng w) = Inr (bs, r)"
      using ml_kem_key_returns [of s "rng w"] by auto
    show "\<exists>w' b. write_op s g d ML_KEM_768_KEY w = Some (Inr w') \<and> out w' = out w @ b \<and> scopes w' = scopes w \<and> length b = 1184"
      using put [OF length_ml_kem_key [OF assms(1) d]] by (simp add: d)
  qed
qed

lemma render_parts_sized:
  "list_all2 (sized s g d 0) parts ks \<Longrightarrow> \<exists>bs r'. render_parts s g d parts r = Some (Inr (bs, r')) \<and> map length bs = ks"
proof (induction arbitrary: r rule: list_all2_induct)
  case (Cons part parts k ks)
  obtain w b where w: "render s g d part \<lparr>out = [], scopes = [], rng = r\<rparr> = Some (Inr w)" "out w = b" "length b = k"
    using sizedD [OF Cons.hyps(1), of "\<lparr>out = [], scopes = [], rng = r\<rparr>"] by auto
  obtain bs r' where "render_parts s g d parts (rng w) = Some (Inr (bs, r'))" "map length bs = ks"
    using Cons.IH [of "rng w"] by blast
  then show ?case using w by simp
qed simp

lemma sized_permutation:
  assumes "secrets_law s" "list_all2 (sized s g d 0) parts ks"
  shows "sized s g d n [PERMUTATION parts] (sum_list ks)"
proof (rule sized_single)
  fix w :: "'a writer"
  obtain bs r where b: "render_parts s g d parts (rng w) = Some (Inr (bs, r))" "map length bs = ks"
    using render_parts_sized [OF assms(2)] by blast
  obtain cs r' where c: "shuffled s bs r = (cs, r')" by fastforce
  have "length (concat cs) = sum_list (map length cs)" by (simp add: length_concat)
  also have "\<dots> = sum_list (map length bs)" using mset_shuffled [OF assms(1) c] by (rule sum_list_permuted)
  finally show "\<exists>w' b. write_op s g d (PERMUTATION parts) w = Some (Inr w') \<and> out w' = out w @ b \<and>
      scopes w' = scopes w \<and> length b = sum_list ks"
    using b c by (simp add: Let_def)
qed

end
