(* ===== verification/FakeTls_Greeting.thy ===== *)
theory FakeTls_Greeting
  imports FakeTls_Writer
begin

text \<open>
  What the greeting of \<open>FakeTls\<close> is: a ClientHello in the sense of RFC 8446, for which a
  reader is given as the specification, naming the domain and carrying a proof of the secret.
\<close>

section \<open>The reader of a ClientHello\<close>

text \<open>A vector of RFC 8446: its length in \<open>k\<close> bytes, then its content.\<close>

definition take_vec :: "nat \<Rightarrow> bytes \<Rightarrow> (bytes \<times> bytes) option" where
  "take_vec k bs =
     (let n = nat (be_int (take k bs)); cs = drop k bs
      in if length bs < k \<or> length cs < n then None else Some (take n cs, drop n cs))"

definition take_tag :: "bytes \<Rightarrow> bytes \<Rightarrow> bytes option" where
  "take_tag tag bs = (if take (length tag) bs = tag then Some (drop (length tag) bs) else None)"

definition take_whole :: "nat \<Rightarrow> bytes \<Rightarrow> bytes option" where
  "take_whole k bs = (case take_vec k bs of Some (c, []) \<Rightarrow> Some c | _ \<Rightarrow> None)"

lemma take_vec_shorter: "take_vec k bs = Some (c, cs) \<Longrightarrow> length cs \<le> length bs"
  by (auto simp: take_vec_def Let_def split: if_splits)

function read_extensions :: "bytes \<Rightarrow> (bytes \<times> bytes) list option" where
  "read_extensions bs =
     (if bs = [] then Some []
      else if length bs < 2 then None
      else case take_vec 2 (drop 2 bs) of
             None \<Rightarrow> None
           | Some (c, cs) \<Rightarrow> map_option ((#) (take 2 bs, c)) (read_extensions cs))"
  by pat_completeness auto
termination
  by (relation "measure length") (auto dest!: take_vec_shorter)

declare read_extensions.simps [simp del]

record client_hello =
  ch_random :: bytes
  ch_session_id :: bytes
  ch_ciphers :: bytes
  ch_compression :: bytes
  ch_extensions :: "(bytes \<times> bytes) list"

definition read_body :: "bytes \<Rightarrow> client_hello option" where
  "read_body bs =
     Option.bind (take_tag [3, 3] bs) (\<lambda>bs.
     if length bs < 32 then None else
     Option.bind (take_vec 1 (drop 32 bs)) (\<lambda>(sid, rs).
     Option.bind (take_vec 2 rs) (\<lambda>(ciphers, rs).
     Option.bind (take_vec 1 rs) (\<lambda>(compression, rs).
     Option.bind (take_whole 2 rs) (\<lambda>es.
     map_option (\<lambda>exts. \<lparr>ch_random = take 32 bs, ch_session_id = sid, ch_ciphers = ciphers,
       ch_compression = compression, ch_extensions = exts\<rparr>) (read_extensions es))))))"

definition read_client_hello :: "bytes \<Rightarrow> client_hello option" where
  "read_client_hello bs =
     Option.bind (take_tag [22, 3, 1] bs) (\<lambda>bs.
     Option.bind (take_whole 2 bs) (\<lambda>hs.
     Option.bind (take_tag [1] hs) (\<lambda>hs.
     Option.bind (take_whole 3 hs) read_body)))"

text \<open>The host name of the extension \<open>server_name\<close>.\<close>

definition server_name :: "client_hello \<Rightarrow> bytes option" where
  "server_name ch =
     Option.bind (map_of (ch_extensions ch) [0, 0]) (\<lambda>b.
     Option.bind (take_whole 2 b) (\<lambda>l.
     Option.bind (take_tag [0] l) (take_whole 2)))"

lemma be_int_be_bytes_nat: "n < 256 ^ k \<Longrightarrow> be_int (be_bytes k (int n)) = int n"
  by (simp add: be_int_def be_bytes_def le_int_le_bytes mod_pos_pos_trivial flip: of_nat_power)

lemma take_vec_back:
  "length c < 256 ^ k \<Longrightarrow> take_vec k (be_bytes k (int (length c)) @ c @ cs) = Some (c, cs)"
  by (simp add: take_vec_def Let_def be_int_be_bytes_nat)

lemma take_vec_vec: "length c < 65536 \<Longrightarrow> take_vec 2 (vec c @ cs) = Some (c, cs)"
  using take_vec_back [of c 2 cs] by (simp add: vec_def)

lemma take_whole_vec: "length c < 65536 \<Longrightarrow> take_whole 2 (vec c) = Some c"
  using take_vec_vec [of c "[]"] by (simp add: take_whole_def)

definition ext :: "bytes \<times> bytes \<Rightarrow> bytes" where
  "ext e = fst e @ vec (snd e)"

lemma read_extensions_back:
  "\<forall>e\<in>set es. length (fst e) = 2 \<and> length (snd e) < 65536 \<Longrightarrow> read_extensions (concat (map ext es)) = Some es"
proof (induction es)
  case Nil
  then show ?case by (simp add: read_extensions.simps)
next
  case (Cons e es)
  obtain t b where e: "e = (t, b)" by fastforce
  have n: "concat (map ext (e # es)) = t @ vec b @ concat (map ext es)" "length t = 2" "length b < 65536"
    using Cons.prems by (auto simp: ext_def e)
  show ?case
    unfolding n(1) by (subst read_extensions.simps) (use n Cons in \<open>auto simp: take_vec_vec e\<close>)
qed

section \<open>The greeting\<close>

text \<open>The extensions between the two GREASE ones, by type, with the lengths of their bodies.\<close>

definition sni_body :: "bytes \<Rightarrow> bytes" where
  "sni_body d = vec ([0] @ vec d)"

definition extension_table :: "nat \<Rightarrow> bytes \<Rightarrow> (bytes \<times> nat) list" where
  "extension_table ech d =
     [([0x00, 0x00], length d + 5), ([0x00, 0x05], 5), ([0x00, 0x0a], 12), ([0x00, 0x0b], 2), ([0x00, 0x0d], 24),
      ([0x00, 0x10], 14), ([0x00, 0x12], 0), ([0x00, 0x17], 0), ([0x00, 0x1b], 3), ([0x00, 0x23], 0),
      ([0x00, 0x2b], 7), ([0x00, 0x2d], 2), ([0x00, 0x33], 1263), ([0x44, 0xcd], 5),
      ([0xfe, 0x0d], 42 + ech), ([0xff, 0x01], 1)]"

definition fits :: "bytes \<Rightarrow> bytes \<times> nat \<Rightarrow> bytes \<Rightarrow> bool" where
  "fits d x b \<longleftrightarrow> (\<exists>c. b = ext (fst x, c) \<and> length c = snd x \<and> length c < 65536 \<and>
     (fst x = [0, 0] \<longrightarrow> c = sni_body d \<and> length d < 65536))"

lemma be_bytes_2: "be_bytes 2 n = [word_of_int (n div 256), word_of_int n]"
  by (simp add: be_bytes_def numeral_2_eq_2)

lemma fitsI: "length c = n \<Longrightarrow> n < 65536 \<Longrightarrow> t \<noteq> [0, 0] \<Longrightarrow> fits d (t, n) (t @ be_bytes 2 (int n) @ c)"
  by (auto simp: fits_def ext_def vec_def)

lemma fits_const:
  "b = t @ be_bytes 2 (int n) @ c \<Longrightarrow> length c = n \<Longrightarrow> n < 65536 \<Longrightarrow> t \<noteq> [0, 0] \<Longrightarrow> fits d (t, n) b"
  using fitsI by simp

lemma list2: "length g = Suc 0 \<longleftrightarrow> (\<exists>x. g = [x])" by (auto simp: length_Suc_conv)

lemma extension_parts:
  assumes s: "secrets_law s" and g: "length g = 7"
  shows "list_all2 (writes s g d 0) (extension_ops ech) (map (fits d) (extension_table ech d))"
proof -
  note one = writes_ops(1)
  have grease: "i < 7 \<Longrightarrow> writes s g d 0 [GREASE i] (\<lambda>b. b = [g ! i, g ! i])" for i
    by (rule writes_ops(4)) (simp add: g)
  have const: "writes s g d 0 [STRING x] (fits d (t, n))"
    if "x = t @ be_bytes 2 (int n) @ drop 4 x" "length x = n + 4" "n < 65536" "t \<noteq> [0, 0]" for x t n
    by (rule writes_weaken [OF one]) (use that in \<open>auto intro!: fits_const [where c = "drop 4 x"]\<close>)
  have sni: "writes s g d 0 ([STRING [0, 0]] @ scope (scope ([STRING [0]] @ scope [DOMAIN]))) (fits d ([0, 0], length d + 5))"
    by (rule writes_weaken, (rule writes_cat writes_scope writes_ops(1-3))+)
      (auto simp: cat_def vec_of_def fits_def ext_def sni_body_def)
  have groups: "writes s g d 0 ([STRING (x @ y)] @ [GREASE i] @ [STRING z]) (fits d (t, n))"
    if "x = t @ be_bytes 2 (int n)" "i < 7" "length y + 2 + length z = n" "n < 65536" "t \<noteq> [0, 0]" for x y i z t n
    by (rule writes_weaken, (rule writes_cat writes_ops(1) grease [OF that(2)])+)
      (use that g in \<open>auto simp: cat_def intro!: fits_const [where c = "y @ [g ! i, g ! i] @ z"]\<close>)
  have share: "writes s g d 0 ([STRING ([0x00, 0x33, 0x04, 0xef] @ [0x04, 0xed])] @ [GREASE 4] @ [STRING [0x00, 0x01, 0x00, 0x11, 0xec, 0x04, 0xc0]] @
         [ML_KEM_768_KEY] @ [KEY] @ [STRING [0x00, 0x1d, 0x00, 0x20]] @ [KEY]) (fits d ([0x00, 0x33], 1263))"
    by (rule writes_weaken, (rule writes_cat writes_ops(1) grease [of 4, simplified] writes_drawn [OF s])+)
      (use g in \<open>auto simp: cat_def fits_def ext_def vec_def be_bytes_2\<close>)
  have ech: "writes s g d 0 ([STRING [0xfe, 0x0d]] @ scope ([STRING [0x00, 0x00, 0x01, 0x00, 0x01]] @ [RANDOM 1] @ [STRING [0x00, 0x20]] @ [KEY] @
         scope [RANDOM ech])) (fits d ([0xfe, 0x0d], 42 + ech))"
    by (rule writes_weaken, (rule writes_cat writes_scope writes_ops(1) writes_drawn [OF s])+)
      (auto simp: cat_def vec_of_def fits_def ext_def)
  show ?thesis
    unfolding extension_ops_def extension_table_def list.map list_all2_Cons list_all2_Nil
    apply (intro conjI TrueI)
    subgoal using sni by (simp add: scope_def)
    subgoal by (rule const) (simp_all add: be_bytes_2)
    subgoal using groups [of "[0x00, 0x0a, 0x00, 0x0c]" "[0x00, 0x0a]"] by (simp add: be_bytes_2)
    subgoal by (rule const) (simp_all add: be_bytes_2)
    subgoal by (rule const) (simp_all add: be_bytes_2)
    subgoal by (rule const) (simp_all add: be_bytes_2)
    subgoal by (rule const) (simp_all add: be_bytes_2)
    subgoal by (rule const) (simp_all add: be_bytes_2)
    subgoal by (rule const) (simp_all add: be_bytes_2)
    subgoal by (rule const) (simp_all add: be_bytes_2)
    subgoal using groups [of "[0x00, 0x2b, 0x00, 0x07]" "[0x00, 0x2b]" 7 6 "[6]" "[0x03, 0x04, 0x03, 0x03]"] by (simp add: be_bytes_2)
    subgoal by (rule const) (simp_all add: be_bytes_2)
    subgoal using share by simp
    subgoal by (rule const) (simp_all add: be_bytes_2)
    subgoal using ech by (simp add: scope_def)
    subgoal by (rule const) (simp_all add: be_bytes_2)
    subgoal by simp
    done
qed

lemma mset_map_permuted: "mset cs = mset (map f xs) \<Longrightarrow> \<exists>ys. mset ys = mset xs \<and> cs = map f ys"
proof (induction cs arbitrary: xs)
  case (Cons c cs)
  then have "c \<in> set (map f xs)" by (metis list.set_intros(1) set_mset_mset)
  then obtain a x b where x: "xs = a @ x # b" "c = f x" by (auto dest: split_list)
  then have "mset cs = mset (map f (a @ b))" using Cons.prems by simp
  then obtain ys where "mset ys = mset (a @ b)" "cs = map f ys" using Cons.IH by blast
  then show ?case using x by (intro exI [of _ "x # ys"]) simp
qed simp

definition shape :: "bytes \<times> bytes \<Rightarrow> bytes \<times> nat" where
  "shape e = (fst e, length (snd e))"

definition ext_ok :: "bytes \<Rightarrow> bytes \<times> bytes \<Rightarrow> bool" where
  "ext_ok d e \<longleftrightarrow> length (snd e) < 65536 \<and> (fst e = [0, 0] \<longrightarrow> snd e = sni_body d \<and> length d < 65536)"

lemma fits_list:
  "list_all2 (\<lambda>P b. P b) (map (fits d) table) bs \<Longrightarrow> \<exists>es. bs = map ext es \<and> map shape es = table \<and> (\<forall>e\<in>set es. ext_ok d e)"
proof (induction table arbitrary: bs)
  case (Cons x table)
  then obtain b cs where b: "bs = b # cs" "fits d x b" "list_all2 (\<lambda>P b. P b) (map (fits d) table) cs"
    by (auto simp: list_all2_Cons1)
  from Cons.IH [OF b(3)] obtain es where "cs = map ext es" "map shape es = table" "\<forall>e\<in>set es. ext_ok d e" by blast
  moreover from b(2) obtain c where "b = ext (fst x, c)" "shape (fst x, c) = x" "ext_ok d (fst x, c)"
    by (auto simp: fits_def shape_def ext_ok_def)
  ultimately show ?case using b(1) by (intro exI [of _ "(fst x, c) # es"]) simp
qed simp

definition permuted :: "nat \<Rightarrow> bytes \<Rightarrow> (bytes \<times> bytes) list \<Rightarrow> bool" where
  "permuted ech d es \<longleftrightarrow> mset (map shape es) = mset (extension_table ech d) \<and> (\<forall>e\<in>set es. ext_ok d e)"

lemma permuted_extensions:
  assumes "list_all2 (\<lambda>P b. P b) (map (fits d) (extension_table ech d)) bs" "mset cs = mset bs"
  shows "\<exists>es. concat cs = concat (map ext es) \<and> permuted ech d es"
proof -
  obtain es where es: "bs = map ext es" "map shape es = extension_table ech d" "\<forall>e\<in>set es. ext_ok d e"
    using fits_list [OF assms(1)] by blast
  then obtain ys where ys: "mset ys = mset es" "cs = map ext ys" using mset_map_permuted assms(2) by blast
  then have "mset (map shape ys) = mset (extension_table ech d)" using es(2) by (metis mset_map)
  then show ?thesis using ys es(3) mset_eq_setD [OF ys(1)] by (auto simp: permuted_def)
qed

lemma table_types: "x \<in> set (extension_table ech d) \<Longrightarrow> length (fst x) = 2"
  by (auto simp: extension_table_def)

lemma permuted_shape:
  assumes "permuted ech d es"
  shows "\<forall>e\<in>set es. length (fst e) = 2 \<and> length (snd e) < 65536"
    "length (concat (map ext es)) = 1449 + length d + ech"
    "mset (map fst es) = mset (map fst (extension_table ech d))"
proof -
  have "set (map shape es) = set (extension_table ech d)"
    using assms unfolding permuted_def by (intro mset_eq_setD) blast
  then have t: "\<forall>e\<in>set es. length (fst e) = 2" using table_types by (fastforce simp: shape_def)
  then show "\<forall>e\<in>set es. length (fst e) = 2 \<and> length (snd e) < 65536"
    using assms by (auto simp: permuted_def ext_ok_def)
  have "length (concat (map ext es)) = sum_list (map (\<lambda>x. snd x + 4) (map shape es))"
    using t by (induction es) (auto simp: ext_def shape_def)
  also have "\<dots> = sum_list (map (\<lambda>x. snd x + 4) (extension_table ech d))"
    by (rule sum_list_permuted) (use assms in \<open>simp add: permuted_def\<close>)
  also have "\<dots> = 1449 + length d + ech" by (simp add: extension_table_def)
  finally show "length (concat (map ext es)) = 1449 + length d + ech" .
  have "mset (map fst es) = mset (map fst (map shape es))" by (simp add: shape_def image_mset.comp comp_def)
  also have "\<dots> = image_mset fst (mset (map shape es))" by (rule mset_map)
  also have "\<dots> = mset (map fst (extension_table ech d))" using assms by (simp add: permuted_def)
  finally show "mset (map fst es) = mset (map fst (extension_table ech d))" .
qed

text \<open>The bytes of a greeting with the random field \<open>rnd\<close>.\<close>

definition all_extensions :: "bytes \<Rightarrow> (bytes \<times> bytes) list \<Rightarrow> (bytes \<times> bytes) list" where
  "all_extensions g es = ([g ! 2, g ! 2], []) # es @ [([g ! 3, g ! 3], [0])]"

definition hello_body :: "bytes \<Rightarrow> bytes \<Rightarrow> bytes \<Rightarrow> (bytes \<times> bytes) list \<Rightarrow> bytes" where
  "hello_body rnd sid g es =
     [3, 3] @ rnd @ [32] @ sid @ [0, 32] @ [g ! 0, g ! 0] @ cipher_suites @ vec (concat (map ext (all_extensions g es)))"

definition hello_bytes :: "bytes \<Rightarrow> bytes \<Rightarrow> bytes \<Rightarrow> (bytes \<times> bytes) list \<Rightarrow> bytes" where
  "hello_bytes rnd sid g es = [22, 3, 1] @ vec ([1, 0] @ vec (hello_body rnd sid g es))"

lemma concat_all_extensions:
  "concat (map ext (all_extensions g es)) = [g ! 2, g ! 2] @ [0, 0] @ concat (map ext es) @ [g ! 3, g ! 3] @ [0, 1, 0]"
  by (simp add: all_extensions_def ext_def vec_def be_bytes_2)

lemma client_hello_ops_scopes:
  "client_hello_ops ech = [STRING [0x16, 0x03, 0x01]] @ scope ([STRING [0x01, 0x00]] @ scope ([STRING [0x03, 0x03]] @
     [ZERO RANDOM_SIZE] @ [STRING [0x20]] @ [RANDOM 32] @ [STRING [0x00, 0x20]] @ [GREASE 0] @ [STRING cipher_suites] @
     scope ([GREASE 2] @ [STRING [0x00, 0x00]] @ [PERMUTATION (extension_ops ech)] @ [GREASE 3] @ [STRING [0x00, 0x01, 0x00]] @
       [PADDING])))"
  by (simp add: client_hello_ops_def scope_def)

lemma client_hello_writes:
  assumes s: "secrets_law s" and g: "length g = 7"
  shows "writes s g d 0 (client_hello_ops ech)
    (\<lambda>b. \<exists>sid es. b = hello_bytes (replicate 32 0) sid g es \<and> length sid = 32 \<and> permuted ech d es \<and>
       length (hello_body (replicate 32 0) sid g es) < 65532)"
proof -
  have grease: "i < 7 \<Longrightarrow> writes s g d n [GREASE i] (\<lambda>b. b = [g ! i, g ! i])" for i n
    by (rule writes_ops(4)) (simp add: g)
  have perm: "writes s g d 0 [PERMUTATION (extension_ops ech)] (\<lambda>b. \<exists>es. b = concat (map ext es) \<and> permuted ech d es)"
    by (rule writes_weaken [OF writes_permutation [OF s extension_parts [OF s g]]]) (use permuted_extensions in blast)
  have tail: "writes s g d (0 + 513) ([GREASE 3] @ [STRING [0x00, 0x01, 0x00]] @ [PADDING])
      (cat (\<lambda>b. b = [g ! 3, g ! 3]) (cat (\<lambda>b. b = [0, 1, 0]) (\<lambda>b. b = [])))"
    by (intro writes_cat writes_ops(1) grease) (simp_all add: writes_ops(5))
  have inner: "writes s g d 0 ([PERMUTATION (extension_ops ech)] @ [GREASE 3] @ [STRING [0x00, 0x01, 0x00]] @ [PADDING])
      (cat (\<lambda>b. \<exists>es. b = concat (map ext es) \<and> permuted ech d es)
        (cat (\<lambda>b. b = [g ! 3, g ! 3]) (cat (\<lambda>b. b = [0, 1, 0]) (\<lambda>b. b = []))))"
    by (rule writes_append [OF perm _ tail]) (auto dest: permuted_shape(2))
  show ?thesis
    unfolding client_hello_ops_scopes
    apply (rule writes_weaken)
     apply (rule inner writes_cat writes_scope writes_ops(1,2) grease [of 0, simplified] grease [of 2, simplified]
        writes_drawn [OF s])+
    apply (clarsimp simp: cat_def vec_of_def RANDOM_SIZE_def)
    subgoal for sid es
      by (rule exI [of _ sid], rule exI [of _ es]) (simp add: hello_bytes_def hello_body_def concat_all_extensions)
    done
qed

lemma client_hello_returns:
  assumes s: "secrets_law s" "curve_law s" and g: "length g = 7" and d: "length d \<le> 60000" and e: "ech \<le> 240"
  shows "\<exists>w. render s g d (client_hello_ops ech) \<lparr>out = [], scopes = [], rng = r\<rparr> = Some (Inr w)"
proof -
  have grease: "i < 7 \<Longrightarrow> sized s g d n [GREASE i] 2" for i n by (rule sized_ops(4)) (simp add: g)
  have name: "sized s g d n (scope [DOMAIN]) (length d + 2)" for n
    by (rule sized_scope [OF sized_ops(3)]) (use d in simp)
  have "sized s g d n (scope ([STRING [0]] @ scope [DOMAIN])) (length [0 :: byte] + (length d + 2) + 2)" for n
    by (rule sized_scope [OF sized_append [OF sized_ops(1) name]]) (use d in simp)
  then have "sized s g d n (scope (scope ([STRING [0]] @ scope [DOMAIN]))) (length [0 :: byte] + (length d + 2) + 2 + 2)" for n
    by (rule sized_scope) (use d in simp)
  from sized_append [OF sized_ops(1) this]
  have sni: "sized s g d 0 ([STRING [0, 0]] @ scope (scope ([STRING [0]] @ scope [DOMAIN]))) (length [0 :: byte, 0] +
      (length [0 :: byte] + (length d + 2) + 2 + 2))" .
  have payload: "sized s g d n (scope [RANDOM ech]) (ech + 2)" for n
    by (rule sized_scope [OF sized_drawn(1) [OF s]]) (use e in simp)
  have "sized s g d n (scope ([STRING [0x00, 0x00, 0x01, 0x00, 0x01]] @ [RANDOM 1] @ [STRING [0x00, 0x20]] @ [KEY] @ scope [RANDOM ech]))
      (length [0x00 :: byte, 0x00, 0x01, 0x00, 0x01] + (1 + (length [0x00 :: byte, 0x20] + (32 + (ech + 2)))) + 2)" for n
    by (rule sized_scope, (rule sized_append sized_ops(1) sized_drawn [OF s] payload)+) (use e in simp)
  from sized_append [OF sized_ops(1) this]
  have ech: "sized s g d 0 ([STRING [0xfe, 0x0d]] @ scope ([STRING [0x00, 0x00, 0x01, 0x00, 0x01]] @ [RANDOM 1] @
      [STRING [0x00, 0x20]] @ [KEY] @ scope [RANDOM ech])) (length [0xfe :: byte, 0x0d] +
      (length [0x00 :: byte, 0x00, 0x01, 0x00, 0x01] + (1 + (length [0x00 :: byte, 0x20] + (32 + (ech + 2)))) + 2))" .
  have groups: "sized s g d 0 ([STRING x] @ [GREASE i] @ [STRING y]) k" if "i < 7" "k = length x + (2 + length y)" for x i y k
    unfolding that(2) by (rule sized_append sized_ops(1) grease [OF that(1)])+
  have share: "sized s g d 0 ([STRING x] @ [GREASE 4] @ [STRING y] @ [ML_KEM_768_KEY] @ [KEY] @ [STRING z] @ [KEY]) k"
    if "k = length x + (2 + (length y + (1184 + (32 + (length z + 32)))))" for x y z k
    unfolding that by (rule sized_append sized_ops(1) sized_drawn [OF s] grease [of 4, simplified])+
  have part: "sized s g d 0 [STRING x] k" if "length x = k" for x k
    using sized_ops(1) [of s g d 0 x] that by simp
  have "list_all2 (sized s g d 0) (extension_ops ech)
      [length d + 9, 9, 16, 6, 28, 18, 4, 4, 7, 4, 11, 6, 1267, 9, 46 + ech, 5]"
    unfolding extension_ops_def list_all2_Cons list_all2_Nil
    apply (intro conjI TrueI)
    subgoal using sni by (simp add: scope_def eval_nat_numeral)
    subgoal by (rule part) simp
    subgoal by (rule groups [unfolded append.simps]) simp_all
    subgoal by (rule part) simp
    subgoal by (rule part) simp
    subgoal by (rule part) simp
    subgoal by (rule part) simp
    subgoal by (rule part) simp
    subgoal by (rule part) simp
    subgoal by (rule part) simp
    subgoal by (rule groups [unfolded append.simps]) simp_all
    subgoal by (rule part) simp
    subgoal by (rule share [unfolded append.simps]) simp
    subgoal by (rule part) simp
    subgoal using ech by (simp add: scope_def eval_nat_numeral)
    subgoal by (rule part) simp
    subgoal by simp
    done
  from sized_permutation [OF s(1) this]
  have perm: "sized s g d n [PERMUTATION (extension_ops ech)] (length d + 9 + (1440 + ech))" for n by simp
  have exts: "sized s g d 0 (scope ([GREASE 2] @ [STRING [0x00, 0x00]] @ [PERMUTATION (extension_ops ech)] @ [GREASE 3] @
      [STRING [0x00, 0x01, 0x00]] @ [PADDING])) (2 + (length [0x00 :: byte, 0x00] + (length d + 9 + (1440 + ech) + (2 +
      (length [0x00 :: byte, 0x01, 0x00] + 0)))) + 2)"
    by (rule sized_scope, (rule sized_append sized_ops(1) perm grease [of 2, simplified] grease [of 3, simplified] sized_ops(5))+)
      (use d e in simp_all)
  then have exts: "sized s g d n (scope ([GREASE 2] @ [STRING [0x00, 0x00]] @ [PERMUTATION (extension_ops ech)] @ [GREASE 3] @
      [STRING [0x00, 0x01, 0x00]] @ [PADDING])) (1460 + length d + ech)" for n
    by (simp add: sized_def add.commute add.left_commute)
  have body: "sized s g d n (scope ([STRING [0x03, 0x03]] @ [ZERO RANDOM_SIZE] @ [STRING [0x20]] @ [RANDOM 32] @ [STRING [0x00, 0x20]] @
      [GREASE 0] @ [STRING cipher_suites] @ scope ([GREASE 2] @ [STRING [0x00, 0x00]] @ [PERMUTATION (extension_ops ech)] @
        [GREASE 3] @ [STRING [0x00, 0x01, 0x00]] @ [PADDING])))
      (length [0x03 :: byte, 0x03] + (RANDOM_SIZE + (length [0x20 :: byte] + (32 + (length [0x00 :: byte, 0x20] + (2 +
       (length cipher_suites + (1460 + length d + ech))))))) + 2)" for n
    by (rule sized_scope, (rule sized_append sized_ops(1,2) sized_drawn [OF s] grease [of 0, simplified] exts)+)
      (use d e in \<open>simp add: RANDOM_SIZE_def cipher_suites_def\<close>)
  have "\<exists>k. sized s g d 0 (client_hello_ops ech) k"
    unfolding client_hello_ops_scopes
    by (rule exI, (rule sized_append sized_ops(1) sized_scope body)+)
      (use d e in \<open>simp add: RANDOM_SIZE_def cipher_suites_def\<close>)
  then obtain k where "sized s g d 0 (client_hello_ops ech) k" ..
  from sizedD [OF this] show ?thesis by fastforce
qed

section \<open>What a server reads\<close>

lemma byte_cases_grease: "generate_grease s r = (g, r') \<Longrightarrow> secrets_law s \<Longrightarrow>
  length g = 7 \<and> g ! 2 \<noteq> 0 \<and> g ! 3 \<noteq> 0 \<and> g ! 2 \<noteq> g ! 3 \<and> (g ! 2) AND 15 = 10 \<and> (g ! 3) AND 15 = 10"
proof -
  assume gg: "generate_grease s r = (g, r')" and s: "secrets_law s"
  obtain bs r1 where t: "token_bytes s GREASE_SIZE r = (bs, r1)" by fastforce
  then have "length bs = 7" using token_bytes_length [OF s] by (simp add: GREASE_SIZE_def)
  then obtain b0 b1 b2 b3 b4 b5 b6 where bs: "bs = [b0, b1, b2, b3, b4, b5, b6]"
    by (auto simp: length_Suc_conv eval_nat_numeral)
  define f where "f = (\<lambda>b :: byte. (b AND 0xF0) + 0x0A)"
  have f: "f b AND 15 = 10" for b
  proof -
    have "(b AND 0xF0) AND 0x0A = 0" by (simp add: and.assoc)
    then have "f b = (b AND 0xF0) OR 0x0A" by (simp add: f_def disjunctive_add_eq_or)
    then show ?thesis by (simp add: bit.conj_disj_distrib2 and.assoc)
  qed
  have x: "(f b XOR 0x10) AND 15 = 10" for b using f [of b] by (simp add: bit.conj_xor_distrib2)
  have "x XOR 0x10 \<noteq> x" for x :: byte
  proof
    assume "x XOR 0x10 = x"
    then have "x XOR (x XOR 0x10) = x XOR x" by simp
    then show False by (simp add: xor.assoc [symmetric])
  qed
  moreover have g: "g = separate (map f bs)" using gg t by (simp add: generate_grease_def f_def)
  have g2: "g ! 2 = f b2" and g3: "g ! 3 = (if f b3 = f b2 then f b3 XOR 0x10 else f b3)" and l: "length g = 7"
    by (simp_all add: g bs)
  moreover have "x AND 15 = 10 \<Longrightarrow> x \<noteq> 0" for x :: byte by auto
  ultimately show ?thesis
    using f [of b2] f [of b3] x [of b3] by (metis (full_types))
qed

lemma hello_bytes_parts:
  "\<exists>pre post. length pre = 11 \<and> (\<forall>z. length z = 32 \<longrightarrow> hello_bytes z sid g es = pre @ z @ post)"
proof -
  let ?n = "int (2 + 32 + length ([32] @ sid @ [0, 32] @ [g ! 0, g ! 0] @ cipher_suites @ vec (concat (map ext (all_extensions g es)))))"
  show ?thesis
    by (rule exI [of _ "[22, 3, 1] @ be_bytes 2 (?n + 4) @ [1, 0] @ be_bytes 2 ?n @ [3, 3]"],
        rule exI [of _ "[32] @ sid @ [0, 32] @ [g ! 0, g ! 0] @ cipher_suites @ vec (concat (map ext (all_extensions g es)))"])
      (simp add: hello_bytes_def hello_body_def vec_def [where c = "_ # _"])
qed

lemma set_random_hello:
  assumes "length z = 32" "length rnd = 32"
  shows "set_random rnd (hello_bytes z sid g es) = hello_bytes rnd sid g es"
proof -
  obtain pre post where p: "length pre = 11" "\<forall>z. length z = 32 \<longrightarrow> hello_bytes z sid g es = pre @ z @ post"
    using hello_bytes_parts by blast
  then show ?thesis using assms by (simp add: set_random_def RANDOM_OFFSET_def RANDOM_SIZE_def)
qed

lemma take_whole_u24: "length c < 65536 \<Longrightarrow> take_whole 3 (0 # vec c) = Some c"
proof -
  assume c: "length c < 65536"
  have "be_bytes 3 (int (length c)) = 0 # be_bytes 2 (int (length c))"
    using c by (simp add: be_bytes_def numeral_3_eq_3 numeral_2_eq_2)
  then show ?thesis
    using take_vec_back [of c 3 "[]"] c by (simp add: take_whole_def vec_def)
qed

lemma read_hello:
  assumes rnd: "length rnd = 32" and sid: "length sid = 32" and es: "permuted ech d es"
    and n: "length (hello_body rnd sid g es) < 65532"
  shows "read_client_hello (hello_bytes rnd sid g es) =
    Some \<lparr>ch_random = rnd, ch_session_id = sid, ch_ciphers = [g ! 0, g ! 0] @ take 30 cipher_suites, ch_compression = [0],
      ch_extensions = all_extensions g es\<rparr>"
proof -
  let ?es = "concat (map ext (all_extensions g es))"
  define cs where "cs = [g ! 0, g ! 0] @ take 30 cipher_suites"
  define l1 l2 l3 where "l1 = be_bytes 1 32" and "l2 = be_bytes 2 32" and "l3 = be_bytes 1 1"
  have e: "length ?es < 65536" using n by (simp add: hello_body_def)
  have b: "hello_body rnd sid g es = 3 # 3 # rnd @ l1 @ sid @ l2 @ cs @ l3 @ 0 # vec ?es"
    by (simp add: hello_body_def cipher_suites_def l1_def l2_def l3_def cs_def be_bytes_def numeral_2_eq_2)
  have sid': "take_vec (Suc 0) (l1 @ sid @ rs) = Some (sid, rs)" for rs
    using take_vec_back [of sid 1 rs] sid by (simp add: l1_def)
  have "length cs = 32" by (simp add: cs_def cipher_suites_def)
  then have cs: "take_vec 2 (l2 @ cs @ rs) = Some (cs, rs)" for rs
    using take_vec_back [of cs 2 rs] by (simp add: l2_def)
  have comp: "take_vec (Suc 0) (l3 @ 0 # rs) = Some ([0], rs)" for rs
    using take_vec_back [of "[0]" 1 rs] by (simp add: l3_def)
  have "read_extensions ?es = Some (all_extensions g es)"
    by (rule read_extensions_back) (use permuted_shape(1) [OF es] in \<open>auto simp: all_extensions_def\<close>)
  then have body: "read_body (hello_body rnd sid g es) = Some \<lparr>ch_random = rnd, ch_session_id = sid, ch_ciphers = cs, ch_compression = [0],
      ch_extensions = all_extensions g es\<rparr>"
    unfolding b read_body_def using rnd take_whole_vec [OF e] by (simp add: take_tag_def sid' cs comp)
  have "take_whole 2 (vec ([1, 0] @ vec (hello_body rnd sid g es))) = Some ([1, 0] @ vec (hello_body rnd sid g es))"
    using n by (intro take_whole_vec) simp
  then show ?thesis
    using take_whole_u24 [of "hello_body rnd sid g es"] n body
    by (simp add: read_client_hello_def hello_bytes_def take_tag_def cs_def)
qed

section \<open>The proof of the secret\<close>

text \<open>What a proxy that knows the secret does with a greeting: it computes the HMAC over the
  greeting with zeros for its random field, and reads the time from the difference.\<close>

definition proxy_reads :: "(bytes \<Rightarrow> bytes \<Rightarrow> bytes) \<Rightarrow> bytes \<Rightarrow> bytes \<Rightarrow> int option" where
  "proxy_reads hmac sec bs =
     (let m = xor_bytes (pyslice 11 43 bs) (hmac sec (set_random (replicate 32 0) bs))
      in if take 28 m = replicate 28 0 then Some (le_int (drop 28 m)) else None)"

lemma xor_bytes_self: "xor_bytes a a = replicate (length a) 0"
  by (induction a) simp_all

lemma xor_bytes_commute: "xor_bytes a b = xor_bytes b a"
proof (induction a arbitrary: b)
  case (Cons x a)
  then show ?case by (cases b) (simp_all add: xor.commute)
qed simp

lemma xor_bytes_take_drop: "length a = length b \<Longrightarrow> xor_bytes (take k a @ c) b = xor_bytes (take k a) (take k b) @ xor_bytes c (drop k b)"
  by (simp add: xor_bytes_def zip_append1 min_def)

lemma length_stamp [simp]: "length m = 32 \<Longrightarrow> length (stamp m t) = 32"
  by (simp add: stamp_def RANDOM_SIZE_def TIMESTAMP_SIZE_def Let_def)

lemma stamp_difference:
  assumes "length m = 32"
  shows "xor_bytes (stamp m t) m = replicate 28 0 @ le_bytes 4 (t AND 0xFFFFFFFF)"
proof -
  let ?ts = "le_bytes 4 (t AND 0xFFFFFFFF)"
  have "xor_bytes (stamp m t) m = xor_bytes (take 28 m) (take 28 m) @ xor_bytes (xor_bytes (drop 28 m) ?ts) (drop 28 m)"
    using assms by (simp add: stamp_def RANDOM_SIZE_def TIMESTAMP_SIZE_def Let_def xor_bytes_take_drop)
  moreover have "xor_bytes (drop 28 m) ?ts = xor_bytes ?ts (drop 28 m)" by (rule xor_bytes_commute)
  moreover have "xor_bytes (xor_bytes ?ts (drop 28 m)) (drop 28 m) = ?ts"
    using assms by (intro xor_bytes_cancel) simp
  ultimately show ?thesis using assms by (simp add: xor_bytes_self)
qed

lemma le_int_timestamp: "le_int (le_bytes 4 (t AND 0xFFFFFFFF)) = t mod 2 ^ 32"
proof -
  have "t AND 0xFFFFFFFF = take_bit 32 t" by (simp add: take_bit_eq_mask mask_eq_exp_minus_1)
  then show ?thesis by (simp add: le_int_le_bytes take_bit_eq_mod)
qed

lemma authentic_iff:
  "server_hello_is_authentic hmac response sec rnd \<longleftrightarrow>
     (\<exists>pre suf. length pre = 11 \<and> length (hmac sec (rnd @ pre @ replicate 32 0 @ suf)) = 32 \<and>
        response = pre @ hmac sec (rnd @ pre @ replicate 32 0 @ suf) @ suf)" (is "?a \<longleftrightarrow> ?b")
proof
  assume a: ?a
  let ?pre = "take 11 response" and ?suf = "drop 43 response"
  let ?m = "hmac sec (rnd @ ?pre @ replicate 32 0 @ ?suf)"
  have n: "43 \<le> length response" and m: "?m = take 32 (drop 11 response)"
    using a by (auto simp: server_hello_is_authentic_def RANDOM_OFFSET_def RANDOM_SIZE_def Let_def pyslice_def split: if_splits)
  have "drop 32 (drop 11 response) = ?suf" by simp
  then have "response = ?pre @ take 32 (drop 11 response) @ ?suf" by (metis append_take_drop_id)
  then have "response = ?pre @ ?m @ ?suf" using m by simp
  moreover have "length ?pre = 11" "length ?m = 32" using n m by simp_all
  ultimately show ?b by blast
next
  assume ?b
  then show ?a
    by (auto simp: server_hello_is_authentic_def RANDOM_OFFSET_def RANDOM_SIZE_def Let_def pyslice_def)
qed

section \<open>The greeting as a whole\<close>

definition ascii_name :: "pystr \<Rightarrow> bool" where
  "ascii_name t \<longleftrightarrow> list_all (\<lambda>c. c < 128) t \<and> length t \<le> 60000"

definition hmac_law :: "(bytes \<Rightarrow> bytes \<Rightarrow> bytes) \<Rightarrow> bool" where
  "hmac_law hmac \<longleftrightarrow> (\<forall>k m. length (hmac k m) = 32)"

definition known_types :: "bytes list" where
  "known_types = [[0x00, 0x00], [0x00, 0x05], [0x00, 0x0a], [0x00, 0x0b], [0x00, 0x0d], [0x00, 0x10], [0x00, 0x12], [0x00, 0x17],
     [0x00, 0x1b], [0x00, 0x23], [0x00, 0x2b], [0x00, 0x2d], [0x00, 0x33], [0x44, 0xcd], [0xfe, 0x0d], [0xff, 0x01]]"

lemma ech_le: "ech \<in> set ECH_SIZES \<Longrightarrow> ech \<le> 240"
  by (auto simp: ECH_SIZES_def)

lemma greeting_shape:
  assumes s: "secrets_law s" "curve_law s" and h: "hmac_law hmac" and e: "ech \<in> set ECH_SIZES" and d: "ascii_name domain"
  obtains g sid es rnd r' where
    "build_client_hello hmac s ech domain sec t r = Some (Inr \<lparr>record_bytes = hello_bytes rnd sid g es, random = rnd\<rparr>)"
    "rnd = stamp (hmac sec (hello_bytes (replicate 32 0) sid g es)) t" "length rnd = 32" "length sid = 32"
    "generate_grease s r = (g, r')" "permuted ech (map of_nat domain) es" "length (hello_body rnd sid g es) < 65532"
proof -
  let ?d = "map of_nat domain :: bytes"
  obtain g r1 where g: "generate_grease s r = (g, r1)" by fastforce
  have l: "length g = 7" using byte_cases_grease [OF g s(1)] by simp
  have a: "ascii_encode domain = Inr ?d" using d by (simp add: ascii_encode_def ascii_name_def list_all_iff)
  have "length ?d \<le> 60000" using d by (simp add: ascii_name_def)
  from client_hello_returns [OF s l this ech_le [OF e], of r1]
  obtain w where w: "render s g ?d (client_hello_ops ech) \<lparr>out = [], scopes = [], rng = r1\<rparr> = Some (Inr w)" by blast
  from client_hello_writes [OF s(1) l, of ?d ech, unfolded writes_def, rule_format, OF _ w]
  obtain sid es where o: "out w = hello_bytes (replicate 32 0) sid g es" "length sid = 32" "permuted ech ?d es"
      "length (hello_body (replicate 32 0) sid g es) < 65532" by auto
  define rnd where "rnd = stamp (hmac sec (out w)) t"
  have n: "length rnd = 32" using h by (simp add: rnd_def hmac_law_def)
  have "build_client_hello hmac s ech domain sec t r = Some (Inr \<lparr>record_bytes = hello_bytes rnd sid g es, random = rnd\<rparr>)"
    using set_random_hello [OF _ n, of "replicate 32 0" sid g es]
    by (simp add: build_client_hello_def g a w Let_def o(1) rnd_def)
  moreover have "length (hello_body rnd sid g es) < 65532" using o(4) n by (simp add: hello_body_def)
  ultimately show ?thesis using n o(1-3) g by (intro that [of rnd sid g es r1]) (simp_all add: rnd_def)
qed

lemma name_read:
  assumes es: "permuted ech d es" and g: "g ! 2 \<noteq> 0"
  shows "Option.bind (map_of (all_extensions g es) [0, 0]) (\<lambda>b. Option.bind (take_whole 2 b) (\<lambda>l. Option.bind (take_tag [0] l) (take_whole 2))) = Some d"
proof -
  have "mset (map fst es) = mset (map fst (extension_table ech d))" by (rule permuted_shape(3) [OF es])
  then have "set (map fst es) = set (map fst (extension_table ech d))" by (rule mset_eq_setD)
  then have "[0, 0] \<in> fst ` set es" by (auto simp: extension_table_def)
  then obtain b where b: "map_of es [0, 0] = Some b" by (cases "map_of es [0, 0]") (auto simp: map_of_eq_None_iff)
  then have "ext_ok d ([0, 0], b)" using es by (auto simp: permuted_def dest!: map_of_SomeD)
  then have "b = vec ([0] @ vec d)" "length (vec ([0] @ vec d)) < 65536" "length d < 65536"
    by (auto simp: ext_ok_def sni_body_def)
  then show ?thesis
    using b g take_whole_vec [of "[0] @ vec d"] take_whole_vec [of d] by (simp add: all_extensions_def take_tag_def map_add_def)
qed

lemma types_read:
  assumes es: "permuted ech d es" and g: "g ! 2 \<noteq> 0" "g ! 3 \<noteq> 0" "g ! 2 \<noteq> g ! 3"
    and n: "(g ! 2) AND 15 = 10" "(g ! 3) AND 15 = 10"
  shows "mset (map fst (tl (butlast (all_extensions g es)))) = mset known_types \<and> distinct (map fst (all_extensions g es))"
proof -
  have t: "map fst (extension_table ech d) = known_types" by (simp add: extension_table_def known_types_def)
  have m: "mset (map fst es) = mset known_types" using permuted_shape(3) [OF es] t by simp
  have "distinct known_types" by (simp add: known_types_def)
  then have "distinct (map fst es)" using m mset_eq_imp_distinct_iff by blast
  moreover have "[b, b] \<notin> set known_types" if "b \<noteq> 0" for b by (use that in \<open>auto simp: known_types_def\<close>)
  then have "[g ! 2, g ! 2] \<notin> set (map fst es)" "[g ! 3, g ! 3] \<notin> set (map fst es)"
    using g mset_eq_setD [OF m] by auto
  ultimately show ?thesis using m g(3) by (auto simp: all_extensions_def butlast_append)
qed

lemma length_hello_bytes:
  assumes "permuted ech d es" "length rnd = 32" "length sid = 32"
  shows "length (hello_bytes rnd sid g es) = 1572 + length d + ech"
  using permuted_shape(2) [OF assms(1)] assms(2,3)
  by (simp add: hello_bytes_def hello_body_def cipher_suites_def concat_all_extensions)


text \<open>
  A proxy that shares the secret recognises the greeting and reads the time of the client
  from it; and an answer is accepted exactly if its random field is the HMAC, under the
  secret, of the greeting's random field and the rest of the answer.
\<close>

lemma greeting_authenticated:
  assumes "secrets_law s" "curve_law s" "hmac_law hmac" "ech \<in> set ECH_SIZES" "ascii_name domain"
  shows "\<exists>h. build_client_hello hmac s ech domain sec t r = Some (Inr h) \<and>
    proxy_reads hmac sec (record_bytes h) = Some (t mod 2 ^ 32) \<and>
    (server_hello_is_authentic hmac response sec (random h) \<longleftrightarrow>
       (\<exists>pre suf. length pre = 11 \<and> response = pre @ hmac sec (random h @ pre @ replicate 32 0 @ suf) @ suf))"
proof -
  obtain g sid es rnd where
    h: "build_client_hello hmac s ech domain sec t r = Some (Inr \<lparr>record_bytes = hello_bytes rnd sid g es, random = rnd\<rparr>)"
      "rnd = stamp (hmac sec (hello_bytes (replicate 32 0) sid g es)) t" "length rnd = 32"
    by (rule greeting_shape [OF assms, of sec t r])
  obtain pre post where p: "length pre = 11" "\<forall>z. length z = 32 \<longrightarrow> hello_bytes z sid g es = pre @ z @ post"
    using hello_bytes_parts by blast
  have "set_random (replicate 32 0) (hello_bytes rnd sid g es) = hello_bytes (replicate 32 0) sid g es"
    using h(3) by (simp add: set_random_hello)
  moreover have "pyslice 11 43 (hello_bytes rnd sid g es) = rnd" using p h(3) by (simp add: pyslice_def)
  ultimately have "proxy_reads hmac sec (hello_bytes rnd sid g es) = Some (t mod 2 ^ 32)"
    using h(2) assms(3) stamp_difference [of "hmac sec (hello_bytes (replicate 32 0) sid g es)" t] le_int_timestamp [of t]
    by (simp add: proxy_reads_def hmac_law_def)
  then show ?thesis
    using h(1) assms(3) authentic_iff [of hmac response sec rnd] by (simp add: hmac_law_def)
qed

text \<open>
  The length of the greeting is the length of the domain plus a constant that depends on
  the size drawn for the encrypted hello: the padding to 513 bytes is never written.
\<close>

lemma greeting_length:
  assumes "secrets_law s" "curve_law s" "hmac_law hmac" "ech \<in> set ECH_SIZES" "ascii_name domain"
  shows "\<exists>h. build_client_hello hmac s ech domain sec t r = Some (Inr h) \<and> length (record_bytes h) = 1572 + length domain + ech"
proof -
  obtain g sid es rnd where
    "build_client_hello hmac s ech domain sec t r = Some (Inr \<lparr>record_bytes = hello_bytes rnd sid g es, random = rnd\<rparr>)"
    "length rnd = 32" "length sid = 32" "permuted ech (map of_nat domain) es"
    by (rule greeting_shape [OF assms, of sec t r])
  then show ?thesis using length_hello_bytes [of ech "map of_nat domain" es rnd sid g] by simp
qed

section \<open>Concrete draws\<close>

text \<open>A source whose 32-byte draws are an x-coordinate with y^2 = -1.\<close>

definition demo_candidate :: bytes where
  "demo_candidate = [82, 97, 106, 204, 6, 44, 199, 182, 96, 18, 244, 99, 244, 119, 137, 134, 229, 188, 187, 121, 172, 90, 15, 248, 191, 62, 203,
     138, 183, 142, 132, 53]"

definition demo_secrets :: "nat secrets" where
  "demo_secrets = \<lparr>token_bytes = \<lambda>n r. (if n = 32 then demo_candidate else replicate n 0, r + 1),
     randbits = \<lambda>k r. (0, r + 1), randbelow = \<lambda>n r. (0, r + 1)\<rparr>"

definition demo_hmac :: "bytes \<Rightarrow> bytes \<Rightarrow> bytes" where
  "demo_hmac k m = replicate 32 (of_nat (length k + length m))"

lemma demo_on_curve: "on_curve (candidate demo_candidate)"
proof -
  have x: "candidate demo_candidate = 0x52616acc062cc7b66012f463f4778986e5bcbb79ac5a0ff8bf3ecb8ab78e8435"
    by (simp add: candidate_def demo_candidate_def be_int_def)
  have y: "curve25519_y_squared (candidate demo_candidate) = CURVE25519_PRIME - 1"
    by (simp add: x curve25519_y_squared_def CURVE25519_A_def CURVE25519_PRIME_def)
  have e: "nat ((CURVE25519_PRIME - 1) div 2) = 2 * (2 ^ 253 - 5)" by (simp add: CURVE25519_PRIME_def)
  have "(CURVE25519_PRIME - 1) ^ 2 mod CURVE25519_PRIME = 1" by (simp add: CURVE25519_PRIME_def power2_eq_square)
  then have "((CURVE25519_PRIME - 1) ^ 2) ^ k mod CURVE25519_PRIME = 1" for k :: nat
    using power_mod [of "(CURVE25519_PRIME - 1) ^ 2" CURVE25519_PRIME k] by (simp add: CURVE25519_PRIME_def)
  then show ?thesis unfolding on_curve_def y e power_mult .
qed

lemma demo_laws: "secrets_law demo_secrets" "curve_law demo_secrets" "hmac_law demo_hmac"
proof -
  show "secrets_law demo_secrets" by (simp add: secrets_law_def demo_secrets_def demo_candidate_def)
  show "curve_law demo_secrets"
    unfolding curve_law_def using demo_on_curve by (simp add: demo_secrets_def)
  show "hmac_law demo_hmac" by (simp add: hmac_law_def demo_hmac_def)
qed

lemma demo_name: "ascii_name [97, 46, 98]" "208 \<in> set ECH_SIZES"
  by (simp_all add: ascii_name_def ECH_SIZES_def)


end
