(* ===== verification/FakeTls_Exchange.thy ===== *)
theory FakeTls_Exchange
  imports FakeTls_Greeting Tcp
begin

text \<open>
  The greeting on the wire (\<open>TCP._greet_fake_tls_proxy\<close> in
  \<open>kurigram/pyrogram/connection/transport/tcp/tcp.py\<close>): it is sent, and the answer is read from
  the socket of \<open>Tcp\<close> and checked.
\<close>

section \<open>The exchange\<close>

text \<open>\<open>TCP._greet_fake_tls_proxy\<close>: what is written to the socket, and the socket behind the
  answer.\<close>

definition greet_fake_tls_proxy ::
    "(bytes \<Rightarrow> bytes \<Rightarrow> bytes) \<Rightarrow> 'r secrets \<Rightarrow> nat \<Rightarrow> pystr \<Rightarrow> bytes \<Rightarrow> int \<Rightarrow> 'r \<Rightarrow> socket \<Rightarrow> (bytes \<times> socket) run" where
  "greet_fake_tls_proxy hmac s ech domain sec unix_time r sock =
     bindN (build_client_hello hmac s ech domain sec unix_time r) (\<lambda>h.
     bindN (Some (read_greeting_response sock)) (\<lambda>(response, sock).
       if server_hello_is_authentic hmac response sec (random h) then Some (Inr (record_bytes h, sock))
       else Some (Inl OSError)))"

lemma recv_some:
  assumes "[] \<notin> set s" "recv_from_socket (int n) s = (Some d, s')"
  shows "concat s = d @ concat s' \<and> length d = n \<and> [] \<notin> set s'"
proof -
  have "n \<le> length (concat s)"
    using read_pieces_short [of s n] assms(2) by (fastforce simp: recv_from_socket_def)
  then obtain t where "recv_from_socket (int n) s = (Some (take n (concat s)), t)" "[] \<notin> set t" "concat t = drop n (concat s)"
    using read_pieces_ok [OF assms(1)] by (auto simp: recv_from_socket_def)
  then show ?thesis using assms(2) \<open>n \<le> length (concat s)\<close> by (metis Pair_inject append_take_drop_id length_take min.absorb2 option.inject)
qed

lemma recv_ready:
  assumes "[] \<notin> set s" "concat s = d @ cs"
  obtains s' where "recv_from_socket (int (length d)) s = (Some d, s')" "concat s' = cs" "[] \<notin> set s'"
  using read_pieces_ok [OF assms(1), of "length d"] assms(2) that by (auto simp: recv_from_socket_def)

fun segments :: "bytes list \<Rightarrow> bytes list \<Rightarrow> bytes" where
  "segments (p # ps) (b # bs) = p @ vec b @ segments ps bs"
| "segments ps bs = []"

lemma greeting_segments:
  assumes "[] \<notin> set s"
  shows "(\<exists>s'. read_greeting_segments ps s = Inr (resp, s') \<and> concat s' = cs \<and> [] \<notin> set s') \<longleftrightarrow>
     concat s = resp @ cs \<and> (\<exists>bs. length bs = length ps \<and> (\<forall>b\<in>set bs. length b < 65536) \<and> resp = segments ps bs)"
  using assms
proof (induction ps arbitrary: s resp)
  case Nil
  then show ?case by auto
next
  case (Cons p ps)
  let ?n = "length p + RECORD_LENGTH_SIZE"
  show ?case
  proof
    assume "\<exists>s'. read_greeting_segments (p # ps) s = Inr (resp, s') \<and> concat s' = cs \<and> [] \<notin> set s'"
    then obtain s' head s1 bd s2 r where r: "recv_from_socket (int ?n) s = (Some head, s1)" "take (length p) head = p"
        "recv_from_socket (be_int (drop (length head - RECORD_LENGTH_SIZE) head)) s1 = (Some bd, s2)"
        "read_greeting_segments ps s2 = Inr (r, s')" "resp = head @ bd @ r" "concat s' = cs" "[] \<notin> set s'"
      by (auto split: prod.splits option.splits if_splits simp: bindR_eq_Inr)
    note h = recv_some [OF Cons.prems r(1)]
    define l where "l = drop (length p) head"
    have hl: "head = p @ l" "length l = 2" using r(2) h by (simp_all add: l_def RECORD_LENGTH_SIZE_def) (metis append_take_drop_id)
    define k where "k = nat (be_int l)"
    have kl: "be_int l = int k" "k < 65536" "be_bytes 2 (int k) = l"
      using le_int_bounds [of "rev l"] be_bytes_from_bytes_be [of l 2 False] hl(2)
      by (auto simp: k_def be_int_def from_bytes_be_def from_bytes_le_unsigned)
    have "recv_from_socket (int k) s1 = (Some bd, s2)" using r(3) hl kl by (simp add: RECORD_LENGTH_SIZE_def)
    from recv_some [OF _ this] h have b: "concat s1 = bd @ concat s2" "length bd = k" "[] \<notin> set s2" by simp_all
    have "\<exists>s'. read_greeting_segments ps s2 = Inr (r, s') \<and> concat s' = cs \<and> [] \<notin> set s'" using r(4,6,7) by blast
    with Cons.IH [OF b(3), of r] obtain bs where bs: "concat s2 = r @ cs" "length bs = length ps" "\<forall>b\<in>set bs. length b < 65536"
        "r = segments ps bs" by blast
    have "head @ bd = p @ vec bd" using hl kl b(2) by (simp add: vec_def)
    then have "resp = segments (p # ps) (bd # bs)" using r(5) bs(4) by simp
    moreover have "concat s = resp @ cs" using h b(1) bs(1) r(5) by simp
    ultimately show "concat s = resp @ cs \<and> (\<exists>bs. length bs = length (p # ps) \<and> (\<forall>b\<in>set bs. length b < 65536) \<and> resp = segments (p # ps) bs)"
      using bs(2,3) b(2) kl(2) by (intro conjI exI [of _ "bd # bs"]) simp_all
  next
    assume "concat s = resp @ cs \<and> (\<exists>bs. length bs = length (p # ps) \<and> (\<forall>b\<in>set bs. length b < 65536) \<and> resp = segments (p # ps) bs)"
    then obtain b bs where b: "concat s = (p @ be_bytes 2 (int (length b))) @ b @ segments ps bs @ cs" "length b < 65536"
        "length bs = length ps" "\<forall>b\<in>set bs. length b < 65536" "resp = p @ vec b @ segments ps bs"
      by (auto simp: length_Suc_conv vec_def)
    obtain s1 where s1: "recv_from_socket (int ?n) s = (Some (p @ be_bytes 2 (int (length b))), s1)"
        "concat s1 = b @ segments ps bs @ cs" "[] \<notin> set s1"
      using recv_ready [OF Cons.prems b(1)] by (auto simp: RECORD_LENGTH_SIZE_def)
    obtain s2 where s2: "recv_from_socket (int (length b)) s1 = (Some b, s2)" "concat s2 = segments ps bs @ cs" "[] \<notin> set s2"
      using recv_ready [OF s1(3,2)] by blast
    have "\<exists>s'. read_greeting_segments ps s2 = Inr (segments ps bs, s') \<and> concat s' = cs \<and> [] \<notin> set s'"
      using Cons.IH [OF s2(3), of "segments ps bs"] s2(2) b(3,4) by blast
    moreover have "be_int (be_bytes 2 (int (length b))) = int (length b)" using b(2) by (intro be_int_be_bytes_nat) simp
    ultimately show "\<exists>s'. read_greeting_segments (p # ps) s = Inr (resp, s') \<and> concat s' = cs \<and> [] \<notin> set s'"
      using s1(1) s2(1) b(5) by (auto simp: RECORD_LENGTH_SIZE_def vec_def)
  qed
qed

text \<open>An answer that a proxy with the secret can give to a greeting with the random field
  \<open>rnd\<close>: a handshake record, a change of cipher and a data record, with the HMAC in the random
  field of the first.\<close>

definition proxy_answer :: "(bytes \<Rightarrow> bytes \<Rightarrow> bytes) \<Rightarrow> bytes \<Rightarrow> bytes \<Rightarrow> bytes \<Rightarrow> bool" where
  "proxy_answer hmac sec rnd answer \<longleftrightarrow>
     (\<exists>b c. length b < 65536 \<and> length c < 65536 \<and>
        answer = [0x16, 0x03, 0x03] @ vec b @ CHANGE_CIPHER_SPEC @ APPLICATION_DATA_PREFIX @ vec c) \<and>
     (\<exists>pre suf. length pre = 11 \<and> answer = pre @ hmac sec (rnd @ pre @ replicate 32 0 @ suf) @ suf)"

lemma greeting_response:
  "[] \<notin> set s \<Longrightarrow>
   (\<exists>s'. read_greeting_response s = Inr (resp, s') \<and> concat s' = cs \<and> [] \<notin> set s') \<longleftrightarrow>
     concat s = resp @ cs \<and> (\<exists>b c. length b < 65536 \<and> length c < 65536 \<and>
        resp = [0x16, 0x03, 0x03] @ vec b @ CHANGE_CIPHER_SPEC @ APPLICATION_DATA_PREFIX @ vec c)"
  unfolding read_greeting_response_def greeting_segments GREETING_RESPONSE_PREFIXES_def
  by (fastforce simp: length_Suc_conv numeral_2_eq_2)

text \<open>
  C17. The greeting of a proxy succeeds exactly when the proxy answers with the knowledge of
  the secret.  The proxy reads the client's time from what was sent; and however the network
  cuts the stream, the client goes on right behind the answer if that is one that a proxy
  with the secret can give, and on no other answer.
\<close>

theorem greeting_exchange:
  assumes "secrets_law s" "curve_law s" "hmac_law hmac" "ech \<in> set ECH_SIZES" "ascii_name domain" "[] \<notin> set sock"
  shows "\<exists>h. build_client_hello hmac s ech domain sec t r = Some (Inr h) \<and>
    proxy_reads hmac sec (record_bytes h) = Some (t mod 2 ^ 32) \<and>
    ((\<exists>sock'. greet_fake_tls_proxy hmac s ech domain sec t r sock = Some (Inr (record_bytes h, sock')) \<and>
        concat sock' = cs \<and> [] \<notin> set sock') \<longleftrightarrow>
     (\<exists>answer. proxy_answer hmac sec (random h) answer \<and> concat sock = answer @ cs))"
proof -
  obtain h where h: "build_client_hello hmac s ech domain sec t r = Some (Inr h)"
      "proxy_reads hmac sec (record_bytes h) = Some (t mod 2 ^ 32)"
    using greeting_authenticated [OF assms(1-5), of sec t r] by blast
  have a: "server_hello_is_authentic hmac response sec (random h) \<longleftrightarrow>
      (\<exists>pre suf. length pre = 11 \<and> response = pre @ hmac sec (random h @ pre @ replicate 32 0 @ suf) @ suf)" for response
    using authentic_iff [of hmac response sec "random h"] assms(3) by (simp add: hmac_law_def)
  have "(\<exists>sock'. greet_fake_tls_proxy hmac s ech domain sec t r sock = Some (Inr (record_bytes h, sock')) \<and>
        concat sock' = cs \<and> [] \<notin> set sock') \<longleftrightarrow>
      (\<exists>resp. (\<exists>sock'. read_greeting_response sock = Inr (resp, sock') \<and> concat sock' = cs \<and> [] \<notin> set sock') \<and>
         server_hello_is_authentic hmac resp sec (random h))"
    by (auto simp: greet_fake_tls_proxy_def h(1) bindN_ok split: if_splits)
  also have "\<dots> \<longleftrightarrow> (\<exists>answer. proxy_answer hmac sec (random h) answer \<and> concat sock = answer @ cs)"
    unfolding greeting_response [OF assms(6)] a proxy_answer_def by blast
  finally show ?thesis using h by blast
qed

lemma greeting_exchange_witness:
  "\<exists>h. build_client_hello demo_hmac demo_secrets 208 [97, 46, 98] [1, 2] 77 0 = Some (Inr h) \<and>
     proxy_reads demo_hmac [1, 2] (record_bytes h) = Some 77"
  using greeting_exchange [OF demo_laws demo_name(2,1), of "[]" "[1, 2]" 77 0] by auto

end
