(* ===== verification/Base64.thy ===== *)
theory Base64
  imports TL_Primitives
begin

text \<open>
  What the repository uses of Python's \<open>base64\<close> and \<open>binascii\<close>: encoding, and
  CPython's decoding loop with and without its strict mode.  Strings are lists of
  code points.  The repository's own code is in the theories that import this one.
\<close>

section \<open>Alphabets\<close>

definition codes :: "string \<Rightarrow> pystr" where
  "codes s = map of_char s"

text \<open>The digit characters; \<open>u\<close> selects the URL-safe alphabet.\<close>

definition b64_char :: "bool \<Rightarrow> nat \<Rightarrow> nat" where
  "b64_char u d =
     (if d < 26 then 65 + d
      else if d < 52 then 97 + (d - 26)
      else if d < 62 then 48 + (d - 52)
      else if d = 62 then (if u then 45 else 43)
      else (if u then 95 else 47))"

text \<open>The table of \<open>binascii\<close>, which knows the standard alphabet only.\<close>

definition b64_value :: "nat \<Rightarrow> nat option" where
  "b64_value ch =
     (if 65 \<le> ch \<and> ch \<le> 90 then Some (ch - 65)
      else if 97 \<le> ch \<and> ch \<le> 122 then Some (ch - 97 + 26)
      else if 48 \<le> ch \<and> ch \<le> 57 then Some (ch - 48 + 52)
      else if ch = 43 then Some 62
      else if ch = 47 then Some 63
      else None)"

definition PAD :: nat where "PAD = 61"

text \<open>\<open>s.translate\<close> of the URL-safe characters to the standard ones.\<close>

definition from_urlsafe :: "nat \<Rightarrow> nat" where
  "from_urlsafe ch = (if ch = 45 then 43 else if ch = 95 then 47 else ch)"

section \<open>Encoding\<close>

fun b64_groups :: "bool \<Rightarrow> nat list \<Rightarrow> pystr" where
  "b64_groups u [] = []"
| "b64_groups u [a] = [b64_char u (a div 4), b64_char u (a mod 4 * 16), PAD, PAD]"
| "b64_groups u [a, b] =
     [b64_char u (a div 4), b64_char u (a mod 4 * 16 + b div 16), b64_char u (b mod 16 * 4), PAD]"
| "b64_groups u (a # b # c # xs) =
     b64_char u (a div 4) # b64_char u (a mod 4 * 16 + b div 16) #
     b64_char u (b mod 16 * 4 + c div 64) # b64_char u (c mod 64) # b64_groups u xs"

definition b64encode :: "bool \<Rightarrow> bytes \<Rightarrow> pystr" where
  "b64encode u bs = b64_groups u (map unat bs)"

section \<open>Decoding\<close>

text \<open>
  \<open>binascii.a2b_base64\<close>: \<open>quad_pos\<close> is the position in the group of four, \<open>left\<close> the
  bits carried over, \<open>pads\<close> the padding characters since the last digit.
\<close>

fun a2b_loop :: "bool \<Rightarrow> nat \<Rightarrow> nat \<Rightarrow> nat \<Rightarrow> bool \<Rightarrow> pystr \<Rightarrow> nat list res" where
  "a2b_loop strict quad_pos left pads started [] =
     (if quad_pos = 0 then Inr [] else Inl ValueError)"
| "a2b_loop strict quad_pos left pads started (ch # s) =
     (if ch = PAD
      then if quad_pos \<ge> 2 \<and> quad_pos + (pads + 1) \<ge> 4
           then (if strict \<and> s \<noteq> [] then Inl ValueError else Inr [])
           else a2b_loop strict quad_pos left (if quad_pos \<ge> 2 then pads + 1 else pads) True s
      else case b64_value ch of
             None \<Rightarrow> if strict then Inl ValueError else a2b_loop strict quad_pos left pads started s
           | Some v \<Rightarrow>
               if strict \<and> started then Inl ValueError
               else if quad_pos = 0 then a2b_loop strict 1 v 0 started s
               else if quad_pos = 1
               then bindR (a2b_loop strict 2 (v mod 16) 0 started s) (\<lambda>r. Inr ((left * 4 + v div 16) # r))
               else if quad_pos = 2
               then bindR (a2b_loop strict 3 (v mod 4) 0 started s) (\<lambda>r. Inr ((left * 16 + v div 4) # r))
               else bindR (a2b_loop strict 0 0 0 started s) (\<lambda>r. Inr ((left * 64 + v) # r)))"

definition a2b_base64 :: "bool \<Rightarrow> pystr \<Rightarrow> bytes res" where
  "a2b_base64 strict s =
     (if list_ex (\<lambda>ch. ch \<ge> 128) s then Inl ValueError
      else if strict \<and> s \<noteq> [] \<and> hd s = PAD then Inl ValueError
      else bindR (a2b_loop strict 0 0 0 False s) (\<lambda>r. Inr (map of_nat r)))"

text \<open>\<open>base64.urlsafe_b64decode\<close> and \<open>base64.b64decode(s, altchars=b"-_", validate=True)\<close>.\<close>

definition urlsafe_b64decode :: "pystr \<Rightarrow> bytes res" where
  "urlsafe_b64decode s = a2b_base64 False (map from_urlsafe s)"

definition b64decode_validate :: "pystr \<Rightarrow> bytes res" where
  "b64decode_validate s = a2b_base64 True (map from_urlsafe s)"

text \<open>\<open>s.rstrip("=")\<close> and \<open>s + "=" * (-len(s) % 4)\<close>.\<close>

definition rstrip_pad :: "pystr \<Rightarrow> pystr" where
  "rstrip_pad s = rev (dropWhile (\<lambda>ch. ch = PAD) (rev s))"

definition add_pad :: "pystr \<Rightarrow> pystr" where
  "add_pad s = s @ replicate (nat (- int (length s) mod 4)) PAD"

section \<open>Round trip\<close>

lemma b64_value_char: "d < 64 \<Longrightarrow> b64_value (from_urlsafe (b64_char u d)) = Some d"
  by (auto simp: b64_value_def from_urlsafe_def b64_char_def)

lemma b64_char_props: "b64_char u d \<noteq> PAD" "from_urlsafe (b64_char u d) \<noteq> PAD" "b64_char u d < 128"
  by (auto simp: b64_char_def PAD_def from_urlsafe_def)

lemma from_urlsafe_PAD [simp]: "from_urlsafe PAD = PAD"
  by (simp add: from_urlsafe_def PAD_def)

lemma a2b_loop_digit:
  assumes "d < 64"
  shows "a2b_loop strict q l p False (from_urlsafe (b64_char u d) # s) =
    (if q = 0 then a2b_loop strict 1 d 0 False s
     else if q = 1 then bindR (a2b_loop strict 2 (d mod 16) 0 False s) (\<lambda>r. Inr ((l * 4 + d div 16) # r))
     else if q = 2 then bindR (a2b_loop strict 3 (d mod 4) 0 False s) (\<lambda>r. Inr ((l * 16 + d div 4) # r))
     else bindR (a2b_loop strict 0 0 0 False s) (\<lambda>r. Inr ((l * 64 + d) # r)))"
  using assms b64_value_char [OF assms, of u] b64_char_props(2) [of u d] by simp

lemma byte_digits:
  "a < 256 \<Longrightarrow> a div 4 < 64" "b < 256 \<Longrightarrow> a mod 4 * 16 + b div 16 < (64 :: nat)"
  "c < 256 \<Longrightarrow> b mod 16 * 4 + c div 64 < (64 :: nat)" "a mod 4 * 16 < (64 :: nat)" "b mod 16 * 4 < (64 :: nat)"
  "c mod 64 < (64 :: nat)" for a b c :: nat
  by (auto simp: less_mult_imp_div_less)

lemma digit_arith:
  "b < 256 \<Longrightarrow> a div 4 * 4 + (a mod 4 * 16 + b div 16) div 16 = a"
  "b < 256 \<Longrightarrow> (a mod 4 * 16 + b div 16) mod 16 = b div 16"
  "c < 256 \<Longrightarrow> b div 16 * 16 + (b mod 16 * 4 + c div 64) div 4 = b"
  "c < 256 \<Longrightarrow> (b mod 16 * 4 + c div 64) mod 4 = c div 64"
  "c div 64 * 64 + c mod 64 = c" for a b c :: nat
proof -
  assume b: "b < 256"
  then have "b div 16 < 16" by (simp add: less_mult_imp_div_less)
  then show "a div 4 * 4 + (a mod 4 * 16 + b div 16) div 16 = a" "(a mod 4 * 16 + b div 16) mod 16 = b div 16"
    by simp_all
next
  assume "c < 256"
  then have "c div 64 < 4" by (simp add: less_mult_imp_div_less)
  then show "b div 16 * 16 + (b mod 16 * 4 + c div 64) div 4 = b" "(b mod 16 * 4 + c div 64) mod 4 = c div 64"
    by simp_all
next
  show "c div 64 * 64 + c mod 64 = c" by simp
qed

lemma a2b_loop_pad [simp]:
  "a2b_loop strict 2 l 0 False [PAD, PAD] = Inr []" "a2b_loop strict 3 l 0 False [PAD] = Inr []"
  by simp_all

lemma a2b_groups:
  "\<forall>x \<in> set xs. x < 256 \<Longrightarrow> a2b_loop strict 0 l p False (map from_urlsafe (b64_groups u xs)) = Inr xs"
proof (induction u xs arbitrary: l p rule: b64_groups.induct)
  case (1 u)
  then show ?case by simp
next
  case (2 u a)
  then show ?case
    using digit_arith(1,2) [of 0 a] by (simp add: a2b_loop_digit byte_digits del: a2b_loop.simps(2))
next
  case (3 u a b)
  then show ?case
    using digit_arith(1,2) [of b a] digit_arith(3) [of 0 b]
    by (simp add: a2b_loop_digit byte_digits del: a2b_loop.simps(2))
next
  case (4 u a b c xs)
  then have "c div 64 < 4" by (simp add: less_mult_imp_div_less)
  then have e: "c div 64 div 4 = 0" "c div 64 mod 4 = c div 64" by (rule div_less, rule mod_less)
  show ?case
    using 4 digit_arith(1,2) [of b a] digit_arith(5) [of c]
    by (simp add: a2b_loop_digit byte_digits e del: a2b_loop.simps(2))
qed

lemma b64_groups_ascii: "\<forall>x \<in> set xs. x < 256 \<Longrightarrow> ch \<in> set (b64_groups u xs) \<Longrightarrow> from_urlsafe ch < 128"
  by (induction u xs rule: b64_groups.induct)
    (auto simp: from_urlsafe_def PAD_def b64_char_props)

lemma dvd4: "(4 :: nat) dvd Suc (Suc (Suc (Suc 0)))" "(4 :: nat) dvd 4"
  by (rule dvdI [of _ _ 1], simp)+

lemma dvd4_add: "(4 :: nat) dvd Suc (Suc (Suc (Suc n))) \<longleftrightarrow> 4 dvd n"
  by presburger

lemma b64_groups_shape:
  "\<exists>bd k. b64_groups u xs = bd @ replicate k PAD \<and> k < 4 \<and> (bd \<noteq> [] \<longrightarrow> last bd \<noteq> PAD) \<and>
     4 dvd length bd + k \<and> (bd = [] \<longleftrightarrow> xs = []) \<and> (xs = [] \<longrightarrow> k = 0)"
proof (induction u xs rule: b64_groups.induct)
  case (1 u)
  then show ?case by (intro exI [of _ "[]"] exI [of _ 0]) simp
next
  case (2 u a)
  show ?case
    by (intro exI [of _ "[b64_char u (a div 4), b64_char u (a mod 4 * 16)]"] exI [of _ "Suc (Suc 0)"])
      (simp add: b64_char_props dvd4)
next
  case (3 u a b)
  show ?case
    by (intro exI [of _ "[b64_char u (a div 4), b64_char u (a mod 4 * 16 + b div 16), b64_char u (b mod 16 * 4)]"]
        exI [of _ 1]) (simp add: b64_char_props dvd4)
next
  case (4 u a b c xs)
  then obtain bd k where bk: "b64_groups u xs = bd @ replicate k PAD" "k < 4" "bd \<noteq> [] \<longrightarrow> last bd \<noteq> PAD"
    "4 dvd length bd + k" "bd = [] \<longleftrightarrow> xs = []" "xs = [] \<longrightarrow> k = 0" by blast
  let ?h = "[b64_char u (a div 4), b64_char u (a mod 4 * 16 + b div 16), b64_char u (b mod 16 * 4 + c div 64),
    b64_char u (c mod 64)]"
  from bk show ?case
    by (intro exI [of _ "?h @ bd"] exI [of _ k]) (auto simp: b64_char_props dvd4_add)
qed

lemma rstrip_pad_body: "bd = [] \<or> last bd \<noteq> PAD \<Longrightarrow> rstrip_pad (bd @ replicate k PAD) = bd"
proof -
  assume "bd = [] \<or> last bd \<noteq> PAD"
  then have "dropWhile (\<lambda>ch. ch = PAD) (rev bd) = rev bd"
    by (cases bd rule: rev_cases) auto
  moreover have "dropWhile (\<lambda>ch. ch = PAD) (replicate k PAD @ ys) = dropWhile (\<lambda>ch. ch = PAD) ys" for ys
    by (induction k) auto
  ultimately show ?thesis by (simp add: rstrip_pad_def)
qed

lemma strip_and_pad: "add_pad (rstrip_pad (b64_groups u xs)) = b64_groups u xs"
proof -
  obtain bd k where bk: "b64_groups u xs = bd @ replicate k PAD" "k < 4" "bd \<noteq> [] \<longrightarrow> last bd \<noteq> PAD"
    "4 dvd length bd + k" using b64_groups_shape [of u xs] by blast
  from bk(4) obtain m where "length bd + k = 4 * m" by (elim dvdE)
  then have "- int (length bd) = int k + 4 * (- int m)" by simp
  then have "nat (- int (length bd) mod 4) = k" using bk(2) by (simp only: mod_mult_self2) simp
  with bk(1,3) rstrip_pad_body [of bd k] show ?thesis by (auto simp: add_pad_def)
qed

lemma of_nat_unat_map: "map (\<lambda>b. of_nat (unat b)) bs = (bs :: bytes)"
  by (simp add: map_idI)

lemma bytes_unat: "\<forall>x \<in> set (map unat (bs :: bytes)). x < 256"
proof -
  have "unat b < 256" for b :: byte
    using uint_byte_bounds [of b] by (metis nat_less_iff nat_numeral unat_eq_nat_uint of_nat_numeral)
  then show ?thesis by auto
qed

text \<open>Decoding undoes encoding, also when the padding was dropped in between.\<close>

lemma urlsafe_round_trip:
  "urlsafe_b64decode (b64encode u bs) = Inr bs"
  "urlsafe_b64decode (add_pad (rstrip_pad (b64encode u bs))) = Inr bs"
proof -
  have "\<not> list_ex (\<lambda>ch. ch \<ge> 128) (map from_urlsafe (b64_groups u (map unat bs)))"
    using b64_groups_ascii [OF bytes_unat] by (fastforce simp: list_ex_iff)
  then show "urlsafe_b64decode (b64encode u bs) = Inr bs"
    by (simp add: urlsafe_b64decode_def a2b_base64_def b64encode_def a2b_groups [OF bytes_unat] comp_def
        of_nat_unat_map)
  then show "urlsafe_b64decode (add_pad (rstrip_pad (b64encode u bs))) = Inr bs"
    by (simp add: b64encode_def strip_and_pad)
qed

lemma strict_round_trip: "b64decode_validate (add_pad (rstrip_pad (b64encode u bs))) = Inr bs"
proof -
  have "\<not> list_ex (\<lambda>ch. ch \<ge> 128) (map from_urlsafe (b64_groups u (map unat bs)))"
    using b64_groups_ascii [OF bytes_unat] by (fastforce simp: list_ex_iff)
  moreover have "xs = [] \<or> hd (map from_urlsafe (b64_groups u xs)) \<noteq> PAD" for xs
    by (induction u xs rule: b64_groups.induct) (simp_all add: b64_char_props)
  ultimately show ?thesis
    by (simp add: b64decode_validate_def a2b_base64_def b64encode_def strip_and_pad a2b_groups [OF bytes_unat]
        comp_def of_nat_unat_map) (metis list.map_disc_iff b64_groups.simps(1))
qed

end
