(* ===== verification/Proxy.thy ===== *)
theory Proxy
  imports Base64 Tcp
begin

text \<open>
  \<open>kurigram/pyrogram/connection/proxy.py\<close> (the proxy kinds, their secrets, the dict
  form) and \<open>connection.py\<close> (the choice of transport, the data-centre id on the wire,
  the connection attempts).  IDNA encoding, the test for an IP literal and \<open>int()\<close> of a
  string are parameters; the link form (regular expressions, \<open>urllib\<close>) is not modelled.
\<close>

section \<open>Proxies\<close>

datatype scheme = SOCKS4 | SOCKS5 | HTTP | MTPROXY | WEB

datatype proxy =
    SOCKS4Proxy pystr int "pystr option" "pystr option"
  | SOCKS5Proxy pystr int "pystr option" "pystr option"
  | HTTPProxy pystr int "pystr option" "pystr option"
  | MTProxy pystr int bytes "pystr option"
  | WebProxy pystr bytes

definition HTTPS_PORT :: int where "HTTPS_PORT = 443"

definition client_proxy_address :: "proxy option \<Rightarrow> (pystr \<times> int) option" where
  "client_proxy_address p =
     (case p of
        Some (MTProxy hostname port _ _) \<Rightarrow> Some (hostname, port)
      | Some (WebProxy hostname _) \<Rightarrow> Some (hostname, HTTPS_PORT)
      | _ \<Rightarrow> None)"

definition uses_random_padding :: "proxy option \<Rightarrow> bool" where
  "uses_random_padding p =
     (case p of
        Some (MTProxy _ _ secret sni_hostname) \<Rightarrow>
          sni_hostname \<noteq> None \<or> length secret = MARKED_SECRET_SIZE
      | Some (WebProxy _ secret) \<Rightarrow> length secret = MARKED_SECRET_SIZE
      | _ \<Rightarrow> False)"

section \<open>Secrets\<close>

text \<open>\<open>bytes.fromhex\<close>: pairs of hexadecimal digits, with white space between pairs.\<close>

definition hex_value :: "nat \<Rightarrow> nat option" where
  "hex_value ch =
     (if 48 \<le> ch \<and> ch \<le> 57 then Some (ch - 48)
      else if 97 \<le> ch \<and> ch \<le> 102 then Some (ch - 97 + 10)
      else if 65 \<le> ch \<and> ch \<le> 70 then Some (ch - 65 + 10)
      else None)"

definition is_ascii_space :: "nat \<Rightarrow> bool" where
  "is_ascii_space ch \<longleftrightarrow> ch = 32 \<or> (9 \<le> ch \<and> ch \<le> 13)"

fun fromhex :: "pystr \<Rightarrow> bytes res" where
  "fromhex [] = Inr []"
| "fromhex (a # s) =
     (if is_ascii_space a then fromhex s
      else case s of
             [] \<Rightarrow> Inl ValueError
           | b # s' \<Rightarrow>
               (case (hex_value a, hex_value b) of
                  (Some x, Some y) \<Rightarrow> bindR (fromhex s') (\<lambda>r. Inr (of_nat (16 * x + y) # r))
                | _ \<Rightarrow> Inl ValueError))"

definition PADDED_MARKER :: byte where "PADDED_MARKER = 0xDD"
definition FAKE_TLS_MARKER :: byte where "FAKE_TLS_MARKER = 0xEE"
definition MAX_SNI_DOMAIN_SIZE :: nat where "MAX_SNI_DOMAIN_SIZE = 182"

record decoded_secret =
  ds_secret :: bytes
  ds_sni_hostname :: "pystr option"

definition decode_fake_tls_secret :: "bytes \<Rightarrow> decoded_secret res" where
  "decode_fake_tls_secret full_secret =
     (let domain = drop MARKED_SECRET_SIZE full_secret
      in if length domain > MAX_SNI_DOMAIN_SIZE then Inl ValueError
         else if list_ex (\<lambda>b. 128 \<le> unat b) domain then Inl ValueError
         else Inr \<lparr>ds_secret = pyslice 1 MARKED_SECRET_SIZE full_secret,
                   ds_sni_hostname = Some (map unat domain)\<rparr>)"

definition base64_decoded :: "pystr \<Rightarrow> bytes option" where
  "base64_decoded encoded_secret =
     (case b64decode_validate (add_pad encoded_secret) of Inl _ \<Rightarrow> None | Inr b \<Rightarrow> Some b)"

definition decode_proxy_secret :: "pystr \<Rightarrow> bytes res" where
  "decode_proxy_secret encoded_secret =
     (case fromhex encoded_secret of
        Inr b \<Rightarrow> Inr b
      | Inl _ \<Rightarrow> (case base64_decoded encoded_secret of Some b \<Rightarrow> Inr b | None \<Rightarrow> Inl ValueError))"

definition decode_mtproxy_secret :: "pystr \<Rightarrow> scheme \<Rightarrow> decoded_secret res" where
  "decode_mtproxy_secret encoded_secret sch =
     bindR (decode_proxy_secret encoded_secret) (\<lambda>full_secret.
       if length full_secret = OBFUSCATED2_SECRET_SIZE
       then Inr \<lparr>ds_secret = full_secret, ds_sni_hostname = None\<rparr>
       else if length full_secret = MARKED_SECRET_SIZE \<and> hd full_secret = PADDED_MARKER
       then Inr \<lparr>ds_secret = full_secret, ds_sni_hostname = None\<rparr>
       else if length full_secret > MARKED_SECRET_SIZE \<and> hd full_secret = FAKE_TLS_MARKER
       then (if sch = WEB then Inl ValueError else decode_fake_tls_secret full_secret)
       else Inl ValueError)"

section \<open>Building a proxy\<close>

record net_env =
  is_ip_literal :: "pystr \<Rightarrow> bool"
  idna_ascii :: "pystr \<Rightarrow> pystr res"
  int_of_str :: "pystr \<Rightarrow> int res"

text \<open>\<open>str.isspace\<close> of one character, and \<open>strip\<close>, \<open>rstrip(".")\<close>, \<open>lower\<close> of ASCII.\<close>

definition is_space :: "nat \<Rightarrow> bool" where
  "is_space ch \<longleftrightarrow> ch \<in> {9..13} \<union> {28..32} \<union> {8192..8202} \<or>
     ch \<in> set [133, 160, 5760, 8232, 8233, 8239, 8287, 12288]"

definition rstrip_by :: "(nat \<Rightarrow> bool) \<Rightarrow> pystr \<Rightarrow> pystr" where
  "rstrip_by P s = rev (dropWhile P (rev s))"

definition strip :: "pystr \<Rightarrow> pystr" where
  "strip s = rstrip_by is_space (dropWhile is_space s)"

definition lower_ascii :: "pystr \<Rightarrow> pystr" where
  "lower_ascii s = map (\<lambda>ch. if 65 \<le> ch \<and> ch \<le> 90 then ch + 32 else ch) s"

definition canonicalize_web_hostname :: "net_env \<Rightarrow> pystr \<Rightarrow> pystr res" where
  "canonicalize_web_hostname env hostname0 =
     (let hostname = rstrip_by (\<lambda>ch. ch = 46) (strip hostname0)
      in if hostname = [] then Inl ValueError
         else if is_ip_literal env hostname then Inl ValueError
         else case idna_ascii env hostname of
                Inl UnicodeError \<Rightarrow> Inl ValueError
              | Inl e \<Rightarrow> Inl e
              | Inr a \<Rightarrow> (let canonical = lower_ascii a
                         in if 46 \<notin> set canonical then Inl ValueError else Inr canonical))"

text \<open>A port is given as a number or as text.\<close>

datatype port = PortInt int | PortStr pystr

definition int_port :: "net_env \<Rightarrow> port \<Rightarrow> int res" where
  "int_port env p = (case p of PortInt i \<Rightarrow> Inr i | PortStr s \<Rightarrow> int_of_str env s)"

definition build_web_proxy :: "net_env \<Rightarrow> pystr \<Rightarrow> pystr \<Rightarrow> proxy res" where
  "build_web_proxy env hostname encoded_secret =
     bindR (decode_mtproxy_secret encoded_secret WEB) (\<lambda>d.
     bindR (canonicalize_web_hostname env hostname) (\<lambda>h. Inr (WebProxy h (ds_secret d))))"

definition build_mtproxy :: "net_env \<Rightarrow> pystr \<Rightarrow> port \<Rightarrow> pystr \<Rightarrow> proxy res" where
  "build_mtproxy env hostname p encoded_secret =
     bindR (decode_mtproxy_secret encoded_secret MTPROXY) (\<lambda>d.
     bindR (int_port env p) (\<lambda>i. Inr (MTProxy hostname i (ds_secret d) (ds_sni_hostname d))))"

definition build_dialed_proxy ::
    "net_env \<Rightarrow> scheme \<Rightarrow> pystr \<Rightarrow> port \<Rightarrow> pystr option \<Rightarrow> pystr option \<Rightarrow> proxy res" where
  "build_dialed_proxy env sch hostname p username password =
     bindR (int_port env p) (\<lambda>i.
       case sch of
         SOCKS4 \<Rightarrow> Inr (SOCKS4Proxy hostname i username password)
       | SOCKS5 \<Rightarrow> Inr (SOCKS5Proxy hostname i username password)
       | HTTP \<Rightarrow> Inr (HTTPProxy hostname i username password)
       | _ \<Rightarrow> Inl (KeyError 0))"

text \<open>\<open>str.lower\<close> as far as the comparison with the scheme names can tell: besides the
  ASCII capitals, the Kelvin sign is the only character whose lower case is ASCII.\<close>

definition lower_scheme :: "pystr \<Rightarrow> pystr" where
  "lower_scheme s = map (\<lambda>ch. if ch = 8490 then 107 else ch) (lower_ascii s)"

definition parse_scheme :: "pystr option \<Rightarrow> scheme res" where
  "parse_scheme v =
     (case v of
        None \<Rightarrow> Inl ValueError
      | Some s \<Rightarrow>
          (let l = lower_scheme s
           in if s = [] then Inl ValueError
              else if l = codes ''socks4'' then Inr SOCKS4
              else if l = codes ''socks5'' then Inr SOCKS5
              else if l = codes ''http'' then Inr HTTP
              else if l = codes ''mtproxy'' then Inr MTPROXY
              else if l = codes ''web'' then Inr WEB
              else Inl ValueError))"

record proxy_dict =
  pd_scheme :: "pystr option"
  pd_hostname :: "pystr option"
  pd_port :: "port option"
  pd_secret :: "pystr option"
  pd_username :: "pystr option"
  pd_password :: "pystr option"

text \<open>Python's truth of a value that may be missing.\<close>

definition str_true :: "pystr option \<Rightarrow> bool" where
  "str_true v \<longleftrightarrow> v \<noteq> None \<and> v \<noteq> Some []"

definition port_true :: "port option \<Rightarrow> bool" where
  "port_true v \<longleftrightarrow> v \<noteq> None \<and> v \<noteq> Some (PortInt 0) \<and> v \<noteq> Some (PortStr [])"

definition parse_proxy_dict :: "net_env \<Rightarrow> proxy_dict \<Rightarrow> proxy res" where
  "parse_proxy_dict env d =
     bindR (parse_scheme (pd_scheme d)) (\<lambda>sch.
       if sch = WEB
       then (if \<not> str_true (pd_hostname d) \<or> \<not> str_true (pd_secret d) then Inl ValueError
             else build_web_proxy env (the (pd_hostname d)) (the (pd_secret d)))
       else if sch = MTPROXY
       then (if \<not> str_true (pd_hostname d) \<or> \<not> port_true (pd_port d) \<or> \<not> str_true (pd_secret d)
             then Inl ValueError
             else build_mtproxy env (the (pd_hostname d)) (the (pd_port d)) (the (pd_secret d)))
       else if \<not> str_true (pd_hostname d) \<or> \<not> port_true (pd_port d) then Inl ValueError
       else build_dialed_proxy env sch (the (pd_hostname d)) (the (pd_port d)) (pd_username d) (pd_password d))"

section \<open>Connection\<close>

datatype transport_class =
    TCPAbridged | TCPAbridgedO | TCPFull | TCPIntermediate | TCPIntermediateO | TCPIntermediatePadded

definition OBFUSCATE_TAG :: "transport_class \<Rightarrow> bytes option" where
  "OBFUSCATE_TAG k =
     (case k of
        TCPAbridged \<Rightarrow> Some ABRIDGED_OBFUSCATE_TAG
      | TCPIntermediatePadded \<Rightarrow> Some INTERMEDIATE_PADDED_OBFUSCATE_TAG
      | _ \<Rightarrow> None)"

definition transport_class_for :: "proxy option \<Rightarrow> transport_class \<Rightarrow> transport_class" where
  "transport_class_for p dflt = (if uses_random_padding p then TCPIntermediatePadded else dflt)"

definition TEST_MODE_DC_ID_SHIFT :: int where "TEST_MODE_DC_ID_SHIFT = 10000"

definition protocol_dc_id :: "int \<Rightarrow> bool \<Rightarrow> bool \<Rightarrow> int" where
  "protocol_dc_id dc_id test_mode media =
     (let p = dc_id + (if test_mode then TEST_MODE_DC_ID_SHIFT else 0) in if media then - p else p)"

definition MAX_CONNECTION_ATTEMPTS :: nat where "MAX_CONNECTION_ATTEMPTS = 3"

text \<open>\<open>Connection.connect\<close>, over the exception each attempt would end with: the number
  of attempts made and the result.\<close>

fun connect_loop :: "nat \<Rightarrow> (nat \<Rightarrow> py_error option) \<Rightarrow> nat \<times> unit res" where
  "connect_loop 0 attempt = (0, Inl ConnectionError)"
| "connect_loop (Suc k) attempt =
     (case attempt 0 of
        None \<Rightarrow> (1, Inr ())
      | Some e \<Rightarrow>
          if e = OSError \<or> e = TimeoutError \<or> e = ConnectionError
          then (let (n, r) = connect_loop k (\<lambda>i. attempt (Suc i)) in (Suc n, r))
          else (1, Inl e))"

definition Connection_connect :: "(nat \<Rightarrow> py_error option) \<Rightarrow> nat \<times> unit res" where
  "Connection_connect attempt = connect_loop MAX_CONNECTION_ATTEMPTS attempt"

section \<open>Lemmas\<close>

definition tohex :: "bytes \<Rightarrow> pystr" where
  "tohex bs = concat (map (\<lambda>b. let d = (\<lambda>v. if v < 10 then 48 + v else 87 + v)
     in [d (unat b div 16), d (unat b mod 16)]) bs)"

lemma hex_digit: "v < 16 \<Longrightarrow> hex_value (if v < 10 then 48 + v else 87 + v) = Some v \<and>
    \<not> is_ascii_space (if v < 10 then 48 + v else 87 + v)"
  by (auto simp: hex_value_def is_ascii_space_def)

lemma unat_byte_less: "unat (b :: byte) < 256"
  using bytes_unat [of "[b]"] by simp

lemma fromhex_tohex: "fromhex (tohex bs) = Inr bs"
proof (induction bs)
  case Nil
  then show ?case by (simp add: tohex_def)
next
  case (Cons b bs)
  have q: "unat b div 16 < 16" "unat b mod 16 < 16"
    using unat_byte_less [of b] by (auto simp: less_mult_imp_div_less)
  have "(of_nat (16 * (unat b div 16) + unat b mod 16) :: byte) = b" by (simp only: mult_div_mod_eq) simp
  with Cons hex_digit [OF q(1)] hex_digit [OF q(2)] show ?case
    by (simp add: tohex_def Let_def del: of_nat_add of_nat_mult)
qed

lemma tohex_nonempty: "tohex (b # bs) \<noteq> []"
  by (simp add: tohex_def Let_def)

lemma decode_secret_hex: "decode_proxy_secret (tohex bs) = Inr bs"
  by (simp add: decode_proxy_secret_def fromhex_tohex)

lemma decode_secret_base64:
  "fromhex (rstrip_pad (b64encode True bs)) = Inl e \<Longrightarrow> decode_proxy_secret (rstrip_pad (b64encode True bs)) = Inr bs"
  by (simp add: decode_proxy_secret_def base64_decoded_def strict_round_trip)

text \<open>The three shapes a decoded secret can have.\<close>

definition secret_shape :: "bytes \<Rightarrow> pystr option \<Rightarrow> bool" where
  "secret_shape secret sni \<longleftrightarrow>
     (length secret = 16 \<and> sni = None) \<or> (length secret = 17 \<and> hd secret = 0xDD \<and> sni = None) \<or>
     (length secret = 16 \<and> (\<exists>d. sni = Some d \<and> d \<noteq> [] \<and> length d \<le> 182 \<and> (\<forall>ch \<in> set d. ch < 128)))"

lemma decode_shape:
  "decode_mtproxy_secret enc sch = Inr d \<Longrightarrow> secret_shape (ds_secret d) (ds_sni_hostname d) \<and>
     (sch = WEB \<longrightarrow> ds_sni_hostname d = None)"
  by (auto simp: decode_mtproxy_secret_def decode_fake_tls_secret_def secret_shape_def Let_def res_simps
      OBFUSCATED2_SECRET_SIZE_def MARKED_SECRET_SIZE_def PADDED_MARKER_def MAX_SNI_DOMAIN_SIZE_def list_ex_iff not_le
      split: if_splits)

fun proxy_shape :: "proxy \<Rightarrow> bool" where
  "proxy_shape (MTProxy _ _ secret sni) = secret_shape secret sni"
| "proxy_shape (WebProxy _ secret) = secret_shape secret None"
| "proxy_shape _ = True"

lemma parse_dict_shape:
  assumes "parse_proxy_dict env d = Inr p"
  shows "proxy_shape p"
proof -
  from assms obtain sch where "parse_scheme (pd_scheme d) = Inr sch"
    by (auto simp: parse_proxy_dict_def res_simps)
  with assms show ?thesis
    by (cases sch) (auto simp: parse_proxy_dict_def build_web_proxy_def build_mtproxy_def build_dialed_proxy_def
        res_simps dest!: decode_shape split: if_splits)
qed

definition proxy_secret :: "proxy \<Rightarrow> bytes option" where
  "proxy_secret p = (case p of MTProxy _ _ secret _ \<Rightarrow> Some secret | WebProxy _ secret \<Rightarrow> Some secret | _ \<Rightarrow> None)"

section \<open>Properties\<close>

text \<open>
  A proxy that its configuration accepts can always be greeted: whatever secret the
  dict form accepts, the transport \<open>Connection\<close> picks for it (over the default) passes
  every check of \<open>_obfuscated2_secret\<close>, the key that leaves is 16 bytes and the header
  is built, for every data centre id of the range in use.
\<close>

lemma accepted_proxy_connects:
  assumes "aes_law c" "\<And>x. length (sha x) = 32" "length nonce = 64"
    and p: "parse_proxy_dict env d = Inr p" "proxy_secret p = Some secret"
    and dc: "0 \<le> dc_id" "dc_id \<le> 1000"
  shows "\<exists>key h. obfuscated2_secret (Some (protocol_dc_id dc_id test_mode media))
      (OBFUSCATE_TAG (transport_class_for (Some p) TCPAbridged)) (uses_random_padding (Some p)) secret = Inr key \<and>
    length key = 16 \<and>
    build_obfuscated2_header c sha nonce key (protocol_dc_id dc_id test_mode media)
      (the (OBFUSCATE_TAG (transport_class_for (Some p) TCPAbridged))) = Inr h"
proof -
  have sh: "proxy_shape p" by (rule parse_dict_shape [OF p(1)])
  have key: "\<exists>key. obfuscated2_secret (Some (protocol_dc_id dc_id test_mode media))
      (OBFUSCATE_TAG (transport_class_for (Some p) TCPAbridged)) (uses_random_padding (Some p)) secret = Inr key \<and>
    length key = 16"
    using sh p(2)
    by (auto simp: obfuscated2_secret_def OBFUSCATE_TAG_def transport_class_for_def uses_random_padding_def
        proxy_secret_def secret_shape_def MARKED_SECRET_SIZE_def OBFUSCATED2_SECRET_SIZE_def
        ABRIDGED_OBFUSCATE_TAG_def INTERMEDIATE_PADDED_OBFUSCATE_TAG_def split: proxy.splits)
  then obtain key where k: "length key = 16" "obfuscated2_secret (Some (protocol_dc_id dc_id test_mode media))
      (OBFUSCATE_TAG (transport_class_for (Some p) TCPAbridged)) (uses_random_padding (Some p)) secret = Inr key" by blast
  have t: "length (the (OBFUSCATE_TAG (transport_class_for (Some p) TCPAbridged))) = 4"
    by (simp add: OBFUSCATE_TAG_def transport_class_for_def ABRIDGED_OBFUSCATE_TAG_def
        INTERMEDIATE_PADDED_OBFUSCATE_TAG_def)
  have "in_range True 2 (protocol_dc_id dc_id test_mode media)"
    using dc by (auto simp: protocol_dc_id_def TEST_MODE_DC_ID_SHIFT_def in_range_def Let_def)
  from header_opens [of c sha, OF assms(1,2,3) k(1) t this] k show ?thesis by blast
qed

definition ascii_env :: net_env where
  "ascii_env = \<lparr>is_ip_literal = (\<lambda>_. False), idna_ascii = Inr, int_of_str = (\<lambda>_. Inl ValueError)\<rparr>"

definition demo_dict :: proxy_dict where
  "demo_dict = \<lparr>pd_scheme = Some (codes ''mtproxy''), pd_hostname = Some (codes ''h''),
     pd_port = Some (PortInt 443), pd_secret = Some (tohex (0xDD # replicate 16 1)),
     pd_username = None, pd_password = None\<rparr>"

text \<open>
  A secret written in hexadecimal is read back exactly, and its length alone decides
  what it means: 16 bytes are a bare key whatever they start with, 17 bytes need the dd
  marker, longer ones the ee marker with a domain of ASCII text and at most 182 bytes;
  the WEB scheme refuses the last form, and everything else is refused.
\<close>

lemma hex_secret_meaning:
  "decode_mtproxy_secret (tohex bs) sch =
    (if length bs = 16 then Inr \<lparr>ds_secret = bs, ds_sni_hostname = None\<rparr>
     else if length bs = 17 \<and> hd bs = 0xDD then Inr \<lparr>ds_secret = bs, ds_sni_hostname = None\<rparr>
     else if length bs > 17 \<and> hd bs = 0xEE \<and> sch \<noteq> WEB \<and> length bs - 17 \<le> 182 \<and>
       (\<forall>b \<in> set (drop 17 bs). unat b < 128)
     then Inr \<lparr>ds_secret = pyslice 1 17 bs, ds_sni_hostname = Some (map unat (drop 17 bs))\<rparr>
     else Inl ValueError)"
  by (auto simp: decode_mtproxy_secret_def decode_secret_hex decode_fake_tls_secret_def OBFUSCATED2_SECRET_SIZE_def
      MARKED_SECRET_SIZE_def PADDED_MARKER_def FAKE_TLS_MARKER_def MAX_SNI_DOMAIN_SIZE_def Let_def list_ex_iff
      not_less)

text \<open>The connection is tried at most three times, and only network errors are tried again.\<close>

lemma connect_loop_spec:
  "connect_loop k attempt = (n, r) \<Longrightarrow>
   n \<le> k \<and> (\<forall>i. Suc i < n \<longrightarrow> attempt i \<in> {Some OSError, Some TimeoutError, Some ConnectionError}) \<and>
   (case r of
      Inr _ \<Rightarrow> 0 < n \<and> attempt (n - 1) = None
    | Inl e \<Rightarrow> (n = k \<and> e = ConnectionError) \<or> (0 < n \<and> attempt (n - 1) = Some e))"
proof (induction k arbitrary: attempt n)
  case (Suc k)
  show ?case
  proof (cases "attempt 0 \<in> {Some OSError, Some TimeoutError, Some ConnectionError}")
    case True
    with Suc.prems obtain m where m: "connect_loop k (\<lambda>i. attempt (Suc i)) = (m, r)" "n = Suc m"
      by (auto split: prod.splits)
    have "\<forall>i. Suc i < n \<longrightarrow> attempt i \<in> {Some OSError, Some TimeoutError, Some ConnectionError}"
    proof (intro allI impI)
      fix i assume "Suc i < n"
      with Suc.IH [OF m(1)] True m(2)
      show "attempt i \<in> {Some OSError, Some TimeoutError, Some ConnectionError}" by (cases i) auto
    qed
    with Suc.IH [OF m(1)] True m(2) show ?thesis
      by (cases m) (auto split: sum.splits)
  next
    case False
    with Suc.prems show ?thesis by (auto split: option.splits)
  qed
qed auto

end
