(* ===== verification/Web_Frames.thy ===== *)
theory Web_Frames
  imports Base64
begin

text \<open>
  The wire format of \<open>kurigram/pyrogram/connection/transport/tcp/web_proxy_carrier.py\<close>:
  frames, the bridge capability, and the reading of HTTP response bodies.  The carrier
  itself is in \<open>Web_Carrier\<close>.
\<close>

section \<open>Frames\<close>

datatype frame_type =
    OPEN | DATA | CLOSE | WINDOW | PING | PONG | HELLO | WELCOME | AUTH_CHALLENGE | AUTH_RESPONSE | BYE

definition frame_value :: "frame_type \<Rightarrow> byte" where
  "frame_value t =
     (case t of OPEN \<Rightarrow> 0x01 | DATA \<Rightarrow> 0x02 | CLOSE \<Rightarrow> 0x03 | WINDOW \<Rightarrow> 0x04 | PING \<Rightarrow> 0x05 | PONG \<Rightarrow> 0x06
        | HELLO \<Rightarrow> 0x10 | WELCOME \<Rightarrow> 0x11 | AUTH_CHALLENGE \<Rightarrow> 0x12 | AUTH_RESPONSE \<Rightarrow> 0x13 | BYE \<Rightarrow> 0x1F)"

text \<open>\<open>FrameType(b)\<close>, \<open>None\<close> for a byte that is not in \<open>_KNOWN_FRAME_TYPES\<close>.\<close>

definition frame_of_byte :: "byte \<Rightarrow> frame_type option" where
  "frame_of_byte b =
     List.find (\<lambda>t. frame_value t = b)
       [OPEN, DATA, CLOSE, WINDOW, PING, PONG, HELLO, WELCOME, AUTH_CHALLENGE, AUTH_RESPONSE, BYE]"

record frame =
  ftype :: frame_type
  stream_id :: int
  payload :: bytes

definition FRAME_HEADER_SIZE :: nat where "FRAME_HEADER_SIZE = 8"
definition FRAME_MAX_PAYLOAD :: int where "FRAME_MAX_PAYLOAD = 1024 * 1024"
definition MAX_STREAM_ID :: int where "MAX_STREAM_ID = 0x00FFFFFF"

definition serialize_frame :: "frame_type \<Rightarrow> int \<Rightarrow> bytes \<Rightarrow> bytes res" where
  "serialize_frame t sid p =
     (if \<not> (0 \<le> sid \<and> sid \<le> MAX_STREAM_ID) then Inl ValueError
      else if int (length p) > FRAME_MAX_PAYLOAD then Inl ValueError
      else Inr ([frame_value t, word_of_int (sid div 65536), word_of_int (sid div 256), word_of_int sid]
             @ be_bytes 4 (int (length p)) @ p))"

text \<open>The loop of \<open>parse_frames\<close>: the frames and the rest that was not consumed.\<close>

function parse_frames :: "bytes \<Rightarrow> (frame list \<times> bytes) res" where
  "parse_frames wire =
     (if length wire < FRAME_HEADER_SIZE then Inr ([], wire)
      else case frame_of_byte (wire ! 0) of
             None \<Rightarrow> Inl ValueError
           | Some t \<Rightarrow>
               let sid = uint (wire ! 1) * 65536 + uint (wire ! 2) * 256 + uint (wire ! 3);
                   sz = nat (be_int (pyslice 4 8 wire))
               in if int sz > FRAME_MAX_PAYLOAD then Inl ValueError
                  else if length wire < FRAME_HEADER_SIZE + sz then Inr ([], wire)
                  else bindR (parse_frames (drop (FRAME_HEADER_SIZE + sz) wire)) (\<lambda>(fs, r).
                         Inr (\<lparr>ftype = t, stream_id = sid,
                               payload = pyslice FRAME_HEADER_SIZE (FRAME_HEADER_SIZE + sz) wire\<rparr> # fs, r)))"
  by pat_completeness auto
termination
  by (relation "measure length") (auto simp: FRAME_HEADER_SIZE_def)

declare parse_frames.simps [simp del]

definition parse_frame_message :: "bytes \<Rightarrow> frame list res" where
  "parse_frame_message bd =
     (if bd = [] then Inl ValueError
      else bindR (parse_frames bd) (\<lambda>(frames, r).
             if r \<noteq> [] \<or> frames = [] then Inl ValueError else Inr frames))"

section \<open>The bridge capability\<close>

definition BRIDGE_CONTEXT_PREFIX :: bytes where
  "BRIDGE_CONTEXT_PREFIX = map of_nat (codes ''tdesktop-web-proxy-bridge-v1'') @ [10]"

definition derive_bridge_capability :: "(bytes \<Rightarrow> bytes \<Rightarrow> bytes) \<Rightarrow> pystr \<Rightarrow> bytes \<Rightarrow> pystr res" where
  "derive_bridge_capability hmac_sha256 hostname secret =
     bindR (utf8_encode hostname) (\<lambda>h.
       Inr (rstrip_pad (b64encode True (hmac_sha256 secret (BRIDGE_CONTEXT_PREFIX @ h)))))"

section \<open>HTTP responses\<close>

text \<open>\<open>StreamReader.readline\<close> and \<open>readexactly\<close> on the bytes that will arrive before the
  end of the stream; a short \<open>readexactly\<close> is an \<open>EOFError\<close>, which the caller treats as
  a lost connection.\<close>

definition readline :: "bytes \<Rightarrow> bytes \<times> bytes" where
  "readline s =
     (let h = takeWhile (\<lambda>b. b \<noteq> 10) s
      in if length h < length s then (h @ [10], drop (Suc (length h)) s) else (s, []))"

definition readexactly :: "int \<Rightarrow> bytes \<Rightarrow> (bytes \<times> bytes) res" where
  "readexactly n s =
     (if n < 0 then Inl ValueError
      else if int (length s) < n then Inl ConnectionError
      else Inr (take (nat n) s, drop (nat n) s))"

definition CRLF :: bytes where "CRLF = [13, 10]"

definition before_semicolon :: "bytes \<Rightarrow> bytes" where
  "before_semicolon s = takeWhile (\<lambda>b. b \<noteq> 59) s"

definition strip_space :: "bytes \<Rightarrow> bytes" where
  "strip_space s =
     (let sp = (\<lambda>b. b = 32 \<or> (9 \<le> b \<and> b \<le> 13)) in rev (dropWhile sp (rev (dropWhile sp s))))"

text \<open>The trailer: lines up to an empty one or the end.\<close>

function skip_trailer :: "bytes \<Rightarrow> bytes" where
  "skip_trailer s =
     (let (line, s1) = readline s
      in if line = CRLF \<or> line = [] then s1 else skip_trailer s1)"
  by pat_completeness auto

lemma readline_shorter: "readline s = (l, s1) \<Longrightarrow> l \<noteq> [] \<Longrightarrow> length s1 < length s"
  by (auto simp: readline_def Let_def split: if_splits)

termination skip_trailer
  by (relation "measure length") (auto dest: readline_shorter [OF sym])

text \<open>\<open>_read_chunked_body\<close>; \<open>int(field, 16)\<close> of a byte string is the parameter \<open>hexint\<close>,
  \<open>None\<close> for a \<open>ValueError\<close>.\<close>

function read_chunked_body :: "(bytes \<Rightarrow> int option) \<Rightarrow> bytes \<Rightarrow> (bytes \<times> bytes) res" where
  "read_chunked_body hexint s =
     (let (size_line, s1) = readline s
      in if size_line = [] then Inl ConnectionError
         else case hexint (strip_space (before_semicolon size_line)) of
                None \<Rightarrow> Inl ConnectionError
              | Some chunk_size \<Rightarrow>
                  if chunk_size = 0 then Inr ([], skip_trailer s1)
                  else (case readexactly chunk_size s1 of
                          Inl e \<Rightarrow> Inl e
                        | Inr (chunk, s2) \<Rightarrow>
                            (case readexactly 2 s2 of
                               Inl e \<Rightarrow> Inl e
                             | Inr (crlf, s3) \<Rightarrow>
                                 if crlf \<noteq> CRLF then Inl ConnectionError
                                 else bindR (read_chunked_body hexint s3) (\<lambda>(rest_body, s4).
                                        Inr (chunk @ rest_body, s4)))))"
  by pat_completeness auto

lemma readexactly_shorter: "readexactly n s = Inr (x, s1) \<Longrightarrow> length s1 \<le> length s"
  by (auto simp: readexactly_def split: if_splits)

termination read_chunked_body
proof (relation "measure (\<lambda>(h, s). length s)", simp, goal_cases)
  case (1 hexint s x size_line s1 chunk_size y chunk s2 z crlf s3)
  then have "length s1 < length s" "length s2 \<le> length s1" "length s3 \<le> length s2"
    by (auto dest: readline_shorter [OF sym] readexactly_shorter [OF sym] readexactly_shorter)
  then show ?case by simp
qed

declare skip_trailer.simps [simp del] read_chunked_body.simps [simp del]

section \<open>Frames round trip\<close>

lemma frame_of_value [simp]: "frame_of_byte (frame_value t) = Some t"
  by (cases t) (simp_all add: frame_of_byte_def frame_value_def)

lemma sid_digits:
  assumes "0 \<le> sid" "sid \<le> MAX_STREAM_ID"
  shows "uint (word_of_int (sid div 65536) :: byte) * 65536 + uint (word_of_int (sid div 256) :: byte) * 256
    + uint (word_of_int sid :: byte) = sid"
proof -
  have "sid div 65536 mod 256 = sid div 65536" using assms by (simp add: MAX_STREAM_ID_def)
  moreover have "sid div 65536 * 65536 + sid div 256 mod 256 * 256 + sid mod 256 = sid"
  proof -
    have "sid div 65536 = sid div 256 div 256" using zdiv_zmult2_eq [of 256 sid 256] by simp
    then show ?thesis using div_mult_mod_eq [of "sid div 256" 256] div_mult_mod_eq [of sid 256] by linarith
  qed
  ultimately show ?thesis by (simp only: uint_word_of_int_byte)
qed

lemma parse_frames_Cons:
  assumes "serialize_frame (ftype f) (stream_id f) (payload f) = Inr w"
  shows "parse_frames (w @ ys) = bindR (parse_frames ys) (\<lambda>(fs, r). Inr (f # fs, r))"
proof -
  let ?t = "ftype f" and ?sid = "stream_id f" and ?p = "payload f"
  from assms have sid: "0 \<le> ?sid" "?sid \<le> MAX_STREAM_ID" and l: "int (length ?p) \<le> FRAME_MAX_PAYLOAD"
    and w: "w = [frame_value ?t, word_of_int (?sid div 65536), word_of_int (?sid div 256), word_of_int ?sid]
             @ be_bytes 4 (int (length ?p)) @ ?p"
    by (auto simp: serialize_frame_def split: if_splits)
  have sz: "nat (be_int (pyslice 4 8 (w @ ys))) = length ?p"
    using l by (simp add: w pyslice_def be_int_def be_bytes_def le_int_le_bytes FRAME_MAX_PAYLOAD_def)
  have e: "FRAME_HEADER_SIZE = 8" by (simp add: FRAME_HEADER_SIZE_def)
  have b: "drop 8 (w @ ys) = ?p @ ys" by (simp add: w)
  then have d: "drop (8 + length ?p) (w @ ys) = ys" "pyslice 8 (8 + length ?p) (w @ ys) = ?p"
    by (metis add.commute append_eq_conv_conj drop_drop) (simp only: pyslice_def b, simp)
  have n: "(w @ ys) ! 0 = frame_value ?t" "(w @ ys) ! 1 = word_of_int (?sid div 65536)"
    "(w @ ys) ! 2 = word_of_int (?sid div 256)" "(w @ ys) ! 3 = word_of_int ?sid"
    by (simp_all add: w)
  have f: "\<lparr>ftype = ?t, stream_id = ?sid, payload = ?p\<rparr> = f" by simp
  have lw: "length (w @ ys) = 8 + length ?p + length ys" by (simp add: w)
  show ?thesis
    by (subst parse_frames.simps, unfold e sz d n lw sid_digits [OF sid] Let_def) (use l in \<open>simp add: f\<close>)
qed

lemma parse_frames_Nil: "length ys < FRAME_HEADER_SIZE \<Longrightarrow> parse_frames ys = Inr ([], ys)"
  by (subst parse_frames.simps) simp

lemma parse_frames_concat:
  "list_all2 (\<lambda>f w. serialize_frame (ftype f) (stream_id f) (payload f) = Inr w) fs ws \<Longrightarrow>
   length ys < FRAME_HEADER_SIZE \<Longrightarrow> parse_frames (concat ws @ ys) = Inr (fs, ys)"
  by (induction rule: list_all2_induct) (simp_all add: parse_frames_Nil parse_frames_Cons)

section \<open>Properties\<close>

text \<open>
  A message of frames is read back exactly: the concatenation of serialized frames
  parses to those frames, whatever their types, stream ids and payloads; and an
  incomplete header that follows is left unconsumed and makes the strict reader refuse
  the message.
\<close>

lemma frames_round_trip:
  assumes "list_all2 (\<lambda>f w. serialize_frame (ftype f) (stream_id f) (payload f) = Inr w) fs ws" "fs \<noteq> []"
    "length ys < FRAME_HEADER_SIZE"
  shows "parse_frames (concat ws @ ys) = Inr (fs, ys) \<and>
    parse_frame_message (concat ws @ ys) = (if ys = [] then Inr fs else Inl ValueError)"
proof -
  have p: "parse_frames (concat ws @ ys) = Inr (fs, ys)" by (rule parse_frames_concat [OF assms(1,3)])
  moreover have "concat ws @ ys \<noteq> []"
  proof
    assume "concat ws @ ys = []"
    with p have "parse_frames [] = Inr (fs, [])" by simp
    with assms(2) show False by (simp add: parse_frames_Nil FRAME_HEADER_SIZE_def)
  qed
  ultimately have "parse_frame_message (concat ws @ ys) = (if ys = [] then Inr fs else Inl ValueError)"
    unfolding parse_frame_message_def p using assms(2) by (simp only: if_False bindR_simps) simp
  with p show ?thesis by blast
qed

text \<open>A size line that the relay's side may send for a chunk of \<open>n\<close> bytes: one line, any
  extension behind a semicolon, whose number is \<open>n\<close>.\<close>

definition size_line :: "(bytes \<Rightarrow> int option) \<Rightarrow> bytes \<Rightarrow> int \<Rightarrow> bool" where
  "size_line hexint l n \<longleftrightarrow>
     (\<exists>l'. l = l' @ [10] \<and> 10 \<notin> set l') \<and> hexint (strip_space (before_semicolon l)) = Some n"

definition chunk_wire :: "(bytes \<Rightarrow> int option) \<Rightarrow> bytes \<Rightarrow> bytes \<Rightarrow> bool" where
  "chunk_wire hexint c w \<longleftrightarrow>
     (\<exists>l. size_line hexint l (int (length c)) \<and> c \<noteq> [] \<and> w = l @ c @ CRLF)"

lemma readline_line: "10 \<notin> set l \<Longrightarrow> readline (l @ 10 # s) = (l @ [10], s)"
proof -
  assume "10 \<notin> set l"
  then have "takeWhile (\<lambda>b. b \<noteq> 10) (l @ 10 # s) = l" by (induction l) auto
  then show ?thesis by (simp add: readline_def)
qed

lemma readline_size_line: "size_line hexint l n \<Longrightarrow> readline (l @ s) = (l, s) \<and> l \<noteq> []"
  using readline_line by (fastforce simp: size_line_def)

lemma read_chunk:
  assumes "chunk_wire hexint c w"
  shows "read_chunked_body hexint (w @ s) = bindR (read_chunked_body hexint s) (\<lambda>(r, s4). Inr (c @ r, s4))"
proof -
  from assms obtain l where l: "size_line hexint l (int (length c))" and c: "c \<noteq> []" and w: "w = l @ c @ CRLF"
    by (auto simp: chunk_wire_def)
  have "hexint (strip_space (before_semicolon l)) = Some (int (length c))" using l by (simp add: size_line_def)
  moreover have "readexactly (int (length c)) (c @ CRLF @ s) = Inr (c, CRLF @ s)" "readexactly 2 (CRLF @ s) = Inr (CRLF, s)"
    by (simp_all add: readexactly_def CRLF_def)
  ultimately show ?thesis
    using readline_size_line [OF l, of "c @ CRLF @ s"] c w by (subst read_chunked_body.simps) simp
qed

text \<open>
  A chunked response body is put together from its chunks and nothing else: for any
  chunks in the HTTP/1.1 framing, closed by a zero-size line and an empty line, the
  reader returns their concatenation and stops at the byte behind the body, so that
  the next response on the connection is read from its start.
\<close>

lemma chunked_body_round_trip:
  assumes "list_all2 (chunk_wire hexint) cs ws" "size_line hexint l 0"
  shows "read_chunked_body hexint (concat ws @ l @ CRLF @ s) = Inr (concat cs, s)"
  using assms(1)
proof (induction rule: list_all2_induct)
  case Nil
  have "readline (CRLF @ s) = (CRLF, s)" using readline_line [of "[13]" s] by (simp add: CRLF_def)
  then have "skip_trailer (CRLF @ s) = s" by (subst skip_trailer.simps) simp
  moreover have "hexint (strip_space (before_semicolon l)) = Some 0" using assms(2) by (simp add: size_line_def)
  ultimately show ?case
    using readline_size_line [OF assms(2), of "CRLF @ s"] by (subst read_chunked_body.simps) simp
next
  case (Cons c cs w ws)
  then show ?case by (simp add: read_chunk)
qed

definition one_digit :: "bytes \<Rightarrow> int option" where
  "one_digit b = (case b of [d] \<Rightarrow> Some (uint d - 48) | _ \<Rightarrow> None)"

end
