(* ===== verification/Web_Carrier.thy ===== *)
theory Web_Carrier
  imports Web_Frames
begin

text \<open>
  The class \<open>WebProxyCarrier\<close> of \<open>web_proxy_carrier.py\<close>: one relay session, one stream,
  flow control in both directions.  A part of a coroutine between two \<open>await\<close>s is one
  function; tasks it starts are recorded in \<open>tasks\<close>.  Whether a request to the relay
  succeeds is the parameter \<open>ok\<close>, indexed by the sequence number of the post.
\<close>

section \<open>State\<close>

definition CONTROL_STREAM_ID :: int where "CONTROL_STREAM_ID = 0"
definition STREAM_ID :: int where "STREAM_ID = 1"
definition INITIAL_STREAM_WINDOW :: int where "INITIAL_STREAM_WINDOW = 4 * 1024 * 1024"
definition UPLINK_FRAME_MAX :: nat where "UPLINK_FRAME_MAX = 64 * 1024"
definition DOWNLINK_GRANT_THRESHOLD :: int where "DOWNLINK_GRANT_THRESHOLD = 256 * 1024"
definition WINDOW_PAYLOAD_SIZE :: nat where "WINDOW_PAYLOAD_SIZE = 4"
definition HELLO_PAYLOAD :: bytes where "HELLO_PAYLOAD = [1]"

datatype task = PongTask bytes | FailTask

record carrier =
  send_window :: int
  recv_window_remaining :: int
  recv_buffer :: bytes
  pending_grant :: int
  grant_flush_task :: bool
  recv_queue :: "bytes option list"
  welcomed :: bool
  closed :: bool
  failed :: bool
  up_seq :: nat
  posts :: "(nat \<times> bytes) list"
  down_cursor :: int
  tasks :: "task list"

definition carrier_init :: carrier where
  "carrier_init = \<lparr>send_window = INITIAL_STREAM_WINDOW, recv_window_remaining = INITIAL_STREAM_WINDOW,
     recv_buffer = [], pending_grant = 0, grant_flush_task = False, recv_queue = [], welcomed = False,
     closed = False, failed = False, up_seq = 0, posts = [], down_cursor = 0, tasks = []\<rparr>"

section \<open>Operations\<close>

text \<open>\<open>_fail\<close>: the first failure wins, and wakes every waiter.\<close>

definition fail :: "carrier \<Rightarrow> carrier" where
  "fail s =
     (if failed s then s
      else s\<lparr>failed := True, welcomed := True, recv_queue := recv_queue s @ [None]\<rparr>)"

definition send_frames :: "(nat \<Rightarrow> bool) \<Rightarrow> bytes list \<Rightarrow> carrier \<Rightarrow> unit res \<times> carrier" where
  "send_frames ok frames s =
     (let seq = up_seq s;
          s1 = s\<lparr>up_seq := seq + 1, posts := posts s @ [(seq, concat frames)]\<rparr>
      in if ok seq then (Inr (), s1) else (Inl ConnectionError, fail s1))"

text \<open>\<open>_spend_send_window\<close>: \<open>waits\<close> are the credits that arrive while it waits, one per
  wake-up; when there is no further one, the wait times out.\<close>

fun spend_send_window :: "int \<Rightarrow> int list \<Rightarrow> carrier \<Rightarrow> unit res \<times> int list \<times> carrier" where
  "spend_send_window amount waits s =
     (if amount \<le> send_window s then (Inr (), waits, s\<lparr>send_window := send_window s - amount\<rparr>)
      else if failed s then (Inl ConnectionError, waits, s)
      else case waits of
             [] \<Rightarrow> (Inl ConnectionError, [], fail s)
           | c # cs \<Rightarrow> spend_send_window amount cs (s\<lparr>send_window := send_window s + c\<rparr>))"

declare spend_send_window.simps [simp del]

text \<open>The loop of \<open>send\<close> over the chunks, with the frames that are queued.\<close>

fun send_loop ::
    "(nat \<Rightarrow> bool) \<Rightarrow> bytes list \<Rightarrow> bytes list \<Rightarrow> int list \<Rightarrow> carrier \<Rightarrow> unit res \<times> int list \<times> carrier" where
  "send_loop ok [] pending waits s =
     (if pending \<noteq> [] then (let (r, s1) = send_frames ok pending s in (r, waits, s1)) else (Inr (), waits, s))"
| "send_loop ok (chunk # cs) pending waits s =
     (let n = int (length chunk);
          next = (\<lambda>pending waits s.
            case serialize_frame DATA STREAM_ID chunk of
              Inl e \<Rightarrow> (Inl e, waits, s)
            | Inr f \<Rightarrow> send_loop ok cs (pending @ [f]) waits s)
      in if send_window s < n
         then (let (r, s1) = (if pending \<noteq> [] then send_frames ok pending s else (Inr (), s))
               in case r of
                    Inl e \<Rightarrow> (Inl e, waits, s1)
                  | Inr _ \<Rightarrow>
                      (case spend_send_window n waits s1 of
                         (Inl e, waits', s2) \<Rightarrow> (Inl e, waits', s2)
                       | (Inr _, waits', s2) \<Rightarrow> next [] waits' s2))
         else next pending waits (s\<lparr>send_window := send_window s - n\<rparr>))"

definition send :: "(nat \<Rightarrow> bool) \<Rightarrow> bytes \<Rightarrow> int list \<Rightarrow> carrier \<Rightarrow> unit res \<times> int list \<times> carrier" where
  "send ok data waits s =
     (if failed s then (Inl ConnectionError, waits, s)
      else if data = [] then (Inr (), waits, s)
      else send_loop ok (chunks UPLINK_FRAME_MAX data) [] waits s)"

definition flush_grant :: "(nat \<Rightarrow> bool) \<Rightarrow> carrier \<Rightarrow> carrier" where
  "flush_grant ok s =
     (let amount = pending_grant s; s1 = s\<lparr>pending_grant := 0\<rparr>
      in if amount \<le> 0 \<or> failed s1 then s1
         else let s2 = s1\<lparr>recv_window_remaining := recv_window_remaining s1 + amount\<rparr>
              in case bindR (to_bytes_be WINDOW_PAYLOAD_SIZE False amount) (serialize_frame WINDOW STREAM_ID) of
                   Inl _ \<Rightarrow> s2
                 | Inr f \<Rightarrow> snd (send_frames ok [f] s2))"

definition grant_credit :: "(nat \<Rightarrow> bool) \<Rightarrow> int \<Rightarrow> carrier \<Rightarrow> carrier" where
  "grant_credit ok amount s =
     (if amount \<le> 0 \<or> closed s \<or> failed s then s
      else let s1 = s\<lparr>pending_grant := pending_grant s + amount\<rparr>
           in if pending_grant s1 \<ge> DOWNLINK_GRANT_THRESHOLD then flush_grant ok s1
              else s1\<lparr>grant_flush_task := True\<rparr>)"

text \<open>\<open>_delayed_grant_flush\<close> after its sleep.\<close>

definition delayed_grant_flush :: "(nat \<Rightarrow> bool) \<Rightarrow> carrier \<Rightarrow> carrier" where
  "delayed_grant_flush ok s = (flush_grant ok s)\<lparr>grant_flush_task := False\<rparr>"

text \<open>\<open>recv\<close>: it waits on an empty queue, ends at the end marker, and otherwise returns.\<close>

datatype received = Blocked | EndOfStream | Received bytes

fun recv_fill :: "nat \<Rightarrow> bytes \<Rightarrow> bytes option list \<Rightarrow> received \<times> bytes \<times> bytes option list" where
  "recv_fill n b q =
     (if n \<le> length b then (Received (take n b), drop n b, q)
      else case q of
             [] \<Rightarrow> (Blocked, b, [])
           | None # q' \<Rightarrow> (EndOfStream, b, q')
           | Some c # q' \<Rightarrow> recv_fill n (b @ c) q')"

declare recv_fill.simps [simp del]

definition recv :: "(nat \<Rightarrow> bool) \<Rightarrow> int \<Rightarrow> carrier \<Rightarrow> received \<times> carrier" where
  "recv ok n s =
     (let (r, b, q) = recv_fill (nat n) (recv_buffer s) (recv_queue s);
          s1 = s\<lparr>recv_buffer := b, recv_queue := q\<rparr>
      in case r of Received d \<Rightarrow> (r, grant_credit ok n s1) | _ \<Rightarrow> (r, s1))"

definition start_task :: "task \<Rightarrow> carrier \<Rightarrow> carrier" where
  "start_task t s = s\<lparr>tasks := tasks s @ [t]\<rparr>"

definition handle_control_frame :: "frame \<Rightarrow> carrier \<Rightarrow> carrier" where
  "handle_control_frame f s =
     (case ftype f of
        WELCOME \<Rightarrow> s\<lparr>welcomed := True\<rparr>
      | PING \<Rightarrow> start_task (PongTask (payload f)) s
      | BYE \<Rightarrow> start_task FailTask s
      | _ \<Rightarrow> s)"

definition handle_stream_frame :: "frame \<Rightarrow> carrier \<Rightarrow> carrier" where
  "handle_stream_frame f s =
     (case ftype f of
        DATA \<Rightarrow>
          (let s1 = s\<lparr>recv_window_remaining := recv_window_remaining s - int (length (payload f))\<rparr>
           in if recv_window_remaining s1 < 0 then start_task FailTask s1
              else s1\<lparr>recv_queue := recv_queue s1 @ [Some (payload f)]\<rparr>)
      | CLOSE \<Rightarrow> start_task FailTask s
      | WINDOW \<Rightarrow>
          (if length (payload f) \<noteq> WINDOW_PAYLOAD_SIZE then start_task FailTask s
           else s\<lparr>send_window := send_window s + be_int (payload f)\<rparr>)
      | _ \<Rightarrow> s)"

definition handle_frame :: "frame \<Rightarrow> carrier \<Rightarrow> carrier" where
  "handle_frame f s =
     (if stream_id f = CONTROL_STREAM_ID then handle_control_frame f s
      else if stream_id f \<noteq> STREAM_ID then s
      else handle_stream_frame f s)"

text \<open>\<open>_poll_once\<close> once the relay answered with a status, a cursor and a body.\<close>

definition poll_once :: "int \<Rightarrow> int option \<Rightarrow> bytes \<Rightarrow> carrier \<Rightarrow> unit res \<times> carrier" where
  "poll_once status cursor bd s =
     (if status = 204 then (Inr (), s)
      else if status \<noteq> 200 then (Inl ConnectionError, s)
      else let s1 = (case cursor of None \<Rightarrow> s | Some c \<Rightarrow> s\<lparr>down_cursor := c\<rparr>)
           in case parse_frame_message bd of
                Inl e \<Rightarrow> (Inl e, s1)
              | Inr fs \<Rightarrow> (Inr (), foldl (\<lambda>s f. handle_frame f s) s1 fs))"

text \<open>One turn of \<open>_poll_loop\<close>: every error ends in \<open>_fail\<close>.\<close>

definition poll_turn :: "int \<Rightarrow> int option \<Rightarrow> bytes \<Rightarrow> carrier \<Rightarrow> carrier" where
  "poll_turn status cursor bd s =
     (let (r, s1) = poll_once status cursor bd s in case r of Inl _ \<Rightarrow> fail s1 | Inr _ \<Rightarrow> s1)"

definition close :: "carrier \<Rightarrow> carrier" where
  "close s = (if closed s then s else s\<lparr>closed := True, recv_queue := recv_queue s @ [None]\<rparr>)"

text \<open>A started task runs: a pong goes out, or the carrier fails.\<close>

definition run_task :: "(nat \<Rightarrow> bool) \<Rightarrow> carrier \<Rightarrow> carrier" where
  "run_task ok s =
     (case tasks s of
        [] \<Rightarrow> s
      | PongTask p # ts \<Rightarrow>
          (case serialize_frame PONG CONTROL_STREAM_ID p of
             Inl _ \<Rightarrow> s\<lparr>tasks := ts\<rparr>
           | Inr f \<Rightarrow> snd (send_frames ok [f] (s\<lparr>tasks := ts\<rparr>)))
      | FailTask # ts \<Rightarrow> fail (s\<lparr>tasks := ts\<rparr>))"

section \<open>Steps\<close>

inductive carrier_step :: "carrier \<Rightarrow> carrier \<Rightarrow> bool" where
  poll: "carrier_step s (poll_turn status cursor bd s)"
| recv: "recv ok n s = (r, s') \<Longrightarrow> carrier_step s s'"
| send: "send ok data waits s = (r, waits', s') \<Longrightarrow> \<forall>c \<in> set waits. 0 \<le> c \<Longrightarrow> carrier_step s s'"
| flush: "grant_flush_task s \<Longrightarrow> carrier_step s (delayed_grant_flush ok s)"
| task: "carrier_step s (run_task ok s)"
| close: "carrier_step s (close s)"

inductive reachable :: "carrier \<Rightarrow> bool" where
  init: "reachable carrier_init"
| step: "reachable s \<Longrightarrow> carrier_step s s' \<Longrightarrow> reachable s'"

inductive_cases carrier_stepE [elim]: "carrier_step s s'"

definition queue_bytes :: "bytes option list \<Rightarrow> int" where
  "queue_bytes q = sum_list (map (\<lambda>x. case x of None \<Rightarrow> 0 | Some c \<Rightarrow> int (length c)) q)"

lemma queue_bytes_simps [simp]:
  "queue_bytes [] = 0" "queue_bytes (None # q) = queue_bytes q"
  "queue_bytes (Some c # q) = int (length c) + queue_bytes q"
  "queue_bytes (q @ r) = queue_bytes q + queue_bytes r"
  by (simp_all add: queue_bytes_def)

text \<open>The flow-control invariant: no window is negative, the bytes the relay may still
  send, the bytes granted next and the bytes that wait to be read never exceed the
  initial window, and the posts are numbered without gap or repetition.\<close>

definition flow_ok :: "carrier \<Rightarrow> bool" where
  "flow_ok s \<longleftrightarrow> 0 \<le> send_window s \<and> 0 \<le> pending_grant s \<and> pending_grant s < DOWNLINK_GRANT_THRESHOLD \<and>
     recv_window_remaining s + pending_grant s + int (length (recv_buffer s)) + queue_bytes (recv_queue s)
       \<le> INITIAL_STREAM_WINDOW \<and>
     map fst (posts s) = [0..<up_seq s]"

lemma flow_ok_init: "flow_ok carrier_init"
  by (simp add: flow_ok_def carrier_init_def INITIAL_STREAM_WINDOW_def DOWNLINK_GRANT_THRESHOLD_def)

lemma flow_ok_fail: "flow_ok s \<Longrightarrow> flow_ok (fail s)"
  by (simp add: flow_ok_def fail_def)

lemma flow_ok_send_frames: "flow_ok s \<Longrightarrow> flow_ok (snd (send_frames ok fs s))"
  by (simp add: flow_ok_def send_frames_def Let_def fail_def)

lemma spend_spec:
  "spend_send_window n waits s = (r, waits', s') \<Longrightarrow>
   \<exists>used. waits = used @ waits' \<and>
     (case r of
        Inr _ \<Rightarrow> n \<le> send_window s + sum_list used \<and>
          s' = s\<lparr>send_window := send_window s + sum_list used - n\<rparr>
      | Inl _ \<Rightarrow> s' = s\<lparr>send_window := send_window s + sum_list used\<rparr> \<or>
          s' = fail (s\<lparr>send_window := send_window s + sum_list used\<rparr>))"
proof (induction n waits s rule: spend_send_window.induct)
  case (1 n waits s)
  show ?case
  proof (cases "n \<le> send_window s \<or> failed s \<or> waits = []")
    case True
    with 1(2) show ?thesis
      by (subst (asm) spend_send_window.simps) (auto split: if_splits list.splits)
  next
    case False
    then obtain c cs where w: "waits = c # cs" by (cases waits) auto
    with False 1(2) have e: "spend_send_window n cs (s\<lparr>send_window := send_window s + c\<rparr>) = (r, waits', s')"
      by (subst (asm) spend_send_window.simps) simp
    from 1(1) [OF _ _ w e] False obtain used where u: "cs = used @ waits'"
      "case r of
        Inr _ \<Rightarrow> n \<le> send_window (s\<lparr>send_window := send_window s + c\<rparr>) + sum_list used \<and>
          s' = s\<lparr>send_window := send_window s + c, send_window :=
            send_window (s\<lparr>send_window := send_window s + c\<rparr>) + sum_list used - n\<rparr>
      | Inl _ \<Rightarrow> s' = s\<lparr>send_window := send_window s + c, send_window :=
            send_window (s\<lparr>send_window := send_window s + c\<rparr>) + sum_list used\<rparr> \<or>
          s' = fail (s\<lparr>send_window := send_window s + c, send_window :=
            send_window (s\<lparr>send_window := send_window s + c\<rparr>) + sum_list used\<rparr>)" by auto
    then show ?thesis
      by (intro exI [of _ "c # used"]) (cases r; simp add: w add.assoc)
  qed
qed

lemma data_frame: "length chunk \<le> UPLINK_FRAME_MAX \<Longrightarrow> \<exists>f. serialize_frame DATA STREAM_ID chunk = Inr f"
  by (simp add: serialize_frame_def UPLINK_FRAME_MAX_def STREAM_ID_def MAX_STREAM_ID_def FRAME_MAX_PAYLOAD_def)

text \<open>What a successful \<open>send\<close> does, from the point where \<open>pending\<close> frames are queued.\<close>

definition posted :: "carrier \<Rightarrow> carrier \<Rightarrow> bytes \<Rightarrow> bool" where
  "posted s s' w \<longleftrightarrow> (\<exists>new. posts s' = posts s @ new \<and> concat (map snd new) = w \<and>
     map fst new = [up_seq s..<up_seq s'] \<and> up_seq s \<le> up_seq s')"

lemma posted_refl: "posts s' = posts s \<Longrightarrow> up_seq s' = up_seq s \<Longrightarrow> posted s s' []"
  by (simp add: posted_def)

lemma posted_trans:
  assumes "posted s s1 v" "posted s1 s2 w"
  shows "posted s s2 (v @ w)"
proof -
  from assms obtain a b where a: "posts s1 = posts s @ a" "concat (map snd a) = v" "map fst a = [up_seq s..<up_seq s1]"
    "up_seq s \<le> up_seq s1" and b: "posts s2 = posts s1 @ b" "concat (map snd b) = w"
    "map fst b = [up_seq s1..<up_seq s2]" "up_seq s1 \<le> up_seq s2" by (auto simp: posted_def)
  obtain k where k: "up_seq s2 = up_seq s1 + k" using b(4) by (metis le_iff_add)
  have "map fst (a @ b) = [up_seq s..<up_seq s2]"
    using a(3) b(3) upt_add_eq_append [OF a(4), of k] by (simp add: k)
  with a b show ?thesis unfolding posted_def by (intro exI [of _ "a @ b"]) simp
qed

lemma posted_send_frames:
  "send_frames ok fs s = (Inr u, s') \<Longrightarrow> posted s s' (concat fs) \<and> send_window s' = send_window s \<and> failed s' = failed s"
  by (auto simp: send_frames_def Let_def posted_def split: if_splits)

lemma send_loop_ok:
  assumes "\<forall>c \<in> set cs. length c \<le> UPLINK_FRAME_MAX"
  shows "send_loop ok cs pending waits s = (Inr u, waits', s') \<Longrightarrow>
    \<exists>ws used. waits = used @ waits' \<and>
      list_all2 (\<lambda>c w. serialize_frame DATA STREAM_ID c = Inr w) cs ws \<and>
      posted s s' (concat pending @ concat ws) \<and>
      send_window s' = send_window s + sum_list used - int (length (concat cs))"
  using assms
proof (induction cs arbitrary: pending waits s)
  case Nil
  show ?case
  proof (cases "pending = []")
    case True
    with Nil show ?thesis by (intro exI [of _ "[]"]) (auto intro: posted_refl)
  next
    case False
    with Nil obtain v where "send_frames ok pending s = (Inr v, s')" "waits' = waits"
      by (auto split: prod.splits)
    from posted_send_frames [OF this(1)] this(2) show ?thesis
      by (intro exI [of _ "[]"]) simp
  qed
next
  case (Cons c cs)
  obtain f where f: "serialize_frame DATA STREAM_ID c = Inr f" using data_frame Cons.prems(2) by auto
  let ?n = "int (length c)"
  show ?case
  proof (cases "send_window s < ?n")
    case False
    let ?s = "s\<lparr>send_window := send_window s - ?n\<rparr>"
    from Cons.prems(1) False f have "send_loop ok cs (pending @ [f]) waits ?s = (Inr u, waits', s')"
      by (simp add: Let_def)
    from Cons.IH [OF this] Cons.prems(2) obtain ws used where "waits = used @ waits'"
      "list_all2 (\<lambda>c w. serialize_frame DATA STREAM_ID c = Inr w) cs ws"
      "posted ?s s' (concat (pending @ [f]) @ concat ws)"
      "send_window s' = send_window ?s + sum_list used - int (length (concat cs))" by auto
    then show ?thesis
      using f by (intro exI [of _ "f # ws"] exI [of _ used]) (simp add: posted_def)
  next
    case True
    obtain r1 s1 where p: "(if pending \<noteq> [] then send_frames ok pending s else (Inr (), s)) = (r1, s1)" by fastforce
    obtain r2 waits2 s2 where sp: "spend_send_window ?n waits s1 = (r2, waits2, s2)" by (metis prod_cases3)
    from Cons.prems(1) True f p sp obtain v1 v2 where r: "r1 = Inr v1" "r2 = Inr v2"
      and l: "send_loop ok cs ([] @ [f]) waits2 s2 = (Inr u, waits', s')"
      by (auto simp: Let_def split: sum.splits)
    have ps: "posted s s1 (concat pending) \<and> send_window s1 = send_window s"
      using p posted_send_frames [of ok pending s v1 s1] by (auto simp: r posted_refl split: if_splits)
    from spend_spec [OF sp] obtain used1 where u1: "waits = used1 @ waits2"
      "s2 = s1\<lparr>send_window := send_window s1 + sum_list used1 - ?n\<rparr>" by (auto simp: r)
    from Cons.IH [OF l] Cons.prems(2) obtain ws used where w: "waits2 = used @ waits'"
      "list_all2 (\<lambda>c w. serialize_frame DATA STREAM_ID c = Inr w) cs ws" "posted s2 s' (f @ concat ws)"
      "send_window s' = send_window s2 + sum_list used - int (length (concat cs))" by auto
    have "posted s1 s' (f @ concat ws)" using w(3) u1(2) by (simp add: posted_def)
    with ps have "posted s s' (concat pending @ f @ concat ws)" by (auto intro: posted_trans)
    then show ?thesis
      using f w u1 ps by (intro exI [of _ "f # ws"] exI [of _ "used1 @ used"]) simp
  qed
qed

section \<open>The invariant is kept\<close>

lemma flow_ok_spend:
  assumes "flow_ok s" "\<forall>c \<in> set waits. 0 \<le> c" "spend_send_window n waits s = (r, waits', s')" "0 \<le> n"
  shows "flow_ok s' \<and> (\<forall>c \<in> set waits'. 0 \<le> c)"
proof -
  from spend_spec [OF assms(3)] obtain used where u: "waits = used @ waits'"
    "case r of
        Inr _ \<Rightarrow> n \<le> send_window s + sum_list used \<and> s' = s\<lparr>send_window := send_window s + sum_list used - n\<rparr>
      | Inl _ \<Rightarrow> s' = s\<lparr>send_window := send_window s + sum_list used\<rparr> \<or>
          s' = fail (s\<lparr>send_window := send_window s + sum_list used\<rparr>)" by blast
  have "0 \<le> sum_list used" using assms(2) u(1) by (intro sum_list_nonneg) auto
  then have "flow_ok (s\<lparr>send_window := send_window s + sum_list used\<rparr>)" using assms(1) by (simp add: flow_ok_def)
  with u assms(1,2,4) show ?thesis by (cases r) (auto simp: flow_ok_fail, auto simp: flow_ok_def)
qed

lemma flow_ok_send_loop:
  "flow_ok s \<Longrightarrow> \<forall>c \<in> set waits. 0 \<le> c \<Longrightarrow> send_loop ok cs pending waits s = (r, waits', s') \<Longrightarrow> flow_ok s'"
proof (induction cs arbitrary: pending waits s)
  case Nil
  then show ?case
    using flow_ok_send_frames [of s ok pending] by (auto split: if_splits prod.splits)
next
  case (Cons c cs)
  let ?n = "int (length c)"
  have go: "flow_ok s'" if "flow_ok t" "\<forall>c \<in> set ws. 0 \<le> c" and
    "(case serialize_frame DATA STREAM_ID c of Inl e \<Rightarrow> (Inl e, ws, t)
      | Inr f \<Rightarrow> send_loop ok cs (p @ [f]) ws t) = (r, waits', s')" for t ws p
    using that Cons.IH [of t ws] by (auto split: sum.splits)
  show ?case
  proof (cases "send_window s < ?n")
    case False
    have "flow_ok (s\<lparr>send_window := send_window s - ?n\<rparr>)" using Cons.prems(1) False by (simp add: flow_ok_def)
    from go [OF this Cons.prems(2)] Cons.prems(3) False show ?thesis by (simp add: Let_def)
  next
    case True
    obtain r1 s1 where p: "(if pending \<noteq> [] then send_frames ok pending s else (Inr (), s)) = (r1, s1)" by fastforce
    have s1: "flow_ok s1"
      using p Cons.prems(1) flow_ok_send_frames [OF Cons.prems(1), of ok pending] by (auto split: if_splits)
    obtain r2 waits2 s2 where sp: "spend_send_window ?n waits s1 = (r2, waits2, s2)" by (metis prod_cases3)
    from flow_ok_spend [OF s1 Cons.prems(2) sp] have s2: "flow_ok s2" "\<forall>c \<in> set waits2. 0 \<le> c" by auto
    show ?thesis
    proof (cases r1)
      case (Inl e)
      with Cons.prems(3) True p s1 show ?thesis by (auto simp: Let_def)
    next
      case (Inr v)
      with Cons.prems(3) True p sp s2 go [OF s2, of "[]"] show ?thesis by (cases r2) (auto simp: Let_def)
    qed
  qed
qed

lemma flow_ok_send:
  "flow_ok s \<Longrightarrow> \<forall>c \<in> set waits. 0 \<le> c \<Longrightarrow> send ok data waits s = (r, waits', s') \<Longrightarrow> flow_ok s'"
  by (auto simp: send_def flow_ok_send_loop split: if_splits)

text \<open>Granting: the bytes that leave the buffer become credit.\<close>

definition flow_pre :: "int \<Rightarrow> carrier \<Rightarrow> bool" where
  "flow_pre n s \<longleftrightarrow> 0 \<le> send_window s \<and> 0 \<le> pending_grant s \<and> pending_grant s < DOWNLINK_GRANT_THRESHOLD \<and>
     recv_window_remaining s + pending_grant s + n + int (length (recv_buffer s)) + queue_bytes (recv_queue s)
       \<le> INITIAL_STREAM_WINDOW \<and>
     map fst (posts s) = [0..<up_seq s]"

lemma flush_amount:
  assumes "0 \<le> send_window s" "0 \<le> pending_grant s"
    "recv_window_remaining s + pending_grant s + int (length (recv_buffer s)) + queue_bytes (recv_queue s)
       \<le> INITIAL_STREAM_WINDOW" "map fst (posts s) = [0..<up_seq s]"
  shows "flow_ok (flush_grant ok s)"
proof -
  let ?s = "s\<lparr>pending_grant := 0, recv_window_remaining := recv_window_remaining s + pending_grant s\<rparr>"
  have 1: "flow_ok (s\<lparr>pending_grant := 0\<rparr>)" "flow_ok ?s"
    using assms by (auto simp: flow_ok_def DOWNLINK_GRANT_THRESHOLD_def)
  then show ?thesis
    using flow_ok_send_frames [OF 1(2), of ok] by (auto simp: flush_grant_def Let_def split: sum.splits)
qed

lemma flow_ok_grant:
  assumes "flow_pre n s" "0 \<le> n"
  shows "flow_ok (grant_credit ok n s)"
proof (cases "n \<le> 0 \<or> closed s \<or> failed s")
  case True
  with assms show ?thesis by (auto simp: flow_pre_def flow_ok_def grant_credit_def)
next
  case False
  let ?s = "s\<lparr>pending_grant := pending_grant s + n\<rparr>"
  have "flow_ok (flush_grant ok ?s)" using assms by (intro flush_amount) (auto simp: flow_pre_def)
  with assms False show ?thesis
    by (auto simp: grant_credit_def Let_def flow_pre_def flow_ok_def)
qed

lemma recv_fill_spec:
  "recv_fill n b q = (r, b', q') \<Longrightarrow>
   (case r of Received d \<Rightarrow> length d = n | _ \<Rightarrow> True) \<and>
   int (length b) + queue_bytes q = (case r of Received d \<Rightarrow> int n | _ \<Rightarrow> 0) + int (length b') + queue_bytes q'"
proof (induction n b q rule: recv_fill.induct)
  case (1 n b q)
  show ?case
  proof (cases "n \<le> length b")
    case True
    with 1(2) show ?thesis by (subst (asm) recv_fill.simps) auto
  next
    case False
    show ?thesis
    proof (cases q)
      case Nil
      with 1(2) False show ?thesis by (subst (asm) recv_fill.simps) auto
    next
      case (Cons x xs)
      with 1(2) False have e: "(case x of None \<Rightarrow> (EndOfStream, b, xs) | Some c \<Rightarrow> recv_fill n (b @ c) xs) = (r, b', q')"
        by (subst (asm) recv_fill.simps) auto
      show ?thesis
      proof (cases x)
        case None
        with e Cons show ?thesis by auto
      next
        case (Some c)
        with e 1(1) [OF False Cons Some] Cons show ?thesis by auto
      qed
    qed
  qed
qed

lemma flow_ok_recv:
  assumes "flow_ok s" "recv ok n s = (r, s')"
  shows "flow_ok s'"
proof -
  obtain r1 b q where f: "recv_fill (nat n) (recv_buffer s) (recv_queue s) = (r1, b, q)" by (metis prod_cases3)
  let ?s = "s\<lparr>recv_buffer := b, recv_queue := q\<rparr>"
  note c = recv_fill_spec [OF f]
  show ?thesis
  proof (cases r1)
    case (Received d)
    have "flow_pre (int (nat n)) ?s" using assms(1) c by (auto simp: flow_ok_def flow_pre_def Received)
    from flow_ok_grant [OF this, of ok] have "flow_ok (grant_credit ok (int (nat n)) ?s)" by simp
    moreover have "grant_credit ok (int (nat n)) ?s = grant_credit ok n ?s"
      by (cases "0 \<le> n") (auto simp: grant_credit_def)
    ultimately show ?thesis using assms(2) f Received by (simp add: recv_def)
  qed (use assms c f in \<open>auto simp: recv_def flow_ok_def\<close>)
qed

lemma flow_ok_start_task [simp]: "flow_ok (start_task t s) \<longleftrightarrow> flow_ok s"
  by (simp add: flow_ok_def start_task_def)

lemma flow_ok_frame: "flow_ok s \<Longrightarrow> flow_ok (handle_frame f s)"
  by (auto simp: handle_frame_def handle_control_frame_def handle_stream_frame_def Let_def
      split: frame_type.splits) (auto simp: flow_ok_def be_int_def)

lemma flow_ok_frames: "flow_ok s \<Longrightarrow> flow_ok (foldl (\<lambda>s f. handle_frame f s) s fs)"
  by (induction fs arbitrary: s) (auto simp: flow_ok_frame)

lemma flow_ok_poll: "flow_ok s \<Longrightarrow> flow_ok (poll_turn status cursor bd s)"
proof -
  assume s: "flow_ok s"
  then have "flow_ok (case cursor of None \<Rightarrow> s | Some c \<Rightarrow> s\<lparr>down_cursor := c\<rparr>)"
    by (auto simp: flow_ok_def split: option.splits)
  with s flow_ok_frames show ?thesis
    by (auto simp: poll_turn_def poll_once_def Let_def flow_ok_fail split: sum.splits)
qed

lemma flow_ok_step: "carrier_step s s' \<Longrightarrow> flow_ok s \<Longrightarrow> flow_ok s'"
proof (induction rule: carrier_step.induct)
  case (flush s ok)
  then have "flow_ok (flush_grant ok s)" by (intro flush_amount) (auto simp: flow_ok_def)
  then show ?case by (simp add: delayed_grant_flush_def flow_ok_def)
next
  case (task s ok)
  then have "flow_ok (s\<lparr>tasks := ts\<rparr>)" for ts by (simp add: flow_ok_def)
  with task show ?case
    by (auto simp: run_task_def flow_ok_fail flow_ok_send_frames split: list.splits task.splits sum.splits)
next
  case poll
  then show ?case by (simp add: flow_ok_poll)
next
  case recv
  then show ?case by (simp add: flow_ok_recv)
next
  case send
  then show ?case by (simp add: flow_ok_send)
next
  case close
  then show ?case by (auto simp: close_def flow_ok_def)
qed

section \<open>Properties\<close>



text \<open>
  A \<open>send\<close> that returns has posted the data, all of it, in order and once: the bodies
  posted are the serialized DATA frames of the 64 KiB chunks of the data, the sequence
  numbers run on from where they were, and the window has been spent by exactly the
  length of the data, after the credit that arrived meanwhile.
\<close>

lemma carrier_send:
  assumes "send ok data waits s = (Inr u, waits', s')" "\<not> failed s"
  shows "\<exists>ws used new. waits = used @ waits' \<and>
    list_all2 (\<lambda>c w. serialize_frame DATA STREAM_ID c = Inr w) (chunks UPLINK_FRAME_MAX data) ws \<and>
    posts s' = posts s @ new \<and> concat (map snd new) = concat ws \<and>
    map fst new = [up_seq s..<up_seq s'] \<and>
    send_window s' = send_window s + sum_list used - int (length data)"
proof (cases "data = []")
  case True
  with assms show ?thesis by (intro exI [of _ "[]"]) (simp add: send_def)
next
  case False
  have m: "0 < UPLINK_FRAME_MAX" by (simp add: UPLINK_FRAME_MAX_def)
  have l: "\<forall>c \<in> set (chunks UPLINK_FRAME_MAX data). length c \<le> UPLINK_FRAME_MAX"
    using chunks_lengths [OF m] by blast
  from assms False have "send_loop ok (chunks UPLINK_FRAME_MAX data) [] waits s = (Inr u, waits', s')"
    by (simp add: send_def)
  from send_loop_ok [OF l this] concat_chunks [OF m, of data] show ?thesis
    by (auto simp: posted_def)
qed

end
