(* ===== verification/Py_Struct.thy ===== *)
theory Py_Struct
  imports TL_Primitives
begin

text \<open>
  What the repository uses of Python's \<open>struct\<close> with the little-endian formats made
  of \<open>b\<close>, \<open>i\<close> and \<open>q\<close>: a format is the list of the field widths, all of them signed.
  An argument that is \<open>None\<close> or out of range raises \<open>struct.error\<close>, and so does a
  buffer that does not have exactly the size of the format.
\<close>

definition pack_field :: "nat \<Rightarrow> int option \<Rightarrow> bytes res" where
  "pack_field k v =
     (case v of
        None \<Rightarrow> Inl StructError
      | Some n \<Rightarrow> if in_range True k n then Inr (le_bytes k n) else Inl StructError)"

definition struct_pack :: "(nat \<times> int option) list \<Rightarrow> bytes res" where
  "struct_pack fs = bindR (mapR (\<lambda>(k, v). pack_field k v) fs) (\<lambda>ws. Inr (concat ws))"

primrec split_fields :: "nat list \<Rightarrow> bytes \<Rightarrow> int list" where
  "split_fields [] bs = []"
| "split_fields (k # ks) bs = from_bytes_le True (take k bs) # split_fields ks (drop k bs)"

definition struct_unpack :: "nat list \<Rightarrow> bytes \<Rightarrow> int list res" where
  "struct_unpack ks bs = (if length bs = sum_list ks then Inr (split_fields ks bs) else Inl StructError)"

text \<open>\<open>struct.unpack(format, buffer.read(size))\<close>.\<close>

definition read_struct :: "nat list \<Rightarrow> bytesio \<Rightarrow> (int list \<times> bytesio) res" where
  "read_struct ks b =
     (let (x, b') = bio_read (int (sum_list ks)) b
      in bindR (struct_unpack ks x) (\<lambda>vs. Inr (vs, b')))"

lemma le_bytes_numeral:
  "le_bytes (numeral k) n = word_of_int n # le_bytes (pred_numeral k) (n div 256)"
  by (simp add: numeral_eq_Suc)

lemma pack_field_ok [res_simps]:
  "pack_field k v = Inr w \<longleftrightarrow> (\<exists>n. v = Some n \<and> in_range True k n \<and> w = le_bytes k n)"
  by (auto simp: pack_field_def split: option.splits)

lemma struct_pack_Nil [simp]: "struct_pack [] = Inr []"
  by (simp add: struct_pack_def)

lemma struct_pack_Cons [res_simps]:
  "struct_pack ((k, v) # fs) = Inr w \<longleftrightarrow>
     (\<exists>n w'. v = Some n \<and> in_range True k n \<and> struct_pack fs = Inr w' \<and> w = le_bytes k n @ w')"
  by (auto simp: struct_pack_def res_simps)

lemma split_fields_back:
  "struct_pack fs = Inr w \<Longrightarrow> split_fields (map fst fs) w = map (the \<circ> snd) fs"
  by (induction fs arbitrary: w) (auto simp: res_simps from_bytes_le_le_bytes)

lemma length_struct_pack: "struct_pack fs = Inr w \<Longrightarrow> length w = sum_list (map fst fs)"
  by (induction fs arbitrary: w) (auto simp: res_simps)

lemma read_struct_back:
  assumes "struct_pack fs = Inr w" "rest b = w @ ys" "ks = map fst fs"
  shows "read_struct ks b = Inr (map (the \<circ> snd) fs, skip (length w) b)"
proof -
  note l = length_struct_pack [OF assms(1)]
  have "bio_read (int (sum_list ks)) b = (w, skip (length w) b)"
    using assms(2) by (rule bio_read_skip) (simp add: l assms(3))
  then show ?thesis
    using assms(3) by (simp add: read_struct_def struct_unpack_def l split_fields_back [OF assms(1)])
qed

text \<open>The layouts in use, for numbers that are in range.\<close>

lemma read_struct_ints:
  assumes "list_all2 (in_range True) ks ns" "rest b = concat (map2 le_bytes ks ns) @ ys"
  shows "read_struct ks b = Inr (ns, skip (sum_list ks) b)"
proof -
  have p: "struct_pack (zip ks (map Some ns)) = Inr (concat (map2 le_bytes ks ns))"
    using assms(1) by (induction ks ns rule: list_all2_induct) (auto simp: res_simps)
  have l: "length ks = length ns" using assms(1) by (rule list_all2_lengthD)
  then have "map (the \<circ> snd) (zip ks (map Some ns)) = ns" "map fst (zip ks (map Some ns)) = ks"
    by (auto simp: list_eq_iff_nth_eq)
  with read_struct_back [OF p assms(2), of ks] length_struct_pack [OF p] show ?thesis by simp
qed

lemma read_layouts:
  "in_range True 4 m \<Longrightarrow> rest b = le_bytes 4 m @ ys \<Longrightarrow> read_struct [4] b = Inr ([m], skip 4 b)"
  "in_range True 8 m \<Longrightarrow> rest b = le_bytes 8 m @ ys \<Longrightarrow> read_struct [8] b = Inr ([m], skip 8 b)"
  "in_range True 4 m \<Longrightarrow> in_range True 4 n \<Longrightarrow> rest b = le_bytes 4 m @ le_bytes 4 n @ ys \<Longrightarrow>
    read_struct [4, 4] b = Inr ([m, n], skip 8 b)"
  "in_range True 8 m \<Longrightarrow> in_range True 8 n \<Longrightarrow> rest b = le_bytes 8 m @ le_bytes 8 n @ ys \<Longrightarrow>
    read_struct [8, 8] b = Inr ([m, n], skip 16 b)"
  "in_range True 8 m \<Longrightarrow> in_range True 8 n \<Longrightarrow> in_range True 4 k \<Longrightarrow>
    rest b = le_bytes 8 m @ le_bytes 8 n @ le_bytes 4 k @ ys \<Longrightarrow>
    read_struct [8, 8, 4] b = Inr ([m, n, k], skip 20 b)"
  "in_range True 8 m \<Longrightarrow> in_range True 8 n \<Longrightarrow> in_range True 8 k \<Longrightarrow> in_range True 4 l \<Longrightarrow>
    rest b = le_bytes 8 m @ le_bytes 8 n @ le_bytes 8 k @ le_bytes 4 l @ ys \<Longrightarrow>
    read_struct [8, 8, 8, 4] b = Inr ([m, n, k, l], skip 28 b)"
  using read_struct_ints [of "[4]" "[m]" b ys] read_struct_ints [of "[8]" "[m]" b ys]
    read_struct_ints [of "[4, 4]" "[m, n]" b ys] read_struct_ints [of "[8, 8]" "[m, n]" b ys]
    read_struct_ints [of "[8, 8, 4]" "[m, n, k]" b ys] read_struct_ints [of "[8, 8, 8, 4]" "[m, n, k, l]" b ys]
  by simp_all

end
