(* ===== verification/File_Id.thy ===== *)
theory File_Id
  imports Base64 Py_Struct
begin

text \<open>
  \<open>kurigram/pyrogram/file_id.py\<close>: file ids and unique file ids, their run-length and
  base64 coding, and the layouts of the photo tails.  A Python value that may be
  \<open>None\<close> is an option; \<open>PhotoTail\<close> is the part of \<open>FileId\<close> that depends on the
  source of a thumbnail, so \<open>file_id\<close> extends \<open>photo_tail\<close>.
\<close>

section \<open>Base64 and run lengths\<close>

text \<open>\<open>str.strip("=")\<close> strips both ends.\<close>

definition b64_encode :: "bytes \<Rightarrow> pystr" where
  "b64_encode s = rstrip_pad (dropWhile (\<lambda>ch. ch = PAD) (b64encode True s))"

definition b64_decode :: "pystr \<Rightarrow> bytes res" where
  "b64_decode s = urlsafe_b64decode (add_pad s)"

text \<open>The loop of \<open>rle_encode\<close> with its counter of zeros; \<open>bytes(r)\<close> refuses a run of
  more than 255.\<close>

definition rle_flush :: "nat \<Rightarrow> nat list" where
  "rle_flush n = (if n \<noteq> 0 then [0, n] else [])"

fun rle_encode_loop :: "nat \<Rightarrow> bytes \<Rightarrow> nat list" where
  "rle_encode_loop n [] = rle_flush n"
| "rle_encode_loop n (b # s) =
     (if b = 0 then rle_encode_loop (n + 1) s else rle_flush n @ unat b # rle_encode_loop 0 s)"

definition py_bytes :: "nat list \<Rightarrow> bytes res" where
  "py_bytes r = (if list_all (\<lambda>n. n < 256) r then Inr (map of_nat r) else Inl ValueError)"

definition rle_encode :: "bytes \<Rightarrow> bytes res" where
  "rle_encode s = py_bytes (rle_encode_loop 0 s)"

fun rle_decode_loop :: "bool \<Rightarrow> bytes \<Rightarrow> bytes" where
  "rle_decode_loop z [] = []"
| "rle_decode_loop z (b # s) =
     (if b = 0 then rle_decode_loop True s
      else if z then replicate (unat b) 0 @ rle_decode_loop False s
      else b # rle_decode_loop False s)"

definition rle_decode :: "bytes \<Rightarrow> bytes" where
  "rle_decode s = rle_decode_loop False s"

section \<open>Enumerations\<close>

datatype file_type =
    THUMBNAIL | CHAT_PHOTO | PHOTO | VOICE | VIDEO | DOCUMENT | ENCRYPTED | TEMP | STICKER | AUDIO
  | ANIMATION | ENCRYPTED_THUMBNAIL | WALLPAPER | VIDEO_NOTE | SECURE_RAW | SECURE | BACKGROUND
  | DOCUMENT_AS_FILE

definition file_types :: "file_type list" where
  "file_types =
     [THUMBNAIL, CHAT_PHOTO, PHOTO, VOICE, VIDEO, DOCUMENT, ENCRYPTED, TEMP, STICKER, AUDIO,
      ANIMATION, ENCRYPTED_THUMBNAIL, WALLPAPER, VIDEO_NOTE, SECURE_RAW, SECURE, BACKGROUND,
      DOCUMENT_AS_FILE]"

primrec file_type_value :: "file_type \<Rightarrow> int" where
  "file_type_value THUMBNAIL = 0"
| "file_type_value CHAT_PHOTO = 1"
| "file_type_value PHOTO = 2"
| "file_type_value VOICE = 3"
| "file_type_value VIDEO = 4"
| "file_type_value DOCUMENT = 5"
| "file_type_value ENCRYPTED = 6"
| "file_type_value TEMP = 7"
| "file_type_value STICKER = 8"
| "file_type_value AUDIO = 9"
| "file_type_value ANIMATION = 10"
| "file_type_value ENCRYPTED_THUMBNAIL = 11"
| "file_type_value WALLPAPER = 12"
| "file_type_value VIDEO_NOTE = 13"
| "file_type_value SECURE_RAW = 14"
| "file_type_value SECURE = 15"
| "file_type_value BACKGROUND = 16"
| "file_type_value DOCUMENT_AS_FILE = 17"

text \<open>\<open>FileType(n)\<close>: a value that is none of the members raises \<open>ValueError\<close>.\<close>

definition FileType_new :: "int \<Rightarrow> file_type res" where
  "FileType_new n =
     (case find (\<lambda>t. file_type_value t = n) file_types of None \<Rightarrow> Inl ValueError | Some t \<Rightarrow> Inr t)"

datatype thumbnail_source =
    LEGACY | FROM_THUMBNAIL | CHAT_PHOTO_SMALL | CHAT_PHOTO_BIG | STICKER_SET_THUMBNAIL | FULL_LEGACY
  | CHAT_PHOTO_SMALL_LEGACY | CHAT_PHOTO_BIG_LEGACY | STICKER_SET_THUMBNAIL_LEGACY
  | STICKER_SET_THUMBNAIL_VERSION

definition thumbnail_sources :: "thumbnail_source list" where
  "thumbnail_sources =
     [LEGACY, FROM_THUMBNAIL, CHAT_PHOTO_SMALL, CHAT_PHOTO_BIG, STICKER_SET_THUMBNAIL, FULL_LEGACY,
      CHAT_PHOTO_SMALL_LEGACY, CHAT_PHOTO_BIG_LEGACY, STICKER_SET_THUMBNAIL_LEGACY,
      STICKER_SET_THUMBNAIL_VERSION]"

primrec thumbnail_source_value :: "thumbnail_source \<Rightarrow> int" where
  "thumbnail_source_value LEGACY = 0"
| "thumbnail_source_value FROM_THUMBNAIL = 1"
| "thumbnail_source_value CHAT_PHOTO_SMALL = 2"
| "thumbnail_source_value CHAT_PHOTO_BIG = 3"
| "thumbnail_source_value STICKER_SET_THUMBNAIL = 4"
| "thumbnail_source_value FULL_LEGACY = 5"
| "thumbnail_source_value CHAT_PHOTO_SMALL_LEGACY = 6"
| "thumbnail_source_value CHAT_PHOTO_BIG_LEGACY = 7"
| "thumbnail_source_value STICKER_SET_THUMBNAIL_LEGACY = 8"
| "thumbnail_source_value STICKER_SET_THUMBNAIL_VERSION = 9"

definition ThumbnailSource_new :: "int \<Rightarrow> thumbnail_source res" where
  "ThumbnailSource_new n =
     (case find (\<lambda>t. thumbnail_source_value t = n) thumbnail_sources of
        None \<Rightarrow> Inl ValueError | Some t \<Rightarrow> Inr t)"

definition NO_VOLUME_AND_LOCAL_ID_MINOR :: int where "NO_VOLUME_AND_LOCAL_ID_MINOR = 32"

text \<open>\<open>DOCUMENT_TYPES\<close> is the complement of this set in \<open>FileType\<close>.\<close>

definition PHOTO_TYPES :: "file_type list" where
  "PHOTO_TYPES = [THUMBNAIL, CHAT_PHOTO, PHOTO, WALLPAPER, ENCRYPTED_THUMBNAIL]"

definition DOCUMENT_TYPES :: "file_type list" where
  "DOCUMENT_TYPES = filter (\<lambda>t. t \<notin> set PHOTO_TYPES) file_types"

definition WEB_LOCATION_FLAG :: int where "WEB_LOCATION_FLAG = push_bit 24 1"
definition FILE_REFERENCE_FLAG :: int where "FILE_REFERENCE_FLAG = push_bit 25 1"

section \<open>Photo tails\<close>

record photo_tail =
  volume_id :: "int option"
  local_id :: "int option"
  secret :: "int option"
  thumbnail_file_type :: "int option"
  thumbnail_size :: pystr
  chat_id :: "int option"
  chat_access_hash :: "int option"
  sticker_set_id :: "int option"
  sticker_set_access_hash :: "int option"
  sticker_set_version :: "int option"

definition PhotoTail_default :: photo_tail where
  "PhotoTail_default =
     \<lparr>volume_id = None, local_id = None, secret = None, thumbnail_file_type = None, thumbnail_size = [],
      chat_id = None, chat_access_hash = None, sticker_set_id = None, sticker_set_access_hash = None,
      sticker_set_version = None\<rparr>"

definition py_chr :: "int \<Rightarrow> pystr res" where
  "py_chr n = (if 0 \<le> n \<and> n < 0x110000 then Inr [nat n] else Inl ValueError)"

definition py_ord :: "pystr \<Rightarrow> int res" where
  "py_ord s = (case s of [c] \<Rightarrow> Inr (int c) | _ \<Rightarrow> Inl TypeError)"

definition read_photo_tail :: "bytesio \<Rightarrow> thumbnail_source \<Rightarrow> (photo_tail \<times> bytesio) res" where
  "read_photo_tail buffer source =
     (case source of
        LEGACY \<Rightarrow>
          bindR (read_struct [8] buffer) (\<lambda>(v, b). Inr (PhotoTail_default\<lparr>secret := Some (v ! 0)\<rparr>, b))
      | FROM_THUMBNAIL \<Rightarrow>
          bindR (read_struct [4, 4] buffer) (\<lambda>(v, b).
          bindR (py_chr (v ! 1)) (\<lambda>c.
            Inr (PhotoTail_default\<lparr>thumbnail_file_type := Some (v ! 0), thumbnail_size := c\<rparr>, b)))
      | STICKER_SET_THUMBNAIL \<Rightarrow>
          bindR (read_struct [8, 8] buffer) (\<lambda>(v, b).
            Inr (PhotoTail_default\<lparr>sticker_set_id := Some (v ! 0), sticker_set_access_hash := Some (v ! 1)\<rparr>, b))
      | FULL_LEGACY \<Rightarrow>
          bindR (read_struct [8, 8, 4] buffer) (\<lambda>(v, b).
            Inr (PhotoTail_default\<lparr>volume_id := Some (v ! 0), secret := Some (v ! 1), local_id := Some (v ! 2)\<rparr>, b))
      | STICKER_SET_THUMBNAIL_LEGACY \<Rightarrow>
          bindR (read_struct [8, 8, 8, 4] buffer) (\<lambda>(v, b).
            Inr (PhotoTail_default\<lparr>sticker_set_id := Some (v ! 0), sticker_set_access_hash := Some (v ! 1),
              volume_id := Some (v ! 2), local_id := Some (v ! 3)\<rparr>, b))
      | STICKER_SET_THUMBNAIL_VERSION \<Rightarrow>
          bindR (read_struct [8, 8, 4] buffer) (\<lambda>(v, b).
            Inr (PhotoTail_default\<lparr>sticker_set_id := Some (v ! 0), sticker_set_access_hash := Some (v ! 1),
              sticker_set_version := Some (v ! 2)\<rparr>, b))
      | _ \<Rightarrow>
          if source = CHAT_PHOTO_SMALL \<or> source = CHAT_PHOTO_BIG
          then bindR (read_struct [8, 8] buffer) (\<lambda>(v, b).
            Inr (PhotoTail_default\<lparr>chat_id := Some (v ! 0), chat_access_hash := Some (v ! 1)\<rparr>, b))
          else bindR (read_struct [8, 8, 8, 4] buffer) (\<lambda>(v, b).
            Inr (PhotoTail_default\<lparr>chat_id := Some (v ! 0), chat_access_hash := Some (v ! 1),
              volume_id := Some (v ! 2), local_id := Some (v ! 3)\<rparr>, b)))"

section \<open>File ids\<close>

record file_id = photo_tail +
  major :: int
  minor :: int
  ftype :: file_type
  dc_id :: int
  file_reference :: bytes
  url :: "pystr option"
  media_id :: "int option"
  access_hash :: "int option"
  thumb_source :: "thumbnail_source option"

text \<open>\<open>FileId(...)\<close> of the arguments every call gives, the others at their defaults.\<close>

definition FileId_new :: "int \<Rightarrow> int \<Rightarrow> file_type \<Rightarrow> int \<Rightarrow> photo_tail \<Rightarrow> file_id" where
  "FileId_new ma mi t dc tail =
     photo_tail.extend tail
       \<lparr>major = ma, minor = mi, ftype = t, dc_id = dc, file_reference = [], url = None,
        media_id = None, access_hash = None, thumb_source = None\<rparr>"

definition write_photo_tail :: "file_id \<Rightarrow> bytes res" where
  "write_photo_tail f =
     (case thumb_source f of
        None \<Rightarrow> Inl ValueError
      | Some LEGACY \<Rightarrow> struct_pack [(8, secret f)]
      | Some FROM_THUMBNAIL \<Rightarrow>
          bindR (py_ord (thumbnail_size f)) (\<lambda>c. struct_pack [(4, thumbnail_file_type f), (4, Some c)])
      | Some STICKER_SET_THUMBNAIL \<Rightarrow> struct_pack [(8, sticker_set_id f), (8, sticker_set_access_hash f)]
      | Some FULL_LEGACY \<Rightarrow> struct_pack [(8, volume_id f), (8, secret f), (4, local_id f)]
      | Some STICKER_SET_THUMBNAIL_LEGACY \<Rightarrow>
          struct_pack [(8, sticker_set_id f), (8, sticker_set_access_hash f), (8, volume_id f), (4, local_id f)]
      | Some STICKER_SET_THUMBNAIL_VERSION \<Rightarrow>
          struct_pack [(8, sticker_set_id f), (8, sticker_set_access_hash f), (4, sticker_set_version f)]
      | Some source \<Rightarrow>
          if source = CHAT_PHOTO_SMALL \<or> source = CHAT_PHOTO_BIG
          then struct_pack [(8, chat_id f), (8, chat_access_hash f)]
          else struct_pack [(8, chat_id f), (8, chat_access_hash f), (8, volume_id f), (4, local_id f)])"

text \<open>The version at the end of the decoded bytes, and what is before it.\<close>

definition read_version :: "bytes \<Rightarrow> (int \<times> int \<times> bytesio) res" where
  "read_version decoded =
     (if decoded = [] then Inl IndexError
      else let ma = uint (last decoded)
           in if ma < 4 then Inr (ma, 0, bio (butlast decoded))
              else if length decoded < 2 then Inl IndexError
              else Inr (ma, uint (last (butlast decoded)), bio (butlast (butlast decoded))))"

definition read_photo :: "int \<Rightarrow> int \<Rightarrow> bytesio \<Rightarrow> ((thumbnail_source \<times> photo_tail) \<times> bytesio) res" where
  "read_photo ma mi b0 =
     (let has_volume_and_local_id = mi < NO_VOLUME_AND_LOCAL_ID_MINOR
      in bindR (if has_volume_and_local_id
                then bindR (read_struct [8] b0) (\<lambda>(v, b). Inr (Some (v ! 0), b)) else Inr (None, b0)) (\<lambda>(vol, b1).
         bindR (if ma < 4 then Inr (0, b1) else bindR (read_struct [4] b1) (\<lambda>(v, b). Inr (v ! 0, b))) (\<lambda>(n, b2).
         bindR (ThumbnailSource_new n) (\<lambda>source.
         bindR (read_photo_tail b2 source) (\<lambda>(tail, b3).
           if has_volume_and_local_id
           then bindR (read_struct [4] b3) (\<lambda>(v, b4).
             Inr ((source, tail\<lparr>volume_id := vol, local_id := Some (v ! 0)\<rparr>), b4))
           else Inr ((source, tail), b3))))))"

text \<open>\<open>decode\<close> behind the version and the two leading words \<open>n\<close> and \<open>dc\<close>.\<close>

definition decode_body :: "int \<Rightarrow> int \<Rightarrow> int \<Rightarrow> int \<Rightarrow> bytesio \<Rightarrow> file_id res" where
  "decode_body ma mi n dc b1 =
     (let has_web_location = n AND WEB_LOCATION_FLAG \<noteq> 0;
          has_file_reference = n AND FILE_REFERENCE_FLAG \<noteq> 0;
          n = (n AND NOT WEB_LOCATION_FLAG) AND NOT FILE_REFERENCE_FLAG
      in bindR (FileType_new n) (\<lambda>t.
           if has_web_location
           then (let (u, b2) = String_read b1
                 in bindR (read_struct [8] b2) (\<lambda>(w, _).
                      Inr ((FileId_new ma mi t dc PhotoTail_default)\<lparr>url := Some u, access_hash := Some (w ! 0)\<rparr>)))
           else let (fr, b2) = (if has_file_reference then Bytes_read b1 else ([], b1))
                in bindR (read_struct [8, 8] b2) (\<lambda>(w, b3).
                     if t \<in> set PHOTO_TYPES
                     then bindR (read_photo ma mi b3) (\<lambda>((source, tail), _).
                       Inr ((FileId_new ma mi t dc tail)\<lparr>file_reference := fr, media_id := Some (w ! 0),
                         access_hash := Some (w ! 1), thumb_source := Some source\<rparr>))
                     else Inr ((FileId_new ma mi t dc PhotoTail_default)\<lparr>file_reference := fr,
                       media_id := Some (w ! 0), access_hash := Some (w ! 1)\<rparr>))))"

definition FileId_decode :: "pystr \<Rightarrow> file_id res" where
  "FileId_decode s =
     bindR (b64_decode s) (\<lambda>x.
     bindR (read_version (rle_decode x)) (\<lambda>(ma, mi, b0).
     bindR (read_struct [4, 4] b0) (\<lambda>(v, b1). decode_body ma mi (v ! 0) (v ! 1) b1)))"

text \<open>\<open>if self.url\<close>.\<close>

definition has_url :: "file_id \<Rightarrow> bool" where
  "has_url f = (case url f of None \<Rightarrow> False | Some u \<Rightarrow> u \<noteq> [])"

definition flagged_type :: "file_id \<Rightarrow> int" where
  "flagged_type f =
     (let n = file_type_value (ftype f);
          n = (if has_url f then n OR WEB_LOCATION_FLAG else n)
      in if file_reference f \<noteq> [] then n OR FILE_REFERENCE_FLAG else n)"

text \<open>What a photo writes after its access hash.\<close>

definition write_photo :: "int \<Rightarrow> int \<Rightarrow> file_id \<Rightarrow> bytes res" where
  "write_photo ma mi f =
     (let has_volume_and_local_id = mi < NO_VOLUME_AND_LOCAL_ID_MINOR
      in bindR (if has_volume_and_local_id then struct_pack [(8, volume_id f)] else Inr []) (\<lambda>vol.
         bindR (if ma \<ge> 4 then struct_pack [(4, map_option thumbnail_source_value (thumb_source f))] else Inr []) (\<lambda>src.
         bindR (write_photo_tail f) (\<lambda>tail.
         bindR (if has_volume_and_local_id then struct_pack [(4, local_id f)] else Inr []) (\<lambda>loc.
           Inr (vol @ src @ tail @ loc))))))"

text \<open>\<open>encode\<close> compares the type with its flags set against \<open>DOCUMENT_TYPES\<close>, so only an
  id without web location and file reference gets the extra version words.\<close>

definition FileId_encode :: "int option \<Rightarrow> int option \<Rightarrow> file_id \<Rightarrow> pystr res" where
  "FileId_encode ma mi f =
     (let ma = (case ma of Some x \<Rightarrow> x | None \<Rightarrow> major f);
          mi = (case mi of Some x \<Rightarrow> x | None \<Rightarrow> minor f)
      in bindR (struct_pack [(4, Some (flagged_type f)), (4, Some (dc_id f))]) (\<lambda>head.
         bindR (if has_url f then String_new (the (url f)) else Inr []) (\<lambda>u.
         bindR (if file_reference f \<noteq> [] then Bytes_new (file_reference f) else Inr []) (\<lambda>fr.
         bindR (struct_pack [(8, media_id f), (8, access_hash f)]) (\<lambda>ids.
         bindR (if ftype f \<in> set PHOTO_TYPES then write_photo ma mi f
                else if flagged_type f \<in> set (map file_type_value DOCUMENT_TYPES)
                then struct_pack [(4, Some mi), (4, Some ma)] else Inr []) (\<lambda>body.
         bindR (struct_pack [(1, Some mi), (1, Some ma)]) (\<lambda>version.
         bindR (rle_encode (head @ u @ fr @ ids @ body @ version)) (\<lambda>r. Inr (b64_encode r)))))))))"

section \<open>Unique file ids\<close>

datatype file_unique_type =
    UNIQUE_WEB | UNIQUE_PHOTO | UNIQUE_DOCUMENT | UNIQUE_SECURE | UNIQUE_ENCRYPTED | UNIQUE_TEMP

definition file_unique_types :: "file_unique_type list" where
  "file_unique_types =
     [UNIQUE_WEB, UNIQUE_PHOTO, UNIQUE_DOCUMENT, UNIQUE_SECURE, UNIQUE_ENCRYPTED, UNIQUE_TEMP]"

primrec file_unique_type_value :: "file_unique_type \<Rightarrow> int" where
  "file_unique_type_value UNIQUE_WEB = 0"
| "file_unique_type_value UNIQUE_PHOTO = 1"
| "file_unique_type_value UNIQUE_DOCUMENT = 2"
| "file_unique_type_value UNIQUE_SECURE = 3"
| "file_unique_type_value UNIQUE_ENCRYPTED = 4"
| "file_unique_type_value UNIQUE_TEMP = 5"

definition FileUniqueType_new :: "int \<Rightarrow> file_unique_type res" where
  "FileUniqueType_new n =
     (case find (\<lambda>t. file_unique_type_value t = n) file_unique_types of
        None \<Rightarrow> Inl ValueError | Some t \<Rightarrow> Inr t)"

record file_unique_id =
  unique_type :: file_unique_type
  unique_url :: "pystr option"
  unique_media_id :: "int option"
  unique_volume_id :: "int option"
  unique_local_id :: "int option"

definition FileUniqueId_new :: "file_unique_type \<Rightarrow> file_unique_id" where
  "FileUniqueId_new t =
     \<lparr>unique_type = t, unique_url = None, unique_media_id = None, unique_volume_id = None, unique_local_id = None\<rparr>"

definition FileUniqueId_decode :: "pystr \<Rightarrow> file_unique_id res" where
  "FileUniqueId_decode s =
     bindR (b64_decode s) (\<lambda>x.
     bindR (read_struct [4] (bio (rle_decode x))) (\<lambda>(v, b).
     bindR (FileUniqueType_new (v ! 0)) (\<lambda>t.
       case t of
         UNIQUE_WEB \<Rightarrow> Inr ((FileUniqueId_new t)\<lparr>unique_url := Some (fst (String_read b))\<rparr>)
       | UNIQUE_PHOTO \<Rightarrow>
           bindR (struct_unpack [8, 4] (fst (bio_read_all b))) (\<lambda>w.
             Inr ((FileUniqueId_new t)\<lparr>unique_volume_id := Some (w ! 0), unique_local_id := Some (w ! 1)\<rparr>))
       | UNIQUE_DOCUMENT \<Rightarrow>
           bindR (struct_unpack [8] (fst (bio_read_all b))) (\<lambda>w.
             Inr ((FileUniqueId_new t)\<lparr>unique_media_id := Some (w ! 0)\<rparr>))
       | _ \<Rightarrow> Inl ValueError)))"

text \<open>The format \<open>"<is"\<close> takes one byte of its string argument.  \<open>String(None)\<close> raises
  \<open>AttributeError\<close>.\<close>

definition FileUniqueId_encode :: "file_unique_id \<Rightarrow> pystr res" where
  "FileUniqueId_encode f =
     bindR (case unique_type f of
              UNIQUE_WEB \<Rightarrow>
                bindR (case unique_url f of None \<Rightarrow> Inl AttributeError | Some u \<Rightarrow> String_new u) (\<lambda>w.
                bindR (struct_pack [(4, Some 0)]) (\<lambda>t. Inr (t @ take 1 w)))
            | UNIQUE_PHOTO \<Rightarrow> struct_pack [(4, Some 1), (8, unique_volume_id f), (4, unique_local_id f)]
            | UNIQUE_DOCUMENT \<Rightarrow> struct_pack [(4, Some 2), (8, unique_media_id f)]
            | _ \<Rightarrow> Inl ValueError) (\<lambda>s.
     bindR (rle_encode s) (\<lambda>r. Inr (b64_encode r)))"

section \<open>Codings\<close>

lemma b64_groups_no_pad_first: "dropWhile (\<lambda>ch. ch = PAD) (b64_groups u xs) = b64_groups u xs"
  by (induction u xs rule: b64_groups.induct) (simp_all add: b64_char_props)

lemma b64_round_trip: "b64_decode (b64_encode x) = Inr x"
  using urlsafe_round_trip(2) [of True x]
  by (simp add: b64_decode_def b64_encode_def b64encode_def b64_groups_no_pad_first)

lemma rle_loop_back:
  "list_all (\<lambda>m. m < 256) (rle_encode_loop n s) \<Longrightarrow>
   rle_decode_loop False (map of_nat (rle_encode_loop n s)) = replicate n 0 @ s"
proof (induction n s rule: rle_encode_loop.induct)
  case (1 n)
  have "0 < n \<Longrightarrow> n < 256 \<Longrightarrow> (of_nat n :: byte) \<noteq> 0"
    using unat_of_nat_byte [of n] by auto
  with 1 show ?case by (cases "n = 0") (auto simp: rle_flush_def unat_of_nat_byte)
next
  case (2 n b s)
  have "0 < n \<Longrightarrow> n < 256 \<Longrightarrow> (of_nat n :: byte) \<noteq> 0"
    using unat_of_nat_byte [of n] by auto
  with 2 show ?case
    by (auto simp: rle_flush_def unat_of_nat_byte replicate_app_Cons_same)
qed

lemma rle_round_trip: "rle_encode s = Inr w \<Longrightarrow> rle_decode w = s"
  using rle_loop_back [of 0 s] by (auto simp: rle_encode_def rle_decode_def py_bytes_def split: if_splits)

lemma FileType_new_value [simp]: "FileType_new (file_type_value t) = Inr t"
  by (cases t) (simp_all add: FileType_new_def file_types_def)

lemma ThumbnailSource_new_value [simp]: "ThumbnailSource_new (thumbnail_source_value t) = Inr t"
  by (cases t) (simp_all add: ThumbnailSource_new_def thumbnail_sources_def)

lemma flagged_type_back:
  "(flagged_type f AND WEB_LOCATION_FLAG \<noteq> 0) = has_url f"
  "(flagged_type f AND FILE_REFERENCE_FLAG \<noteq> 0) = (file_reference f \<noteq> [])"
  "(flagged_type f AND NOT WEB_LOCATION_FLAG) AND NOT FILE_REFERENCE_FLAG = file_type_value (ftype f)"
  by (cases "ftype f"; cases "has_url f"; cases "file_reference f = []";
      simp add: flagged_type_def Let_def WEB_LOCATION_FLAG_def FILE_REFERENCE_FLAG_def push_bit_eq_mult)+

section \<open>What an encoded id carries\<close>

text \<open>The fields that the layout of a source has room for; the others are lost.\<close>

definition kept_tail :: "thumbnail_source \<Rightarrow> file_id \<Rightarrow> photo_tail" where
  "kept_tail source f =
     (case source of
        LEGACY \<Rightarrow> PhotoTail_default\<lparr>secret := secret f\<rparr>
      | FROM_THUMBNAIL \<Rightarrow>
          PhotoTail_default\<lparr>thumbnail_file_type := thumbnail_file_type f, thumbnail_size := thumbnail_size f\<rparr>
      | CHAT_PHOTO_SMALL \<Rightarrow> PhotoTail_default\<lparr>chat_id := chat_id f, chat_access_hash := chat_access_hash f\<rparr>
      | CHAT_PHOTO_BIG \<Rightarrow> PhotoTail_default\<lparr>chat_id := chat_id f, chat_access_hash := chat_access_hash f\<rparr>
      | STICKER_SET_THUMBNAIL \<Rightarrow>
          PhotoTail_default\<lparr>sticker_set_id := sticker_set_id f, sticker_set_access_hash := sticker_set_access_hash f\<rparr>
      | FULL_LEGACY \<Rightarrow>
          PhotoTail_default\<lparr>volume_id := volume_id f, secret := secret f, local_id := local_id f\<rparr>
      | CHAT_PHOTO_SMALL_LEGACY \<Rightarrow>
          PhotoTail_default\<lparr>chat_id := chat_id f, chat_access_hash := chat_access_hash f,
            volume_id := volume_id f, local_id := local_id f\<rparr>
      | CHAT_PHOTO_BIG_LEGACY \<Rightarrow>
          PhotoTail_default\<lparr>chat_id := chat_id f, chat_access_hash := chat_access_hash f,
            volume_id := volume_id f, local_id := local_id f\<rparr>
      | STICKER_SET_THUMBNAIL_LEGACY \<Rightarrow>
          PhotoTail_default\<lparr>sticker_set_id := sticker_set_id f, sticker_set_access_hash := sticker_set_access_hash f,
            volume_id := volume_id f, local_id := local_id f\<rparr>
      | STICKER_SET_THUMBNAIL_VERSION \<Rightarrow>
          PhotoTail_default\<lparr>sticker_set_id := sticker_set_id f, sticker_set_access_hash := sticker_set_access_hash f,
            sticker_set_version := sticker_set_version f\<rparr>)"

lemma read_photo_tail_back:
  assumes "write_photo_tail f = Inr w" "thumb_source f = Some source"
    "list_all (\<lambda>c. c < 0x110000) (thumbnail_size f)" "rest b = w @ ys"
  shows "read_photo_tail b source = Inr (kept_tail source f, skip (length w) b)"
proof (cases source)
  case FROM_THUMBNAIL
  with assms(1,2) obtain c where c: "thumbnail_size f = [c]"
    and p: "struct_pack [(4, thumbnail_file_type f), (4, Some (int c))] = Inr w"
    by (auto simp: write_photo_tail_def res_simps py_ord_def split: list.splits)
  with assms(3,4) FROM_THUMBNAIL show ?thesis
    by (auto simp: read_photo_tail_def kept_tail_def py_chr_def res_simps read_layouts)
qed (use assms in \<open>auto simp: write_photo_tail_def read_photo_tail_def kept_tail_def res_simps read_layouts\<close>)

lemma read_photo_back:
  assumes "write_photo ma mi f = Inr w" "thumb_source f = Some source"
    "list_all (\<lambda>c. c < 0x110000) (thumbnail_size f)" "rest b = w @ ys" "ma < 4 \<longrightarrow> source = LEGACY"
  shows "read_photo ma mi b = Inr ((source, if mi < NO_VOLUME_AND_LOCAL_ID_MINOR
      then (kept_tail source f)\<lparr>volume_id := volume_id f, local_id := local_id f\<rparr> else kept_tail source f),
    skip (length w) b)"
proof -
  let ?h = "mi < NO_VOLUME_AND_LOCAL_ID_MINOR"
  from assms(1) obtain vol src tail loc where w: "w = vol @ src @ tail @ loc"
    and v: "if ?h then struct_pack [(8, volume_id f)] = Inr vol else vol = []"
    and s: "if ma \<ge> 4 then struct_pack [(4, Some (thumbnail_source_value source))] = Inr src else src = []"
    and t: "write_photo_tail f = Inr tail"
    and l: "if ?h then struct_pack [(4, local_id f)] = Inr loc else loc = []"
    by (auto simp: write_photo_def Let_def res_simps assms(2) split: if_splits)
  define b1 b2 b3 where "b1 = skip (length vol) b" and "b2 = skip (length src) b1" and "b3 = skip (length tail) b2"
  have r: "rest b = vol @ src @ tail @ loc @ ys" "rest b1 = src @ tail @ loc @ ys"
    "rest b2 = tail @ loc @ ys" "rest b3 = loc @ ys"
    using assms(4) w by (simp_all add: b1_def b2_def b3_def)
  have 1: "(if ?h then bindR (read_struct [8] b) (\<lambda>(v, b). Inr (Some (v ! 0), b)) else Inr (None, b))
      = Inr (if ?h then volume_id f else None, b1)"
    using v r(1) by (auto simp: res_simps read_layouts b1_def)
  have 2: "(if ma < 4 then Inr (0, b1) else bindR (read_struct [4] b1) (\<lambda>(v, b). Inr (v ! 0, b)))
      = Inr (thumbnail_source_value source, b2)"
    using s r(2) assms(5) by (auto simp: res_simps read_layouts b2_def split: if_splits)
  have 3: "read_photo_tail b2 source = Inr (kept_tail source f, b3)"
    using read_photo_tail_back [OF t assms(2,3) r(3)] by (simp add: b3_def)
  have 4: "skip (length loc) b3 = skip (length w) b" by (simp add: b1_def b2_def b3_def w add.assoc)
  show ?thesis
    using l r(4) 4 unfolding read_photo_def Let_def 1 by (auto simp: 2 3 res_simps read_layouts)
qed

text \<open>What comes back from an id without web location.  An id of a major version below
  four has no minor version.\<close>

definition carried :: "file_id \<Rightarrow> file_id" where
  "carried f =
     (let mi = (if major f < 4 then 0 else minor f);
          tail = (if ftype f \<in> set PHOTO_TYPES
                  then (let k = kept_tail (the (thumb_source f)) f
                        in if minor f < NO_VOLUME_AND_LOCAL_ID_MINOR
                           then k\<lparr>volume_id := volume_id f, local_id := local_id f\<rparr> else k)
                  else PhotoTail_default)
      in (FileId_new (major f) mi (ftype f) (dc_id f) tail)\<lparr>file_reference := file_reference f,
           media_id := media_id f, access_hash := access_hash f,
           thumb_source := (if ftype f \<in> set PHOTO_TYPES then thumb_source f else None)\<rparr>)"

text \<open>Versions and ids that the layouts can hold: below version 4 the source is not
  written, and ids have their volume.\<close>

definition version_ok :: "file_id \<Rightarrow> bool" where
  "version_ok f \<longleftrightarrow> 0 \<le> major f \<and> 0 \<le> minor f \<and>
     (major f < 4 \<longrightarrow> minor f < NO_VOLUME_AND_LOCAL_ID_MINOR \<and> (ftype f \<in> set PHOTO_TYPES \<longrightarrow> thumb_source f = Some LEGACY))"

lemma uint_le_bytes_1: "0 \<le> n \<Longrightarrow> in_range True 1 n \<Longrightarrow> uint (word_of_int n :: byte) = n"
  by (simp add: in_range_def uint_word_of_int_byte)

lemma read_version_back:
  assumes "struct_pack [(1, Some mi), (1, Some ma)] = Inr v" "0 \<le> ma" "0 \<le> mi"
  shows "\<exists>x. read_version (w @ v) = Inr (ma, if ma < 4 then 0 else mi, bio (w @ x))"
proof -
  from assms have "v = [word_of_int mi, word_of_int ma]" "uint (word_of_int ma :: byte) = ma"
    "uint (word_of_int mi :: byte) = mi"
    by (auto simp: res_simps uint_le_bytes_1)
  then show ?thesis
    by (auto simp: read_version_def Let_def butlast_append intro: exI [of _ "[]"])
qed

lemma write_photo_minor:
  "(mi < NO_VOLUME_AND_LOCAL_ID_MINOR) = (mj < NO_VOLUME_AND_LOCAL_ID_MINOR) \<Longrightarrow> write_photo ma mi f = write_photo ma mj f"
  by (simp add: write_photo_def)

text \<open>The parts of an encoded id.\<close>

lemma FileId_encode_parts:
  assumes "FileId_encode None None f = Inr s"
  obtains head u fr ids bd version r where
    "struct_pack [(4, Some (flagged_type f)), (4, Some (dc_id f))] = Inr head"
    "(if has_url f then String_new (the (url f)) else Inr []) = Inr u"
    "(if file_reference f \<noteq> [] then Bytes_new (file_reference f) else Inr []) = Inr fr"
    "struct_pack [(8, media_id f), (8, access_hash f)] = Inr ids"
    "(if ftype f \<in> set PHOTO_TYPES then write_photo (major f) (minor f) f
      else if flagged_type f \<in> set (map file_type_value DOCUMENT_TYPES)
      then struct_pack [(4, Some (minor f)), (4, Some (major f))] else Inr []) = Inr bd"
    "struct_pack [(1, Some (minor f)), (1, Some (major f))] = Inr version"
    "rle_encode (head @ u @ fr @ ids @ bd @ version) = Inr r" "s = b64_encode r"
  using assms unfolding FileId_encode_def Let_def option.case bindR_eq_Inr by blast

text \<open>Decoding up to the type, for both kinds of id.\<close>

lemma FileId_decode_head:
  assumes "struct_pack [(4, Some (flagged_type f)), (4, Some (dc_id f))] = Inr head"
    "struct_pack [(1, Some (minor f)), (1, Some (major f))] = Inr version" "0 \<le> major f" "0 \<le> minor f"
    "rle_encode (head @ w @ version) = Inr r"
  obtains x where "FileId_decode (b64_encode r) = decode_body (major f) (if major f < 4 then 0 else minor f)
    (flagged_type f) (dc_id f) (skip 8 (bio (head @ w @ x)))"
proof -
  obtain x where x: "read_version ((head @ w) @ version) =
      Inr (major f, if major f < 4 then 0 else minor f, bio ((head @ w) @ x))"
    using read_version_back [OF assms(2-4)] by blast
  have "read_struct [4, 4] (bio (head @ w @ x)) = Inr ([flagged_type f, dc_id f], skip 8 (bio (head @ w @ x)))"
    using assms(1) by (auto simp: res_simps read_layouts)
  with x that [of x] rle_round_trip [OF assms(5)] show ?thesis by (simp add: FileId_decode_def b64_round_trip)
qed

section \<open>Properties\<close>


definition demo_file :: file_id where
  "demo_file = (FileId_new 4 30 PHOTO 2 PhotoTail_default)\<lparr>media_id := Some 5, access_hash := Some (- 1),
     thumb_source := Some FROM_THUMBNAIL, thumbnail_file_type := Some 2, thumbnail_size := [109],
     volume_id := Some 0, local_id := Some 7, file_reference := [1, 0, 0, 3]\<rparr>"


text \<open>
  The id of a web location does not come back: \<open>encode\<close> writes the media id before
  the access hash, \<open>decode\<close> reads one number after the url.  So the decoded id has
  the url, no media id, and for its access hash the media id of the original.
\<close>

lemma web_file_id_confused:
  assumes "FileId_encode None None f = Inr s" "has_url f" "file_reference f = []" "0 \<le> major f" "0 \<le> minor f"
  shows "\<exists>g. FileId_decode s = Inr g \<and> url g = url f \<and> media_id g = None \<and> access_hash g = media_id f"
proof -
  from assms(1) obtain head u fr ids bd version r where
    e: "struct_pack [(4, Some (flagged_type f)), (4, Some (dc_id f))] = Inr head"
    "(if has_url f then String_new (the (url f)) else Inr []) = Inr u"
    "(if file_reference f \<noteq> [] then Bytes_new (file_reference f) else Inr []) = Inr fr"
    "struct_pack [(8, media_id f), (8, access_hash f)] = Inr ids"
    "(if ftype f \<in> set PHOTO_TYPES then write_photo (major f) (minor f) f
      else if flagged_type f \<in> set (map file_type_value DOCUMENT_TYPES)
      then struct_pack [(4, Some (minor f)), (4, Some (major f))] else Inr []) = Inr bd"
    "struct_pack [(1, Some (minor f)), (1, Some (major f))] = Inr version"
    "rle_encode (head @ u @ fr @ ids @ bd @ version) = Inr r" "s = b64_encode r"
    by (rule FileId_encode_parts)
  have "rle_encode (head @ (u @ ids @ bd) @ version) = Inr r" using e(3,7) assms(3) by simp
  from FileId_decode_head [OF e(1,6) assms(4,5) this] obtain x where
    d: "FileId_decode (b64_encode r) = decode_body (major f) (if major f < 4 then 0 else minor f)
      (flagged_type f) (dc_id f) (skip 8 (bio (head @ (u @ ids @ bd) @ x)))" .
  define b1 where "b1 = skip 8 (bio (head @ (u @ ids @ bd) @ x))"
  obtain y where y: "url f = Some y" using assms(2) by (auto simp: has_url_def split: option.splits)
  have "rest b1 = u @ ids @ bd @ x" using length_struct_pack [OF e(1)] by (simp add: b1_def)
  moreover from this e(2) assms(2) y have "String_read b1 = (y, skip (length u) b1)"
    by (auto intro: String_read_back)
  moreover obtain m h where "media_id f = Some m" "ids = le_bytes 8 m @ le_bytes 8 h" "in_range True 8 m"
    using e(4) by (auto simp: res_simps)
  ultimately show ?thesis
    using assms(2,3) y unfolding e(8) d b1_def [symmetric]
    by (auto simp: decode_body_def flagged_type_back Let_def FileId_new_def photo_tail.defs read_layouts)
qed

definition demo_web_file :: file_id where
  "demo_web_file = (FileId_new 4 30 DOCUMENT 2 PhotoTail_default)\<lparr>media_id := Some 5, access_hash := Some 9,
     url := Some [104, 116]\<rparr>"

lemma FileUniqueType_new_value: "FileUniqueType_new (file_unique_type_value t) = Inr t"
  by (cases t) (simp_all add: FileUniqueType_new_def file_unique_types_def)

text \<open>
  Unique ids of photos and documents come back as they were, whatever fits their
  fields; for the types that have no layout both directions refuse.
\<close>

lemma unique_id_round_trip:
  assumes "FileUniqueId_encode f = Inr s" "unique_type f \<noteq> UNIQUE_WEB"
  shows "FileUniqueId_decode s = Inr (if unique_type f = UNIQUE_PHOTO
      then (FileUniqueId_new UNIQUE_PHOTO)\<lparr>unique_volume_id := unique_volume_id f, unique_local_id := unique_local_id f\<rparr>
      else (FileUniqueId_new UNIQUE_DOCUMENT)\<lparr>unique_media_id := unique_media_id f\<rparr>) \<and>
    unique_type f \<in> {UNIQUE_PHOTO, UNIQUE_DOCUMENT}"
proof (cases "unique_type f")
  case UNIQUE_PHOTO
  with assms(1) obtain v l r where "unique_volume_id f = Some v" "unique_local_id f = Some l"
    "in_range True 8 v" "in_range True 4 l" and r: "rle_encode (le_bytes 4 1 @ le_bytes 8 v @ le_bytes 4 l) = Inr r"
    "s = b64_encode r" by (auto simp: FileUniqueId_encode_def res_simps)
  moreover have "in_range True 4 1" by (simp add: in_range_def)
  moreover have "FileUniqueType_new 1 = Inr UNIQUE_PHOTO" using FileUniqueType_new_value [of UNIQUE_PHOTO] by simp
  ultimately show ?thesis
    using UNIQUE_PHOTO rle_round_trip [OF r(1)]
    by (simp add: FileUniqueId_decode_def b64_round_trip read_layouts(1) [of 1] bio_read_all_eq struct_unpack_def
        from_bytes_le_le_bytes)
next
  case UNIQUE_DOCUMENT
  with assms(1) obtain v r where "unique_media_id f = Some v" "in_range True 8 v"
    and r: "rle_encode (le_bytes 4 2 @ le_bytes 8 v) = Inr r" "s = b64_encode r"
    by (auto simp: FileUniqueId_encode_def res_simps)
  moreover have "in_range True 4 2" by (simp add: in_range_def)
  moreover have "FileUniqueType_new 2 = Inr UNIQUE_DOCUMENT"
    using FileUniqueType_new_value [of UNIQUE_DOCUMENT] by simp
  ultimately show ?thesis
    using UNIQUE_DOCUMENT rle_round_trip [OF r(1)]
    by (simp add: FileUniqueId_decode_def b64_round_trip read_layouts(1) [of 2] bio_read_all_eq struct_unpack_def
        from_bytes_le_le_bytes)
qed (use assms in \<open>auto simp: FileUniqueId_encode_def\<close>)

end
