(* ===== verification/Prime.thy ===== *)
theory Prime
  imports Prelude
begin

text \<open>
  \<open>kurigram/pyrogram/crypto/prime.py\<close>: Brent's variant of Pollard's rho method, which
  the key exchange uses to split the number the server sends.  The random numbers are
  arguments.  The two loops that have no bound in the code take fuel here, and the
  theorem at the end shows that they come to an end.
\<close>

definition CURRENT_DH_PRIME :: int where
  "CURRENT_DH_PRIME =
    0xC71CAEB9C6B1C9048E6C522F70F13F73980D40238E3E21C14934D037563D930F48198A0AA7C14058229493D22530F4DBFA336F6E0AC925139543AED44CCE7C3720FD51F69458705AC68CD4FE6B6B13ABDC9746512969328454F18FAF8C595F642477FE96BB2A941D5BCD1D4AC8CC49880708FA9B378E3C4F3A9060BEE67CF9A4A4A695811051907E162753B56B0F6B410DBA74D8A84B2A14B3144E0EF1284754FD17ED950D5965B4B9DD46582DB1178D169C6BC465B0D6FF9CA3928FEF5B9AE4E418FC15E83EBEA0F87FA9FF5EED70050DED2849F47BF959D956850CE929851F0D8115F635B105EE2E4E15D04B2454BF6F4FADF034B10403119CD8E3B92FCC5B"

section \<open>The loops\<close>

text \<open>\<open>y = (pow(y, 2, pq) + c) % pq\<close>.\<close>

definition rho_step :: "int \<Rightarrow> int \<Rightarrow> int \<Rightarrow> int" where
  "rho_step pq c y = (y ^ 2 mod pq + c) mod pq"

text \<open>\<open>for _ in range(n)\<close> of the innermost loop.\<close>

fun batch :: "int \<Rightarrow> int \<Rightarrow> int \<Rightarrow> nat \<Rightarrow> int \<Rightarrow> int \<Rightarrow> int \<times> int" where
  "batch pq c x 0 y q = (y, q)"
| "batch pq c x (Suc n) y q =
     (let y = rho_step pq c y in batch pq c x n y (q * \<bar>x - y\<bar> mod pq))"

text \<open>\<open>while k < r and g == 1\<close>.  \<open>m\<close> is drawn from the numbers from 1 on, so \<open>k\<close> grows.\<close>

function scan :: "int \<Rightarrow> int \<Rightarrow> nat \<Rightarrow> int \<Rightarrow> nat \<Rightarrow> nat \<Rightarrow> int \<Rightarrow> int \<Rightarrow> int \<Rightarrow> int \<Rightarrow> int \<times> int \<times> int \<times> int" where
  "scan pq c m x r k y ys q g =
     (if k < r \<and> g = 1 \<and> 0 < m
      then (let (y', q') = batch pq c x (min m (r - k)) y q
            in scan pq c m x r (k + m) y' y q' (gcd q' pq))
      else (y, ys, q, g))"
  by pat_completeness auto
termination
  by (relation "measure (\<lambda>(pq, c, m, x, r, k, y, ys, q, g). r - k)") auto

declare scan.simps [simp del]

text \<open>\<open>while g == 1\<close>: the result is \<open>x\<close>, \<open>ys\<close> and \<open>g\<close>.\<close>

fun rho_loop :: "nat \<Rightarrow> int \<Rightarrow> int \<Rightarrow> nat \<Rightarrow> nat \<Rightarrow> int \<Rightarrow> int \<Rightarrow> int \<Rightarrow> int \<Rightarrow> int \<Rightarrow> (int \<times> int \<times> int) option" where
  "rho_loop 0 pq c m r x y ys q g = None"
| "rho_loop (Suc fuel) pq c m r x y ys q g =
     (if g \<noteq> 1 then Some (x, ys, g)
      else let x = y; y = (rho_step pq c ^^ r) y; (y, ys, q, g) = scan pq c m x r 0 y ys q g
           in rho_loop fuel pq c m (r * 2) x y ys q g)"

text \<open>\<open>while True\<close> after the product has swallowed every factor.\<close>

fun retrace :: "nat \<Rightarrow> int \<Rightarrow> int \<Rightarrow> int \<Rightarrow> int \<Rightarrow> int option" where
  "retrace 0 pq c x ys = None"
| "retrace (Suc fuel) pq c x ys =
     (let ys = rho_step pq c ys; g = gcd \<bar>x - ys\<bar> pq
      in if g > 1 then Some g else retrace fuel pq c x ys)"

text \<open>\<open>randint(1, 0)\<close> raises for the number 1.  \<open>None\<close> means that the fuel ran out.\<close>

definition decompose :: "nat \<Rightarrow> int \<Rightarrow> int \<Rightarrow> int \<Rightarrow> int \<Rightarrow> int res option" where
  "decompose fuel pq y c m =
     (if pq mod 2 = 0 then Some (Inr 2)
      else if pq - 1 < 1 then Some (Inl ValueError)
      else case rho_loop fuel pq c (nat m) 1 0 y 0 1 1 of
             None \<Rightarrow> None
           | Some (x, ys, g) \<Rightarrow> map_option Inr (if g = pq then retrace fuel pq c x ys else Some g))"

section \<open>A batch\<close>

lemma batch_fst: "fst (batch pq c x n y q) = (rho_step pq c ^^ n) y"
  by (induction n arbitrary: y q) (simp_all add: Let_def funpow_swap1)

lemma batch_zero: "snd (batch pq c x n y 0) = 0"
  by (induction n arbitrary: y) (simp_all add: Let_def)

text \<open>Meeting \<open>x\<close> again makes the product zero for good.\<close>

lemma batch_meets:
  "i < n \<Longrightarrow> (rho_step pq c ^^ Suc i) y = x \<Longrightarrow> snd (batch pq c x n y q) = 0"
proof (induction n arbitrary: i y q)
  case (Suc n)
  show ?case
  proof (cases i)
    case 0
    then show ?thesis using Suc.prems by (simp add: Let_def batch_zero)
  next
    case (Suc j)
    then show ?thesis using Suc.IH [of j "rho_step pq c y"] Suc.prems by (simp add: Let_def funpow_swap1)
  qed
qed simp

lemma coprime_abs_mod: "coprime q pq \<Longrightarrow> coprime d pq \<Longrightarrow> coprime (q * \<bar>d\<bar> mod pq) pq" for q d pq :: int
  by (cases "pq = 0") simp_all

text \<open>As long as no difference shares a factor with \<open>pq\<close>, the product does not.\<close>

lemma batch_coprime:
  "coprime q pq \<Longrightarrow> (\<And>i. i < n \<Longrightarrow> coprime (x - (rho_step pq c ^^ Suc i) y) pq) \<Longrightarrow>
   coprime (snd (batch pq c x n y q)) pq"
proof (induction n arbitrary: y q)
  case (Suc n)
  have "coprime (x - rho_step pq c y) pq" using Suc.prems(2) [of 0] by simp
  moreover have "coprime (x - (rho_step pq c ^^ Suc i) (rho_step pq c y)) pq" if "i < n" for i
    using Suc.prems(2) [of "Suc i"] that by (simp add: funpow_swap1)
  ultimately show ?case
    using Suc.IH [of "q * \<bar>x - rho_step pq c y\<bar> mod pq" "rho_step pq c y"] Suc.prems(1)
    coprime_abs_mod [of q pq "x - rho_step pq c y"] by (simp add: Let_def)
qed simp

section \<open>A scan\<close>

lemma scan_step:
  "k < r \<Longrightarrow> 0 < m \<Longrightarrow> scan pq c m x r k y ys q 1 =
     (let (y', q') = batch pq c x (min m (r - k)) y q in scan pq c m x r (k + m) y' y q' (gcd q' pq))"
  by (subst scan.simps) simp

lemma scan_stop: "\<not> k < r \<or> g \<noteq> 1 \<Longrightarrow> scan pq c m x r k y ys q g = (y, ys, q, g)"
  by (subst scan.simps) auto

text \<open>What a scan leaves: a divisor; when it is not 1, a point \<open>ys\<close> from which a
  difference with a common factor is reached; when it is 1, all \<open>r\<close> points were passed,
  none of them \<open>x\<close>.\<close>

definition reaches :: "int \<Rightarrow> int \<Rightarrow> int \<Rightarrow> int \<Rightarrow> bool" where
  "reaches pq c x ys \<longleftrightarrow> (\<exists>i. \<not> coprime (x - (rho_step pq c ^^ Suc i) ys) pq)"

lemma scan_spec:
  assumes "1 < pq" "0 < m" "k \<le> r" "coprime q pq" "scan pq c m x r k y ys q 1 = (y', ys', q', g')"
  shows "g' = gcd q' pq \<and> g' dvd pq \<and> (g' \<noteq> 1 \<longrightarrow> reaches pq c x ys') \<and>
    (g' = 1 \<longrightarrow> y' = (rho_step pq c ^^ (r - k)) y \<and> coprime q' pq \<and>
       (\<forall>i < r - k. (rho_step pq c ^^ Suc i) y \<noteq> x))"
  using assms(3-)
proof (induction "r - k" arbitrary: k y ys q rule: less_induct)
  case less
  show ?case
  proof (cases "k < r")
    case False
    with less.prems show ?thesis by (auto simp: scan_stop)
  next
    case True
    let ?n = "min m (r - k)"
    obtain y1 q1 where b: "batch pq c x ?n y q = (y1, q1)" by fastforce
    with True less.prems assms(2) have s: "scan pq c m x r (k + m) y1 y q1 (gcd q1 pq) = (y', ys', q', g')"
      by (simp add: scan_step)
    have y1: "y1 = (rho_step pq c ^^ ?n) y" using batch_fst [of pq c x ?n y q] b by simp
    show ?thesis
    proof (cases "coprime q1 pq")
      case False
      then have e: "y' = y1" "ys' = y" "q' = q1" "g' = gcd q1 pq"
        using s by (auto simp: scan_stop coprime_iff_gcd_eq_1)
      have "reaches pq c x y"
        using batch_coprime [OF less.prems(2), of ?n x c y] b False by (auto simp: reaches_def)
      with e False show ?thesis by (auto simp: coprime_iff_gcd_eq_1)
    next
      case True
      have far: "(rho_step pq c ^^ Suc i) y \<noteq> x" if "i < ?n" for i
      proof
        assume "(rho_step pq c ^^ Suc i) y = x"
        from batch_meets [OF that this, of q] b have "q1 = 0" by simp
        with True assms(1) show False by simp
      qed
      have s1: "scan pq c m x r (k + m) y1 y q1 1 = (y', ys', q', g')"
        using s True by simp
      show ?thesis
      proof (cases "k + m \<le> r")
        case False
        then have "(y', ys', q', g') = (y1, y, q1, 1)" "?n = r - k" using s1 by (auto simp: scan_stop)
        with y1 True far show ?thesis by auto
      next
        case mr: True
        then have n: "?n = m" by simp
        have "r - (k + m) < r - k" using \<open>k < r\<close> assms(2) by linarith
        note ih = less.hyps [OF this mr True s1]
        have "(rho_step pq c ^^ Suc i) y \<noteq> x" if "g' = 1" "i < r - k" for i
        proof (cases "i < m")
          case True
          then show ?thesis using far n by simp
        next
          case False
          then have "(rho_step pq c ^^ Suc i) y = (rho_step pq c ^^ Suc (i - m)) y1"
            by (simp add: y1 n funpow_add [symmetric, THEN fun_cong, unfolded comp_def])
          moreover have "i - m < r - (k + m)" using that(2) False by linarith
          ultimately show ?thesis using ih that(1) by auto
        qed
        moreover have "(rho_step pq c ^^ (r - (k + m))) y1 = (rho_step pq c ^^ (r - k)) y"
          using mr by (simp add: y1 n funpow_add [symmetric, THEN fun_cong, unfolded comp_def])
        ultimately show ?thesis using ih by auto
      qed
    qed
  qed
qed

section \<open>The outer loop\<close>

text \<open>The points run into a cycle.\<close>

lemma rho_periodic:
  assumes "0 < pq"
  shows "\<exists>u l. 0 < l \<and> (\<forall>i \<ge> u. (rho_step pq c ^^ (i + l)) y = (rho_step pq c ^^ i) y)"
proof -
  let ?a = "\<lambda>i. (rho_step pq c ^^ Suc i) y"
  have "range ?a \<subseteq> {0..<pq}" using assms by (auto simp: rho_step_def)
  then have "finite (range ?a)" by (rule finite_subset) simp
  then have "\<not> inj ?a" using finite_imageD [of ?a UNIV] by auto
  then obtain i j where "?a i = ?a j" "i \<noteq> j" unfolding inj_def by blast
  then obtain u v where uv: "?a u = ?a v" "u < v" by (metis nat_neq_iff)
  have "(rho_step pq c ^^ (k + (v - u))) y = (rho_step pq c ^^ k) y" if "Suc u \<le> k" for k
  proof -
    from that obtain d where d: "k = d + Suc u" by (metis add.commute le_Suc_ex)
    with uv(2) have k: "k + (v - u) = d + Suc v" by simp
    show ?thesis unfolding k unfolding d funpow_add comp_apply uv(1) ..
  qed
  with uv(2) show ?thesis by (intro exI [of _ "Suc u"] exI [of _ "v - u"]) auto
qed

lemma periodic_multiple:
  assumes "\<forall>i \<ge> u. (f ^^ (i + l)) y = (f ^^ i) y" "u \<le> i"
  shows "(f ^^ (i + t * l)) y = (f ^^ i) y"
proof (induction t)
  case (Suc t)
  have "(f ^^ ((i + t * l) + l)) y = (f ^^ (i + t * l)) y" using assms by simp
  with Suc show ?case by (simp add: algebra_simps)
qed simp

lemma multiple_between:
  assumes "0 < l" "l \<le> (r :: nat)"
  obtains t where "r < t * l" "t * l \<le> 2 * r"
proof
  show "r < (r div l + 1) * l" using assms(1) by (simp add: dividend_less_div_times)
  have "r div l * l \<le> r" by (rule div_times_less_eq_dividend)
  moreover have "(r div l + 1) * l = r div l * l + l" by (simp only: distrib_right mult_1)
  ultimately show "(r div l + 1) * l \<le> 2 * r" using assms(2) by linarith
qed

lemma rho_loop_stops:
  assumes pq: "1 < pq" "0 < m" and l: "0 < l" "\<forall>i \<ge> u. (rho_step pq c ^^ (i + l)) y0 = (rho_step pq c ^^ i) y0"
    and J: "u + l + 2 \<le> 2 ^ J"
  shows "j \<le> J \<Longrightarrow> y = (rho_step pq c ^^ (2 * (2 ^ j - 1))) y0 \<Longrightarrow> coprime q pq \<Longrightarrow>
    \<exists>x' ys' g'. (\<forall>fuel \<ge> J - j + 2. rho_loop fuel pq c m (2 ^ j) x y ys q 1 = Some (x', ys', g')) \<and>
      g' dvd pq \<and> 1 < g' \<and> reaches pq c x' ys'"
proof (induction "J - j" arbitrary: j x y ys q rule: less_induct)
  case less
  let ?f = "rho_step pq c" and ?r = "2 ^ j :: nat"
  define s where "s = 2 * (?r - 1)"
  define z where "z = (?f ^^ ?r) y"
  obtain y' ys' q' g' where sc: "scan pq c m y ?r 0 z ys q 1 = (y', ys', q', g')"
    by (metis prod_cases4)
  note sp = scan_spec [OF pq _ less.prems(3) sc, simplified]
  have step: "rho_loop (Suc n) pq c m ?r x y ys q 1 = rho_loop n pq c m (?r * 2) y y' ys' q' g'" for n
    by (simp add: Let_def sc z_def [symmetric])
  show ?case
  proof (cases "g' = 1")
    case False
    have "0 \<le> g'" "g' \<noteq> 0" using sp pq by (auto simp: gcd_eq_0_iff)
    with False have "1 < g'" by linarith
    moreover have "rho_loop fuel pq c m ?r x y ys q 1 = Some (y, ys', g')" if "J - j + 2 \<le> fuel" for fuel
    proof -
      from that obtain n where "fuel = Suc (Suc n)" by (metis add_2_eq_Suc' le_Suc_ex plus_nat.simps(2))
      then show ?thesis using step [of "Suc n"] False by simp
    qed
    ultimately show ?thesis using sp False by blast
  next
    case True
    have yz: "z = (?f ^^ (s + ?r)) y0" using less.prems(2) by (simp add: z_def s_def funpow_add add.commute)
    have nj: "j \<noteq> J"
    proof
      assume "j = J"
      with J have r: "u \<le> s" "l \<le> ?r" by (simp_all add: s_def)
      obtain t where t: "?r < t * l" "t * l \<le> 2 * ?r" using multiple_between [OF l(1) r(2)] by blast
      have "(?f ^^ Suc (t * l - ?r - 1)) z = (?f ^^ (s + t * l)) y0"
      proof -
        have "Suc (t * l - ?r - 1) + (s + ?r) = s + t * l" using t(1) by simp
        then show ?thesis unfolding yz by (metis funpow_add comp_apply)
      qed
      also have "\<dots> = y" using periodic_multiple [OF l(2) r(1), of t] less.prems(2) by (simp add: s_def)
      finally show False using sp True t by auto
    qed
    have "y' = (?f ^^ (2 * (2 ^ Suc j - 1))) y0"
    proof -
      have "?r + (s + ?r) = 2 * (2 ^ Suc j - 1)" by (simp add: s_def)
      moreover have "y' = (?f ^^ (?r + (s + ?r))) y0" using sp True yz by (simp add: funpow_add)
      ultimately show ?thesis by simp
    qed
    moreover have "coprime q' pq" using sp True by simp
    moreover have "J - Suc j < J - j" "Suc j \<le> J" using nj less.prems(1) by simp_all
    ultimately obtain x1 ys1 g1 where
      1: "\<forall>fuel \<ge> J - Suc j + 2. rho_loop fuel pq c m (2 ^ Suc j) y y' ys' q' 1 = Some (x1, ys1, g1)"
      "g1 dvd pq" "1 < g1" "reaches pq c x1 ys1"
      using less.hyps by blast
    have "rho_loop fuel pq c m ?r x y ys q 1 = Some (x1, ys1, g1)" if "J - j + 2 \<le> fuel" for fuel
    proof -
      from that \<open>Suc j \<le> J\<close> obtain n where "fuel = Suc n" "J - Suc j + 2 \<le> n" by (cases fuel) auto
      then show ?thesis using 1(1) step [of n] True by (simp add: mult.commute)
    qed
    with 1 show ?thesis by blast
  qed
qed

lemma retrace_hit:
  assumes "1 < pq" "\<not> coprime (x - rho_step pq c ys) pq"
  shows "\<exists>n g. (\<forall>fuel \<ge> n. retrace fuel pq c x ys = Some g) \<and> g dvd pq \<and> 1 < g"
proof -
  let ?g = "gcd \<bar>x - rho_step pq c ys\<bar> pq"
  have "?g \<noteq> 0" "?g \<noteq> 1" using assms by (auto simp: coprime_iff_gcd_eq_1)
  then have "1 < ?g" using gcd_ge_0_int [of "\<bar>x - rho_step pq c ys\<bar>" pq] by linarith
  moreover from this have "retrace fuel pq c x ys = Some ?g" if "1 \<le> fuel" for fuel
    using that by (cases fuel) (simp_all add: Let_def)
  ultimately show ?thesis by (intro exI [of _ 1] exI [of _ ?g]) auto
qed

lemma retrace_stops:
  assumes "1 < pq"
  shows "\<not> coprime (x - (rho_step pq c ^^ Suc i) ys) pq \<Longrightarrow>
    \<exists>n g. (\<forall>fuel \<ge> n. retrace fuel pq c x ys = Some g) \<and> g dvd pq \<and> 1 < g"
proof (induction i arbitrary: ys)
  case 0
  then show ?case using retrace_hit [OF assms] by simp
next
  case (Suc i)
  show ?case
  proof (cases "coprime (x - rho_step pq c ys) pq")
    case False
    then show ?thesis by (rule retrace_hit [OF assms])
  next
    case True
    then have "\<not> gcd \<bar>x - rho_step pq c ys\<bar> pq > 1" by (simp add: coprime_iff_gcd_eq_1)
    moreover obtain n g where "\<forall>fuel \<ge> n. retrace fuel pq c x (rho_step pq c ys) = Some g" "g dvd pq" "1 < g"
      using Suc.IH [of "rho_step pq c ys"] Suc.prems by (auto simp: funpow_swap1)
    ultimately show ?thesis
      by (intro exI [of _ "Suc n"] exI [of _ g]) (auto simp: Let_def Suc_le_eq dest: less_imp_Suc_add)
  qed
qed

section \<open>Properties\<close>

text \<open>
  C24. The factorization of the key exchange comes to an end with a factor: for every
  number above 1 and every draw of \<open>randint\<close>, enough fuel gives a divisor above 1,
  and more fuel gives the same.
\<close>

theorem decompose_returns:
  assumes "1 < pq" "1 \<le> y" "1 \<le> m"
  shows "\<exists>n g. (\<forall>fuel \<ge> n. decompose fuel pq y c m = Some (Inr g)) \<and> g dvd pq \<and> 1 < g"
proof (cases "pq mod 2 = 0")
  case True
  then show ?thesis by (intro exI [of _ 0] exI [of _ 2]) (auto simp: decompose_def)
next
  case False
  from rho_periodic [of pq c y] assms(1) obtain u l where
    l: "0 < l" "\<forall>i \<ge> u. (rho_step pq c ^^ (i + l)) y = (rho_step pq c ^^ i) y" by auto
  have J: "u + l + 2 \<le> 2 ^ (u + l + 2)" by (rule less_imp_le [OF less_exp])
  have "0 < nat m" using assms(3) by simp
  from rho_loop_stops [OF assms(1) this l J, of 0 y 1 0 0] obtain x ys g where
    r: "\<And>fuel. u + l + 4 \<le> fuel \<Longrightarrow> rho_loop fuel pq c (nat m) 1 0 y 0 1 1 = Some (x, ys, g)"
    and g: "g dvd pq" "1 < g" "reaches pq c x ys" by auto
  from g(3) obtain n h where h: "\<forall>fuel \<ge> n. retrace fuel pq c x ys = Some h" "h dvd pq" "1 < h"
    using retrace_stops [OF assms(1)] unfolding reaches_def by blast
  show ?thesis
    using False assms(1) r g h
    by (intro exI [of _ "max n (u + l + 4)"] exI [of _ "if g = pq then h else g"]) (auto simp: decompose_def)
qed

theorem decompose_returns_witness:
  "\<exists>n g. decompose n 15 1 1 1 = Some (Inr g) \<and> g dvd 15 \<and> 1 < g"
  using decompose_returns [of 15 1 1 1] by auto

end
