(* ===== verification/Auth.thy ===== *)
theory Auth
  imports Aes_Modes Rsa Prime Msg_Factory
begin

text \<open>
  \<open>kurigram/pyrogram/session/auth.py\<close>: the creation of an authorization key.  The
  objects of the exchange are generated classes: their serialization and the
  constructor table are parameters, as are SHA-1, the block cipher, the result of
  \<open>prime.decompose\<close> (of which the theory \<open>Prime\<close> speaks), the random bytes and the
  network.  A coroutine's local variables that later steps use are the fields of a
  record.
\<close>

datatype auth_object =
    ReqPqMulti int
  | ResPQ int int bytes "int list"
  | PQInnerData bytes bytes bytes int int int
  | ReqDHParams int int bytes bytes int bytes
  | ServerDHParamsOk int int bytes
  | ServerDHInnerData int int int bytes bytes int
  | ClientDHInnerData int int int bytes
  | SetClientDHParams int int bytes
  | DhGen int int
  | OtherObject

record auth_env =
  obj_write :: "auth_object \<Rightarrow> bytes res"
  obj_read :: "bytesio \<Rightarrow> (auth_object \<times> bytesio) res"
  sha1 :: "bytes \<Rightarrow> bytes"
  auth_cipher :: aes
  factor :: "int \<Rightarrow> int res"

text \<open>What one attempt draws from \<open>urandom\<close>, and the bytes that come back for the bytes of
  its three requests; \<open>None\<close> is what \<open>recv\<close> returns for a lost connection.\<close>

record attempt_env =
  nonce_bytes :: bytes
  new_nonce_bytes :: bytes
  b_bytes :: bytes
  padding :: "nat \<Rightarrow> nat \<Rightarrow> bytes"
  connected :: "unit res"
  exchange :: "nat \<Rightarrow> bytes \<Rightarrow> bytes option res"
  ticks :: "nat \<Rightarrow> int"

section \<open>Messages\<close>

definition Auth_pack :: "auth_env \<Rightarrow> auth_object \<Rightarrow> int \<Rightarrow> bytes res" where
  "Auth_pack env data server_ticks =
     bindR (Int_new Long_SIZE True (clear_low_bits server_ticks)) (\<lambda>i.
     bindR (obj_write env data) (\<lambda>w.
     bindR (Int_new Int_SIZE True (int (length w))) (\<lambda>l.
       Inr (replicate 8 0 @ i @ l @ w))))"

definition Auth_unpack :: "auth_env \<Rightarrow> bytesio \<Rightarrow> auth_object res" where
  "Auth_unpack env b = bindR (obj_read env (bio_seek 20 b)) (\<lambda>(x, _). Inr x)"

definition Auth_invoke :: "auth_env \<Rightarrow> attempt_env \<Rightarrow> nat \<Rightarrow> auth_object \<Rightarrow> auth_object res" where
  "Auth_invoke env at k data =
     bindR (Auth_pack env data (ticks at k)) (\<lambda>w.
     bindR (exchange at k w) (\<lambda>r.
       Auth_unpack env (bio (case r of None \<Rightarrow> [] | Some x \<Rightarrow> x))))"

section \<open>The steps of an attempt\<close>

record pq_state =
  st_nonce :: int
  res_nonce :: int
  st_server_nonce :: int
  st_pq :: bytes
  fingerprint :: int
  st_p :: bytes
  st_q :: bytes

text \<open>Steps 1 to 3: the server's numbers, a known key, the factors in order.\<close>

definition pq_answer :: "auth_env \<Rightarrow> int \<Rightarrow> auth_object \<Rightarrow> pq_state res" where
  "pq_answer env nonce r =
     (case r of
        ResPQ n server_nonce pq fingerprints \<Rightarrow>
          bindR (case find (\<lambda>i. i \<in> set (map fst server_public_keys)) fingerprints of
                   None \<Rightarrow> Inl PlainException | Some i \<Rightarrow> Inr i) (\<lambda>fp.
          bindR (factor env (be_int pq)) (\<lambda>g.
          bindR (if g = 0 then Inl ZeroDivisionError else Inr (be_int pq div g)) (\<lambda>h.
          bindR (to_bytes_be 4 False (min g h)) (\<lambda>p.
          bindR (to_bytes_be 4 False (max g h)) (\<lambda>q.
            Inr \<lparr>st_nonce = nonce, res_nonce = n, st_server_nonce = server_nonce, st_pq = pq,
                 fingerprint = fp, st_p = p, st_q = q\<rparr>)))))
      | _ \<Rightarrow> Inl AttributeError)"

definition request_pq :: "auth_env \<Rightarrow> attempt_env \<Rightarrow> pq_state res" where
  "request_pq env at =
     (let nonce = from_bytes_le True (nonce_bytes at)
      in bindR (Auth_invoke env at 0 (ReqPqMulti nonce)) (pq_answer env nonce))"

record dh_state =
  dh_nonce :: int
  dh_server_nonce :: int
  new_nonce :: bytes
  server_nonce_bytes :: bytes
  tmp_aes_key :: bytes
  tmp_aes_iv :: bytes
  answer_with_hash :: bytes
  inner_data :: auth_object
  dh_g :: int
  dh_prime :: int
  dh_g_a :: int

text \<open>Steps 4 and 5: the encrypted inner data, the temporary key, the server's parameters.\<close>

definition request_dh_params :: "auth_env \<Rightarrow> attempt_env \<Rightarrow> pq_state \<Rightarrow> dh_state res" where
  "request_dh_params env at s =
     (let new_nonce_int = from_bytes_le True (new_nonce_bytes at)
      in bindR (obj_write env (PQInnerData (st_pq s) (st_p s) (st_q s) (st_nonce s) (st_server_nonce s) new_nonce_int)) (\<lambda>data.
         let sha = sha1 env data;
             data_with_hash = sha @ data @ padding at 0 (nat (- int (length data + length sha) mod 255))
         in bindR (rsa_encrypt data_with_hash (fingerprint s)) (\<lambda>encrypted_data.
         bindR (Auth_invoke env at 1 (ReqDHParams (st_nonce s) (st_server_nonce s) (st_p s) (st_q s)
             (fingerprint s) encrypted_data)) (\<lambda>r. case r of
           ServerDHParamsOk n sn encrypted_answer \<Rightarrow>
             bindR (to_bytes_le 16 True (st_server_nonce s)) (\<lambda>server_nonce.
             bindR (to_bytes_le 32 True new_nonce_int) (\<lambda>nn.
             let key = sha1 env (nn @ server_nonce) @ take 12 (sha1 env (server_nonce @ nn));
                 iv = drop 12 (sha1 env (server_nonce @ nn)) @ sha1 env (nn @ nn) @ take 4 nn
             in bindR (ige256_decrypt (auth_cipher env) encrypted_answer key iv) (\<lambda>a.
                bindR (obj_read env (bio (drop 20 a))) (\<lambda>(inner, _). case inner of
                  ServerDHInnerData _ _ g p g_a _ \<Rightarrow>
                    Inr \<lparr>dh_nonce = n, dh_server_nonce = sn, new_nonce = nn, server_nonce_bytes = server_nonce,
                         tmp_aes_key = key, tmp_aes_iv = iv, answer_with_hash = a, inner_data = inner,
                         dh_g = g, dh_prime = be_int p, dh_g_a = be_int g_a\<rparr>
                | _ \<Rightarrow> Inl AttributeError))))
         | _ \<Rightarrow> Inl AttributeError))))"

text \<open>The attributes \<open>nonce\<close> and \<open>server_nonce\<close> of an object.\<close>

definition nonces_of :: "auth_object \<Rightarrow> (int \<times> int) option" where
  "nonces_of x =
     (case x of
        ResPQ n sn _ _ \<Rightarrow> Some (n, sn)
      | ServerDHParamsOk n sn _ \<Rightarrow> Some (n, sn)
      | ServerDHInnerData n sn _ _ _ _ \<Rightarrow> Some (n, sn)
      | DhGen n sn \<Rightarrow> Some (n, sn)
      | _ \<Rightarrow> None)"

record client_state =
  set_answer :: auth_object
  g_b_bytes :: bytes
  auth_key :: bytes

text \<open>Steps 6 to 8: the client's half of the key and the key.\<close>

definition set_client_dh :: "auth_env \<Rightarrow> attempt_env \<Rightarrow> pq_state \<Rightarrow> dh_state \<Rightarrow> client_state res" where
  "set_client_dh env at s d =
     (let b = be_int (b_bytes at)
      in bindR (bindR (py_pow (dh_g d) b (dh_prime d)) (to_bytes_be 256 False)) (\<lambda>g_b.
         bindR (obj_write env (ClientDHInnerData (st_nonce s) (st_server_nonce s) 0 g_b)) (\<lambda>data.
         let sha = sha1 env data;
             data_with_hash = sha @ data @ padding at 1 (nat (- int (length data + length sha) mod 16))
         in bindR (ige256_encrypt (auth_cipher env) data_with_hash (tmp_aes_key d) (tmp_aes_iv d)) (\<lambda>encrypted_data.
         bindR (Auth_invoke env at 2 (SetClientDHParams (st_nonce s) (st_server_nonce s) encrypted_data)) (\<lambda>r.
         bindR (bindR (py_pow (dh_g_a d) b (dh_prime d)) (to_bytes_be 256 False)) (\<lambda>key.
           Inr \<lparr>set_answer = r, g_b_bytes = g_b, auth_key = key\<rparr>))))))"

definition checks :: "bool list \<Rightarrow> unit res" where
  "checks cs = (if list_all (\<lambda>c. c) cs then Inr () else Inl SecurityCheckMismatch)"

text \<open>The security checks, all of which raise the same exception.\<close>

definition security_checks :: "auth_env \<Rightarrow> pq_state \<Rightarrow> dh_state \<Rightarrow> client_state \<Rightarrow> unit res" where
  "security_checks env s d c =
     (let g = dh_g d; g_a = dh_g_a d; g_b = be_int (g_b_bytes c); p = dh_prime d
      in bindR (checks
           [p = CURRENT_DH_PRIME, 1 < g \<and> g < p - 1, 1 < g_a \<and> g_a < p - 1, 1 < g_b \<and> g_b < p - 1,
            2 ^ (2048 - 64) < g_a \<and> g_a < p - 2 ^ (2048 - 64),
            2 ^ (2048 - 64) < g_b \<and> g_b < p - 2 ^ (2048 - 64)]) (\<lambda>_.
         bindR (obj_write env (inner_data d)) (\<lambda>answer.
         bindR (checks
           [take 20 (answer_with_hash d) = sha1 env answer,
            st_nonce s = res_nonce s,
            st_nonce s = dh_nonce d,
            st_server_nonce s = dh_server_nonce d]) (\<lambda>_.
         case nonces_of (set_answer c) of
           None \<Rightarrow> Inl AttributeError
         | Some (n, sn) \<Rightarrow> checks [st_nonce s = n, st_server_nonce s = sn]))))"

text \<open>One pass of the loop, and the loop: a \<open>ConnectionError\<close> ends it, any other exception
  uses up a retry.  The server salt is only logged.\<close>

definition key_attempt :: "auth_env \<Rightarrow> attempt_env \<Rightarrow> bytes res" where
  "key_attempt env at =
     bindR (connected at) (\<lambda>_.
     bindR (request_pq env at) (\<lambda>s.
     bindR (request_dh_params env at s) (\<lambda>d.
     bindR (set_client_dh env at s d) (\<lambda>c.
     bindR (security_checks env s d c) (\<lambda>_. Inr (auth_key c))))))"

definition MAX_RETRIES :: nat where "MAX_RETRIES = 5"

fun create_loop :: "auth_env \<Rightarrow> (nat \<Rightarrow> attempt_env) \<Rightarrow> nat \<Rightarrow> nat \<Rightarrow> bytes res" where
  "create_loop env ats i retries_left =
     (case key_attempt env (ats i) of
        Inr key \<Rightarrow> Inr key
      | Inl ConnectionError \<Rightarrow> Inl ConnectionError
      | Inl e \<Rightarrow> (case retries_left of
            0 \<Rightarrow> Inl e
          | Suc n \<Rightarrow> create_loop env ats (i + 1) n))"

definition Auth_create :: "auth_env \<Rightarrow> (nat \<Rightarrow> attempt_env) \<Rightarrow> bytes res" where
  "Auth_create env ats = create_loop env ats 0 MAX_RETRIES"

section \<open>What the steps establish\<close>

lemma checks_ok [res_simps]: "checks cs = Inr u \<longleftrightarrow> list_all (\<lambda>c. c) cs"
  by (simp add: checks_def)

lemma security_checks_ok:
  "security_checks env s d c = Inr u \<Longrightarrow>
   dh_prime d = CURRENT_DH_PRIME \<and> 1 < dh_g d \<and> dh_g d < CURRENT_DH_PRIME - 1 \<and>
   2 ^ 1984 < dh_g_a d \<and> dh_g_a d < CURRENT_DH_PRIME - 2 ^ 1984 \<and>
   2 ^ 1984 < be_int (g_b_bytes c) \<and> be_int (g_b_bytes c) < CURRENT_DH_PRIME - 2 ^ 1984 \<and>
   res_nonce s = st_nonce s \<and> dh_nonce d = st_nonce s \<and> dh_server_nonce d = st_server_nonce s \<and>
   nonces_of (set_answer c) = Some (st_nonce s, st_server_nonce s) \<and>
   (\<exists>answer. obj_write env (inner_data d) = Inr answer \<and> take 20 (answer_with_hash d) = sha1 env answer)"
  unfolding security_checks_def Let_def
  by (simp add: res_simps split: option.splits prod.splits del: power_numeral) auto

lemma key_attempt_parts:
  assumes "key_attempt env at = Inr key"
  obtains s d c where "request_pq env at = Inr s" "request_dh_params env at s = Inr d"
    "set_client_dh env at s d = Inr c" "security_checks env s d c = Inr ()" "key = auth_key c"
  using assms by (auto simp: key_attempt_def res_simps)

lemma pq_answer_ok:
  assumes "pq_answer env nonce r = Inr s"
  shows "fingerprint s \<in> set (map fst server_public_keys) \<and> st_nonce s = nonce \<and>
    (\<exists>g. factor env (be_int (st_pq s)) = Inr g \<and> be_int (st_p s) \<le> be_int (st_q s) \<and>
       {be_int (st_p s), be_int (st_q s)} = {g, be_int (st_pq s) div g})"
proof -
  from assms obtain n sn pq fps where "r = ResPQ n sn pq fps" by (cases r) (auto simp: pq_answer_def)
  with assms obtain fp g where f: "find (\<lambda>i. i \<in> set (map fst server_public_keys)) fps = Some fp"
    and g: "factor env (be_int pq) = Inr g" "in_range False 4 (min g (be_int pq div g))"
      "in_range False 4 (max g (be_int pq div g))"
    and s: "s = \<lparr>st_nonce = nonce, res_nonce = n, st_server_nonce = sn,
      st_pq = pq, fingerprint = fp, st_p = be_bytes 4 (min g (be_int pq div g)),
      st_q = be_bytes 4 (max g (be_int pq div g))\<rparr>"
    by (auto simp: pq_answer_def res_simps simp del: set_map split: option.splits if_splits)
  have "fp \<in> set (map fst server_public_keys)" using f by (auto simp: find_Some_iff simp del: set_map)
  moreover have "{min g h, max g h} = {g, h}" for h by (auto simp: min_def max_def)
  ultimately show ?thesis using g s by (simp add: be_int_be_bytes del: set_map)
qed

lemma set_client_dh_ok:
  "set_client_dh env at s d = Inr c \<Longrightarrow> dh_prime d \<noteq> 0 \<and>
     in_range False 256 (dh_g d ^ nat (be_int (b_bytes at)) mod dh_prime d) \<and>
     g_b_bytes c = be_bytes 256 (dh_g d ^ nat (be_int (b_bytes at)) mod dh_prime d) \<and>
     in_range False 256 (dh_g_a d ^ nat (be_int (b_bytes at)) mod dh_prime d) \<and>
     auth_key c = be_bytes 256 (dh_g_a d ^ nat (be_int (b_bytes at)) mod dh_prime d)"
  by (auto simp: set_client_dh_def Let_def res_simps py_pow_ok)

lemma create_loop_outcome:
  "case create_loop env ats i r of
     Inr key \<Rightarrow> \<exists>k \<le> r. key_attempt env (ats (i + k)) = Inr key \<and>
       (\<forall>j < k. \<exists>e. key_attempt env (ats (i + j)) = Inl e \<and> e \<noteq> ConnectionError)
   | Inl e \<Rightarrow> \<exists>k \<le> r. key_attempt env (ats (i + k)) = Inl e \<and> (e = ConnectionError \<or> k = r) \<and>
       (\<forall>j < k. \<exists>e. key_attempt env (ats (i + j)) = Inl e \<and> e \<noteq> ConnectionError)"
proof (induction r arbitrary: i)
  case 0
  then show ?case by (auto split: sum.splits py_error.splits)
next
  case (Suc r)
  show ?case
  proof (cases "\<exists>e. key_attempt env (ats i) = Inl e \<and> e \<noteq> ConnectionError")
    case False
    then show ?thesis by (auto split: sum.splits py_error.splits)
  next
    case True
    then have s: "create_loop env ats i (Suc r) = create_loop env ats (i + 1) r"
      by (auto split: py_error.splits)
    have ext: "\<forall>j < Suc k. \<exists>e. key_attempt env (ats (i + j)) = Inl e \<and> e \<noteq> ConnectionError"
      if "\<forall>j < k. \<exists>e. key_attempt env (ats (i + 1 + j)) = Inl e \<and> e \<noteq> ConnectionError" for k
      using that True by (auto simp: less_Suc_eq_0_disj)
    show ?thesis
    proof (cases "create_loop env ats (i + 1) r")
      case (Inl e)
      with Suc.IH [of "i + 1"] obtain k where "k \<le> r" "key_attempt env (ats (i + 1 + k)) = Inl e"
        "e = ConnectionError \<or> k = r" "\<forall>j < k. \<exists>e. key_attempt env (ats (i + 1 + j)) = Inl e \<and> e \<noteq> ConnectionError"
        by auto
      with ext [of k] show ?thesis unfolding s Inl by (auto intro!: exI [of _ "Suc k"])
    next
      case (Inr key)
      with Suc.IH [of "i + 1"] obtain k where "k \<le> r" "key_attempt env (ats (i + 1 + k)) = Inr key"
        "\<forall>j < k. \<exists>e. key_attempt env (ats (i + 1 + j)) = Inl e \<and> e \<noteq> ConnectionError"
        by auto
      with ext [of k] show ?thesis unfolding s Inr by (auto intro!: exI [of _ "Suc k"])
    qed
  qed
qed

section \<open>Properties\<close>

text \<open>
  The creation of a key makes at most six attempts and reports exactly what
  happened: a key is the result of the first attempt that succeeded; an error is the
  \<open>ConnectionError\<close> that ended an attempt, or the error of the sixth; and every attempt
  before failed with an error other than \<open>ConnectionError\<close>.
\<close>

lemma auth_create_outcome:
  "case Auth_create env ats of
     Inr key \<Rightarrow> \<exists>k \<le> 5. key_attempt env (ats k) = Inr key \<and>
       (\<forall>j < k. \<exists>e. key_attempt env (ats j) = Inl e \<and> e \<noteq> ConnectionError)
   | Inl e \<Rightarrow> \<exists>k \<le> 5. key_attempt env (ats k) = Inl e \<and> (e = ConnectionError \<or> k = 5) \<and>
       (\<forall>j < k. \<exists>e. key_attempt env (ats j) = Inl e \<and> e \<noteq> ConnectionError)"
  using create_loop_outcome [of MAX_RETRIES env ats 0]
  by (simp only: Auth_create_def MAX_RETRIES_def add_0)


text \<open>
  C23. Client and server hold the same key: it is 256 bytes, \<open>g_a ^ b\<close> modulo the prime for
  the random \<open>b\<close>; the \<open>g_b\<close> sent is \<open>g ^ b\<close>; and a server whose \<open>g_a\<close> was \<open>g ^ a\<close> computes
  the same number from \<open>g_b\<close>.
\<close>

theorem auth_key_agreement:
  assumes "request_dh_params env at s = Inr d" "set_client_dh env at s d = Inr c"
    "security_checks env s d c = Inr u"
  shows "length (auth_key c) = 256 \<and>
    be_int (auth_key c) = dh_g_a d ^ nat (be_int (b_bytes at)) mod CURRENT_DH_PRIME \<and>
    be_int (g_b_bytes c) = dh_g d ^ nat (be_int (b_bytes at)) mod CURRENT_DH_PRIME \<and>
    (\<forall>a. dh_g_a d = dh_g d ^ a mod CURRENT_DH_PRIME \<longrightarrow>
       be_int (auth_key c) = be_int (g_b_bytes c) ^ a mod CURRENT_DH_PRIME)"
proof -
  have p: "dh_prime d = CURRENT_DH_PRIME" using security_checks_ok [OF assms(3)] by blast
  note c = set_client_dh_ok [OF assms(2), unfolded p]
  have "(g ^ a mod m) ^ b mod m = (g ^ b mod m) ^ a mod m" for g m :: int and a b
    by (simp add: power_mod mult.commute flip: power_mult)
  with c show ?thesis by (auto simp: be_int_be_bytes)
qed

section \<open>An exchange\<close>

text \<open>A small world in which the exchange succeeds: hashes and cipher blocks of zeros,
  objects told apart by their first byte, \<open>b = 1\<close>.\<close>

definition small_g :: int where "small_g = 2 ^ 1985"
definition small_g_a :: int where "small_g_a = 2 ^ 1986"

definition small_auth :: auth_env where
  "small_auth =
     \<lparr>obj_write = (\<lambda>_. Inr []),
      obj_read = (\<lambda>b. Inr (if rest b = [1] then ResPQ 0 7 [15] [0xC3B42B026CE86B21 - 2 ^ 64]
                           else if rest b = [2] then ServerDHParamsOk 0 7 (replicate 32 0)
                           else if rest b = [3] then DhGen 0 7
                           else ServerDHInnerData 0 7 (small_g) (be_bytes 256 CURRENT_DH_PRIME) (be_bytes 256 (small_g_a)) 0, b)),
      sha1 = (\<lambda>_. replicate 20 0), auth_cipher = xor_aes, factor = (\<lambda>_. Inr 3)\<rparr>"

definition small_attempt :: attempt_env where
  "small_attempt =
     \<lparr>nonce_bytes = replicate 16 0, new_nonce_bytes = replicate 32 0, b_bytes = [1],
      padding = (\<lambda>_ n. replicate n 0), connected = Inr (),
      exchange = (\<lambda>k _. Inr (Some (replicate 20 0 @ [of_nat k + 1]))), ticks = (\<lambda>_. 0)\<rparr>"

lemma small_invoke:
  "Auth_invoke small_auth small_attempt k x =
     bindR (obj_read small_auth \<lparr>buf = replicate 20 0 @ [of_nat k + 1], pos = 20\<rparr>) (\<lambda>(x, _). Inr x)"
  by (simp add: Auth_invoke_def Auth_pack_def Auth_unpack_def small_auth_def small_attempt_def Int_new_def
      size_defs to_bytes_le_def in_range_def clear_low_bits_eq bio_def bio_seek_def)

lemma small_answers:
  "Auth_invoke small_auth small_attempt 0 x = Inr (ResPQ 0 7 [15] [0xC3B42B026CE86B21 - 2 ^ 64])"
  "Auth_invoke small_auth small_attempt (Suc 0) x = Inr (ServerDHParamsOk 0 7 (replicate 32 0))"
  "Auth_invoke small_auth small_attempt 2 x = Inr (DhGen 0 7)"
  unfolding small_invoke by (simp_all add: small_auth_def rest_def)

lemma le_int_zeros [simp]: "le_int (replicate n 0) = 0"
  by (induction n) simp_all

lemma from_bytes_zeros: "from_bytes_le sg (replicate n 0) = 0"
  by (simp add: from_bytes_le_def not_le)

lemma small_request_pq:
  "\<exists>s. request_pq small_auth small_attempt = Inr s \<and> st_server_nonce s = 7 \<and> st_nonce s = 0 \<and> res_nonce s = 0 \<and>
     fingerprint s = 0xC3B42B026CE86B21 - 2 ^ 64"
  by (simp add: request_pq_def small_answers pq_answer_def server_public_keys_def)
    (simp add: small_auth_def small_attempt_def to_bytes_be_def in_range_def be_int_def from_bytes_zeros)

lemma small_decrypt: "ige256_decrypt xor_aes (replicate 32 0) (replicate 32 0) (replicate 32 0) = Inr (replicate 32 0)"
  by code_simp

lemma small_request_dh:
  assumes "st_server_nonce s = 7" "st_nonce s = 0" "fingerprint s = 0xC3B42B026CE86B21 - 2 ^ 64"
  shows "\<exists>d. request_dh_params small_auth small_attempt s = Inr d \<and> dh_nonce d = 0 \<and> dh_server_nonce d = 7 \<and>
    answer_with_hash d = replicate 32 0 \<and> dh_g d = small_g \<and> dh_prime d = CURRENT_DH_PRIME \<and>
    dh_g_a d = small_g_a \<and> tmp_aes_key d = replicate 32 0 \<and> tmp_aes_iv d = replicate 32 0"
proof -
  have "map_of server_public_keys (fingerprint s) \<noteq> None" by (simp add: assms(3) server_public_keys_def)
  then have "\<exists>w. rsa_encrypt x (fingerprint s) = Inr w" for x
    using rsa_encrypt_total [of x "fingerprint s"] by (auto split: option.splits)
  then obtain w where w: "\<And>x. rsa_encrypt x (fingerprint s) = Inr (w x)" by metis
  have k: "replicate 20 0 @ take 12 (replicate 20 (0 :: byte)) = replicate 32 0"
    "drop 12 (replicate 20 (0 :: byte)) @ replicate 20 0 @ take 4 (replicate 32 0) = replicate 32 0"
    by (simp_all add: replicate_add [symmetric])
  have f: "obj_write small_auth = (\<lambda>_. Inr [])" "sha1 small_auth = (\<lambda>_. replicate 20 0)"
    "auth_cipher small_auth = xor_aes" by (simp_all add: small_auth_def)
  have nn: "new_nonce_bytes small_attempt = replicate 32 0" by (simp add: small_attempt_def)
  have n: "to_bytes_le 16 True 7 = Inr (le_bytes 16 7)" "to_bytes_le 32 True 0 = Inr (le_bytes 32 0)"
    by (simp_all add: to_bytes_le_def in_range_def)
  have z: "le_bytes 32 0 = replicate 32 0"
    using le_bytes_le_int [of "replicate 32 0"] by simp
  have "obj_read small_auth (bio (drop 20 (replicate 32 0))) = Inr (ServerDHInnerData 0 7 (small_g)
      (be_bytes 256 CURRENT_DH_PRIME) (be_bytes 256 (small_g_a)) 0, bio (drop 20 (replicate 32 0)))"
  proof -
    have "replicate 12 (0 :: byte) \<noteq> [x]" for x by (auto dest: arg_cong [of _ _ length])
    then show ?thesis by (simp add: small_auth_def)
  qed
  moreover have "be_int (be_bytes 256 CURRENT_DH_PRIME) = CURRENT_DH_PRIME" "be_int (be_bytes 256 (small_g_a)) = small_g_a"
    by (rule be_int_be_bytes, simp add: in_range_def CURRENT_DH_PRIME_def small_g_a_def)+
  ultimately show ?thesis
    using w k small_decrypt
    by (simp add: request_dh_params_def Let_def f n nn z from_bytes_zeros small_answers assms)
qed

lemma small_powers:
  "py_pow small_g 1 CURRENT_DH_PRIME = Inr small_g" "py_pow small_g_a 1 CURRENT_DH_PRIME = Inr small_g_a"
  "to_bytes_be 256 False small_g = Inr (be_bytes 256 small_g)"
  "to_bytes_be 256 False small_g_a = Inr (be_bytes 256 small_g_a)"
  by (simp_all add: py_pow_def CURRENT_DH_PRIME_def to_bytes_be_def in_range_def small_g_def small_g_a_def)

lemma small_set_client:
  assumes "dh_g d = small_g" "dh_prime d = CURRENT_DH_PRIME" "dh_g_a d = small_g_a"
    "tmp_aes_key d = replicate 32 0" "tmp_aes_iv d = replicate 32 0"
  shows "\<exists>c. set_client_dh small_auth small_attempt s d = Inr c \<and> set_answer c = DhGen 0 7 \<and>
    be_int (g_b_bytes c) = small_g"
proof -
  have f: "obj_write small_auth = (\<lambda>_. Inr [])" "sha1 small_auth = (\<lambda>_. replicate 20 0)"
    "auth_cipher small_auth = xor_aes" by (simp_all add: small_auth_def)
  have b: "be_int (b_bytes small_attempt) = 1" "padding small_attempt k n = replicate n 0" for k n
    by (simp_all add: small_attempt_def be_int_def)
  have e: "replicate 20 (0 :: byte) @ replicate 12 0 = replicate 32 0" by (simp add: replicate_add [symmetric])
  obtain x where "ige256_encrypt xor_aes (replicate 32 0) (replicate 32 0) (replicate 32 0) = Inr x"
    using ige_blocks [OF xor_aes_law, of "replicate 32 0" "replicate 32 0" "replicate 32 0"] by auto
  moreover have "be_int (be_bytes 256 small_g) = small_g"
    by (rule be_int_be_bytes) (simp add: in_range_def small_g_def)
  ultimately show ?thesis
    using small_powers by (simp add: set_client_dh_def Let_def assms f b e small_answers del: One_nat_def)
qed

lemma small_exchange:
  "\<exists>s d c. request_pq small_auth small_attempt = Inr s \<and> request_dh_params small_auth small_attempt s = Inr d \<and>
     set_client_dh small_auth small_attempt s d = Inr c \<and> security_checks small_auth s d c = Inr ()"
proof -
  obtain s where s: "request_pq small_auth small_attempt = Inr s" "st_server_nonce s = 7" "st_nonce s = 0"
    "res_nonce s = 0" "fingerprint s = 0xC3B42B026CE86B21 - 2 ^ 64" using small_request_pq by blast
  obtain d where d: "request_dh_params small_auth small_attempt s = Inr d" "dh_nonce d = 0" "dh_server_nonce d = 7"
    "answer_with_hash d = replicate 32 0" "dh_g d = small_g" "dh_prime d = CURRENT_DH_PRIME" "dh_g_a d = small_g_a"
    "tmp_aes_key d = replicate 32 0" "tmp_aes_iv d = replicate 32 0"
    using small_request_dh [OF s(2,3,5)] by blast
  obtain c where c: "set_client_dh small_auth small_attempt s d = Inr c" "set_answer c = DhGen 0 7"
    "be_int (g_b_bytes c) = small_g" using small_set_client [OF d(5-9)] by blast
  have "obj_write small_auth x = Inr []" "sha1 small_auth y = replicate 20 0" for x y
    by (simp_all add: small_auth_def)
  with s d c have "security_checks small_auth s d c = Inr ()"
    by (simp add: security_checks_def checks_def nonces_of_def small_g_def small_g_a_def CURRENT_DH_PRIME_def)
  with s d c show ?thesis by blast
qed


theorem auth_key_agreement_witness:
  "\<exists>s d c. set_client_dh small_auth small_attempt s d = Inr c \<and> length (auth_key c) = 256"
  using small_exchange auth_key_agreement by blast

end
