(* ===== verification/Srp.thy ===== *)
theory Srp
  imports Rsa TL_Primitives
begin

text \<open>
  \<open>kurigram/pyrogram/utils/crypto.py\<close>: the client's side of the password check (SRP).
  SHA-256 and PBKDF2 are parameters, and so are the random numbers.
\<close>

definition btoi :: "bytes \<Rightarrow> int" where "btoi b = be_int b"

definition itob :: "int \<Rightarrow> bytes res" where "itob i = to_bytes_be 256 False i"

text \<open>\<open>zip(a, b, strict=True)\<close>.\<close>

definition strict_xor :: "bytes \<Rightarrow> bytes \<Rightarrow> bytes res" where
  "strict_xor a b = (if length a = length b then Inr (xor_bytes a b) else Inl ValueError)"

record password_algo =
  salt1 :: bytes
  salt2 :: bytes
  srp_g :: int
  srp_p :: bytes

record srp_env =
  sha256 :: "bytes \<Rightarrow> bytes"
  pbkdf2 :: "bytes \<Rightarrow> bytes \<Rightarrow> bytes"

definition compute_password_hash :: "srp_env \<Rightarrow> password_algo \<Rightarrow> pystr \<Rightarrow> bytes res" where
  "compute_password_hash env algo password =
     bindR (utf8_encode password) (\<lambda>pw.
       let hash1 = sha256 env (salt1 algo @ pw @ salt1 algo);
           hash2 = sha256 env (salt2 algo @ hash1 @ salt2 algo);
           hash3 = pbkdf2 env hash2 (salt1 algo)
       in Inr (sha256 env (salt2 algo @ hash3 @ salt2 algo)))"

text \<open>The loop, over what \<open>os.urandom(256)\<close> draws: \<open>None\<close> while \<open>u\<close> was zero for all.\<close>

fun choose_a :: "srp_env \<Rightarrow> int \<Rightarrow> int \<Rightarrow> bytes \<Rightarrow> bytes list \<Rightarrow> (int \<times> bytes \<times> int) res option" where
  "choose_a env g p B_bytes [] = None"
| "choose_a env g p B_bytes (a_bytes # draws) =
     (case bindR (py_pow g (btoi a_bytes) p) itob of
        Inl e \<Rightarrow> Some (Inl e)
      | Inr A_bytes \<Rightarrow>
          let u = btoi (sha256 env (A_bytes @ B_bytes))
          in if u > 0 then Some (Inr (btoi a_bytes, A_bytes, u)) else choose_a env g p B_bytes draws)"

record check_srp =
  srp_id :: int
  srp_A :: bytes
  srp_M1 :: bytes

definition compute_password_check ::
    "srp_env \<Rightarrow> password_algo \<Rightarrow> bytes option \<Rightarrow> int \<Rightarrow> pystr \<Rightarrow> bytes list \<Rightarrow> check_srp res option" where
  "compute_password_check env algo srp_B i password draws =
     (let p_bytes = srp_p algo; p = btoi p_bytes; g = srp_g algo
      in case bindR (itob g) (\<lambda>g_bytes.
              bindR (case srp_B of None \<Rightarrow> Inl RuntimeError | Some B \<Rightarrow> Inr B) (\<lambda>B_bytes.
              bindR (compute_password_hash env algo password) (\<lambda>x_bytes.
              bindR (py_pow g (btoi x_bytes) p) (\<lambda>g_x.
                Inr (g_bytes, B_bytes, btoi x_bytes, (btoi (sha256 env (p_bytes @ g_bytes)) * g_x) mod p))))) of
           Inl e \<Rightarrow> Some (Inl e)
         | Inr (g_bytes, B_bytes, x, kg_x) \<Rightarrow>
             map_option (\<lambda>r. bindR r (\<lambda>(a, A_bytes, u).
               bindR (py_pow ((btoi B_bytes - kg_x) mod p) (a + u * x) p) (\<lambda>S.
               bindR (itob S) (\<lambda>S_bytes.
               bindR (strict_xor (sha256 env p_bytes) (sha256 env g_bytes)) (\<lambda>pg.
                 Inr \<lparr>srp_id = i, srp_A = A_bytes,
                      srp_M1 = sha256 env (pg @ sha256 env (salt1 algo) @ sha256 env (salt2 algo) @
                        A_bytes @ B_bytes @ sha256 env S_bytes)\<rparr>)))))
               (choose_a env g p B_bytes draws))"

section \<open>The server's side\<close>

text \<open>The server knows the verifier \<open>v = g ^ x\<close> and its own secret \<open>b\<close>; from the client's
  \<open>A\<close> it computes the same proof over its own shared secret.\<close>

definition server_proof ::
    "srp_env \<Rightarrow> password_algo \<Rightarrow> bytes \<Rightarrow> bytes \<Rightarrow> int \<Rightarrow> nat \<Rightarrow> bytes \<Rightarrow> bytes" where
  "server_proof env algo g_bytes B_bytes v b A_bytes =
     (let p = be_int (srp_p algo);
          u = be_int (sha256 env (A_bytes @ B_bytes));
          S = (be_int A_bytes * v ^ nat u) ^ b mod p
      in sha256 env (xor_bytes (sha256 env (srp_p algo)) (sha256 env g_bytes) @ sha256 env (salt1 algo) @
           sha256 env (salt2 algo) @ A_bytes @ B_bytes @ sha256 env (be_bytes 256 S)))"

lemma mult_power_mod: "(c mod p * (d mod p) ^ n) mod p = (c * d ^ n) mod p" for c d p :: int
proof -
  have "(c mod p * (d mod p) ^ n) mod p = (c mod p * ((d mod p) ^ n mod p)) mod p" by (simp only: mod_mult_right_eq)
  also have "\<dots> = (c * d ^ n) mod p" unfolding power_mod by (rule mod_mult_eq)
  finally show ?thesis .
qed

lemma power_mod_cong: "x mod p = y mod p \<Longrightarrow> x ^ n mod p = y ^ n mod p" for x y p :: int
  by (metis power_mod)

text \<open>Both sides raise \<open>g\<close> to \<open>b * (a + u * x)\<close>.\<close>

lemma shared_secret:
  fixes B k g p :: int
  assumes B: "B mod p = (k * (g ^ x mod p) + g ^ b) mod p"
  shows "((B - k * (g ^ x mod p) mod p) mod p) ^ (a + u * x) mod p =
    ((g ^ a mod p) * (g ^ x mod p) ^ u) ^ b mod p"
proof -
  have "(B - Y mod p) mod p = (B mod p - Y) mod p" for Y by (simp add: mod_simps)
  then have "(B - k * (g ^ x mod p) mod p) mod p = (B mod p - k * (g ^ x mod p)) mod p" .
  also have "\<dots> = g ^ b mod p" unfolding B by (simp add: mod_simps)
  finally have "((B - k * (g ^ x mod p) mod p) mod p) ^ (a + u * x) mod p = (g ^ b) ^ (a + u * x) mod p"
    by (simp add: power_mod)
  also have "(g ^ b) ^ (a + u * x) = (g ^ a * (g ^ x) ^ u) ^ b"
    by (simp add: power_mult_distrib power_add flip: power_mult) (simp add: ac_simps)
  also have "\<dots> mod p = ((g ^ a mod p) * (g ^ x mod p) ^ u) ^ b mod p"
    by (rule power_mod_cong) (simp only: mult_power_mod)
  finally show ?thesis .
qed

lemma choose_a_spec:
  "choose_a env g p B draws = Some (Inr (a, A, u)) \<Longrightarrow>
   (\<exists>d \<in> set draws. a = be_int d) \<and> in_range False 256 (g ^ nat a mod p) \<and>
   A = be_bytes 256 (g ^ nat a mod p) \<and> u = be_int (sha256 env (A @ B)) \<and> 0 < u \<and> p \<noteq> 0"
  by (induction draws)
    (auto simp: Let_def res_simps py_pow_ok itob_def btoi_def split: sum.splits if_splits)

section \<open>Properties\<close>

text \<open>
  C25. The proof the client sends for the right password is the one the server computes
  from its verifier: when the server's \<open>B\<close> is \<open>k * v + g ^ b\<close> for the verifier of the
  password, the client's \<open>M1\<close> equals the server's, whatever the client's random number
  was; its \<open>A\<close> is a power of \<open>g\<close> with a drawn exponent.
\<close>

theorem password_proof_agrees:
  assumes check: "compute_password_check env algo (Some B) i password draws = Some (Inr r)"
    and x: "compute_password_hash env algo password = Inr xb" "itob (srp_g algo) = Inr g_bytes"
    and v: "v = srp_g algo ^ nat (be_int xb) mod be_int (srp_p algo)"
    and B: "be_int B mod be_int (srp_p algo) =
      (be_int (sha256 env (srp_p algo @ g_bytes)) * v + srp_g algo ^ b) mod be_int (srp_p algo)"
  shows "srp_M1 r = server_proof env algo g_bytes B v b (srp_A r) \<and> srp_id r = i \<and>
    (\<exists>d \<in> set draws. srp_A r = be_bytes 256 (srp_g algo ^ nat (be_int d) mod be_int (srp_p algo)))"
proof -
  let ?p = "be_int (srp_p algo)" and ?g = "srp_g algo" and ?x = "nat (be_int xb)"
    and ?k = "be_int (sha256 env (srp_p algo @ g_bytes))"
  have pos: "0 \<le> be_int bs" for bs by (simp add: be_int_def)
  from check x obtain a A u S_bytes pg where
    c: "choose_a env ?g ?p B draws = Some (Inr (a, A, u))"
    and S: "itob (((be_int B - (?k * (?g ^ ?x mod ?p)) mod ?p) mod ?p) ^ nat (a + u * be_int xb) mod ?p) = Inr S_bytes"
    and pg: "strict_xor (sha256 env (srp_p algo)) (sha256 env g_bytes) = Inr pg"
    and r: "r = \<lparr>srp_id = i, srp_A = A, srp_M1 = sha256 env (pg @ sha256 env (salt1 algo) @
      sha256 env (salt2 algo) @ A @ B @ sha256 env S_bytes)\<rparr>"
    by (auto simp: compute_password_check_def Let_def res_simps btoi_def py_pow_ok split: sum.splits)
  note ca = choose_a_spec [OF c]
  then have "0 \<le> a" "0 < u" using pos by auto
  then have e: "nat (a + u * be_int xb) = nat a + nat u * ?x"
    using pos [of xb] by (simp add: nat_add_distrib nat_mult_distrib)
  have A: "be_int A = ?g ^ nat a mod ?p" using ca be_int_be_bytes by auto
  have "((be_int B - (?k * (?g ^ ?x mod ?p)) mod ?p) mod ?p) ^ nat (a + u * be_int xb) mod ?p =
      (be_int A * v ^ nat u) ^ b mod ?p"
    unfolding e A v by (rule shared_secret) (rule B [unfolded v])
  with S have "S_bytes = be_bytes 256 ((be_int A * v ^ nat u) ^ b mod ?p)"
    by (simp only: itob_def to_bytes_be_ok)
  moreover have "u = be_int (sha256 env (A @ B))" using ca by blast
  moreover have "pg = xor_bytes (sha256 env (srp_p algo)) (sha256 env g_bytes)"
    using pg by (simp add: strict_xor_def split: if_splits)
  ultimately have "srp_M1 r = server_proof env algo g_bytes B v b (srp_A r)"
    by (simp only: r server_proof_def Let_def check_srp.simps)
  moreover have "srp_id r = i" "srp_A r = A" by (simp_all only: r check_srp.simps)
  ultimately show ?thesis using ca by blast
qed

definition small_env :: srp_env where
  "small_env = \<lparr>sha256 = (\<lambda>_. [1]), pbkdf2 = (\<lambda>_ _. [])\<rparr>"

definition small_algo :: password_algo where
  "small_algo = \<lparr>salt1 = [], salt2 = [], srp_g = 5, srp_p = [23]\<rparr>"

theorem password_proof_agrees_witness:
  "\<exists>r. compute_password_check small_env small_algo (Some [30]) 9 [] [[6]] = Some (Inr r) \<and>
     srp_M1 r = server_proof small_env small_algo (be_bytes 256 5) [30] 5 2 (srp_A r)"
proof -
  have i: "be_int [b] = uint b" for b :: byte by (simp add: be_int_def)
  have h: "compute_password_hash small_env small_algo [] = Inr [1]"
    by (simp add: compute_password_hash_def utf8_encode_def small_env_def)
  have g: "itob (srp_g small_algo) = Inr (be_bytes 256 5)"
    by (simp add: itob_def to_bytes_be_def in_range_def small_algo_def)
  obtain r where c: "compute_password_check small_env small_algo (Some [30]) 9 [] [[6]] = Some (Inr r)"
    by (simp add: compute_password_check_def h g)
      (simp add: small_env_def small_algo_def btoi_def py_pow_def i itob_def to_bytes_be_def in_range_def strict_xor_def)
  have "srp_M1 r = server_proof small_env small_algo (be_bytes 256 5) [30] 5 2 (srp_A r)"
    using password_proof_agrees [OF c h g, of 5 2] by (simp add: small_env_def small_algo_def i)
  with c show ?thesis by blast
qed

end
