(* ===== verification/Client_Utils.thy ===== *)
theory Client_Utils
  imports Base64 Py_Struct
begin

text \<open>
  \<open>kurigram/pyrogram/utils\<close>: the numbering of peers (\<open>peers.py\<close>), the cache of the least
  recently used (\<open>cache.py\<close>), splitting a text (\<open>text.py\<close>), inline message ids
  (\<open>inline.py\<close>) and the small calculations of \<open>amounts.py\<close>.
\<close>

section \<open>Peers\<close>

definition ZERO_SECRET_CHAT_ID :: int where "ZERO_SECRET_CHAT_ID = -2000000000000"
definition ZERO_CHANNEL_ID :: int where "ZERO_CHANNEL_ID = -1000000000000"
definition MAX_CHANNEL_ID :: int where "MAX_CHANNEL_ID = 1000000000000 - push_bit 31 1"
definition MIN_MONOFORUM_CHANNEL_ID :: int where
  "MIN_MONOFORUM_CHANNEL_ID = 1000000000000 + push_bit 31 1 + 1"
definition MAX_MONOFORUM_CHANNEL_ID :: int where "MAX_MONOFORUM_CHANNEL_ID = 3000000000000"
definition MAX_USER_ID :: int where "MAX_USER_ID = push_bit 40 1 - 1"
definition MAX_CHAT_ID :: int where "MAX_CHAT_ID = 999999999999"

lemmas peer_limits = ZERO_SECRET_CHAT_ID_def ZERO_CHANNEL_ID_def MAX_CHANNEL_ID_def
  MIN_MONOFORUM_CHANNEL_ID_def MAX_MONOFORUM_CHANNEL_ID_def MAX_USER_ID_def MAX_CHAT_ID_def

text \<open>The generated classes, by the id attribute they carry.\<close>

datatype peer = UserPeer int | ChatPeer int | ChannelPeer int | OtherPeer

datatype peer_or_id = PeerId int | RawPeer peer

definition get_raw_peer_id :: "peer_or_id \<Rightarrow> int option" where
  "get_raw_peer_id x =
     (case x of
        PeerId p \<Rightarrow>
          if p < 0
          then (if - MAX_CHAT_ID \<le> p then Some (- p)
                else if ZERO_CHANNEL_ID - MAX_CHANNEL_ID \<le> p \<and> p \<noteq> ZERO_CHANNEL_ID then Some (ZERO_CHANNEL_ID - p)
                else if ZERO_CHANNEL_ID - MAX_MONOFORUM_CHANNEL_ID \<le> p then Some (ZERO_CHANNEL_ID - p)
                else None)
          else if 0 < p \<and> p \<le> MAX_USER_ID then Some p
          else None
      | RawPeer (UserPeer i) \<Rightarrow> Some i
      | RawPeer (ChatPeer i) \<Rightarrow> Some i
      | RawPeer (ChannelPeer i) \<Rightarrow> Some i
      | RawPeer OtherPeer \<Rightarrow> None)"

definition get_peer_id :: "peer \<Rightarrow> int res" where
  "get_peer_id p =
     (case p of
        UserPeer i \<Rightarrow> Inr i
      | ChatPeer i \<Rightarrow> Inr (- i)
      | ChannelPeer i \<Rightarrow> Inr (ZERO_CHANNEL_ID - i)
      | OtherPeer \<Rightarrow> Inl ValueError)"

datatype peer_type = User | Chat | Channel | SecretChat | Monoforum

definition get_peer_type :: "int \<Rightarrow> peer_type res" where
  "get_peer_type p =
     (if p < 0
      then (if - MAX_CHAT_ID \<le> p then Inr Chat
            else if ZERO_CHANNEL_ID - MAX_CHANNEL_ID \<le> p \<and> p \<noteq> ZERO_CHANNEL_ID then Inr Channel
            else if ZERO_SECRET_CHAT_ID + - push_bit 31 1 \<le> p \<and> p \<noteq> ZERO_SECRET_CHAT_ID then Inr SecretChat
            else if ZERO_CHANNEL_ID - MAX_MONOFORUM_CHANNEL_ID \<le> p then Inr Monoforum
            else Inl ValueError)
      else if 0 < p \<and> p \<le> MAX_USER_ID then Inr User
      else Inl ValueError)"

definition get_channel_id :: "int \<Rightarrow> int" where
  "get_channel_id p = ZERO_CHANNEL_ID - p"

section \<open>The cache\<close>

text \<open>The ordered dictionary, oldest entry first.\<close>

record ('k, 'v) cache =
  capacity :: nat
  entries :: "('k \<times> 'v) list"

definition Cache_new :: "int \<Rightarrow> ('k, 'v) cache res" where
  "Cache_new n = (if n \<le> 0 then Inl ValueError else Inr \<lparr>capacity = nat n, entries = []\<rparr>)"

text \<open>\<open>move_to_end(key)\<close> of a key that is there, with the value it has.\<close>

definition move_to_end :: "'k \<Rightarrow> 'v \<Rightarrow> ('k \<times> 'v) list \<Rightarrow> ('k \<times> 'v) list" where
  "move_to_end k v es = filter (\<lambda>(j, _). j \<noteq> k) es @ [(k, v)]"

definition cache_get :: "'k \<Rightarrow> 'v \<Rightarrow> ('k, 'v) cache \<Rightarrow> 'v \<times> ('k, 'v) cache" where
  "cache_get k d c =
     (case map_of (entries c) k of
        None \<Rightarrow> (d, c)
      | Some v \<Rightarrow> (v, c\<lparr>entries := move_to_end k v (entries c)\<rparr>))"

definition cache_set :: "'k \<Rightarrow> 'v \<Rightarrow> ('k, 'v) cache \<Rightarrow> ('k, 'v) cache" where
  "cache_set k v c =
     (let es = move_to_end k v (entries c)
      in c\<lparr>entries := (if length es > capacity c then tl es else es)\<rparr>)"

section \<open>Splitting a text\<close>

definition NEWLINE :: nat where "NEWLINE = 10"
definition SPACE :: nat where "SPACE = 32"

text \<open>\<open>cut.rfind(c)\<close>, with \<open>None\<close> for -1.\<close>

definition rfind :: "nat \<Rightarrow> pystr \<Rightarrow> nat option" where
  "rfind c s = find (\<lambda>i. s ! i = c) (rev [0..<length s])"

text \<open>One cut: the chunk and how much of the text it uses up.\<close>

definition cut_text :: "nat \<Rightarrow> pystr \<Rightarrow> pystr \<times> nat" where
  "cut_text max_length remaining =
     (let cut = take max_length remaining;
          newline = rfind NEWLINE cut;
          space = rfind SPACE cut
      in if newline \<noteq> None \<and> the newline > 0 then (take (the newline) cut, the newline + 1)
         else if space \<noteq> None \<and> the space > 0 \<and> the space > length cut div 2
         then (take (the space) cut, the space + 1)
         else (cut, max_length))"

lemma cut_text_advances: "0 < m \<Longrightarrow> cut_text m r = (c, n) \<Longrightarrow> 0 < n"
  by (auto simp: cut_text_def Let_def split: if_splits)

text \<open>The loop, for a limit that is not zero: a limit of zero never shortens the text.\<close>

function split_loop :: "nat \<Rightarrow> pystr \<Rightarrow> pystr list" where
  "split_loop max_length remaining =
     (if remaining = [] \<or> max_length = 0 then []
      else if length remaining \<le> max_length then [remaining]
      else case cut_text max_length remaining of (chunk, n) \<Rightarrow>
        (if chunk \<noteq> [] then [chunk] else []) @ split_loop max_length (drop n remaining))"
  by pat_completeness auto

termination
  by (relation "measure (\<lambda>(m, r). length r)") (auto dest: cut_text_advances [OF _ sym])

declare split_loop.simps [simp del]

text \<open>\<open>None\<close>: the loop does not end.\<close>

definition split_text :: "nat \<Rightarrow> pystr \<Rightarrow> pystr list option" where
  "split_text max_length text =
     (if length text \<le> max_length then Some [text]
      else if max_length = 0 then None
      else Some (split_loop max_length text))"

section \<open>Inline message ids\<close>

datatype inline_message_id =
    InputBotInlineMessageID int int int
  | InputBotInlineMessageID64 int int int int

definition pack_inline_message_id :: "inline_message_id \<Rightarrow> pystr res" where
  "pack_inline_message_id m =
     bindR (case m of
              InputBotInlineMessageID dc i h \<Rightarrow> struct_pack [(4, Some dc), (8, Some i), (8, Some h)]
            | InputBotInlineMessageID64 dc ow i h \<Rightarrow>
                struct_pack [(4, Some dc), (8, Some ow), (4, Some i), (8, Some h)]) (\<lambda>w.
       Inr (rstrip_pad (b64encode True w)))"

definition unpack_inline_message_id :: "pystr \<Rightarrow> inline_message_id res" where
  "unpack_inline_message_id s =
     bindR (urlsafe_b64decode (add_pad s)) (\<lambda>d.
       if length d = 20
       then bindR (struct_unpack [4, 8, 8] d) (\<lambda>u. Inr (InputBotInlineMessageID (u ! 0) (u ! 1) (u ! 2)))
       else bindR (struct_unpack [4, 8, 4, 8] d) (\<lambda>u.
         Inr (InputBotInlineMessageID64 (u ! 0) (u ! 1) (u ! 2) (u ! 3))))"

section \<open>Amounts\<close>

definition get_premium_duration_month_count :: "int \<Rightarrow> int" where
  "get_premium_duration_month_count day_count = max 1 (day_count div 30)"

definition get_premium_duration_day_count :: "int \<Rightarrow> int" where
  "get_premium_duration_day_count month_count =
     (if month_count \<le> 0 \<or> month_count > 10000000 then 7
      else month_count * 30 + month_count div 3 + month_count div 12)"

section \<open>The least recently used\<close>

definition cache_ok :: "('k, 'v) cache \<Rightarrow> bool" where
  "cache_ok c \<longleftrightarrow> 0 < capacity c \<and> distinct (map fst (entries c)) \<and> length (entries c) \<le> capacity c"

datatype ('k, 'v) cache_op = Get 'k | Set 'k 'v

fun cache_run :: "'v \<Rightarrow> ('k, 'v) cache_op list \<Rightarrow> ('k, 'v) cache \<Rightarrow> ('k, 'v) cache" where
  "cache_run d [] c = c"
| "cache_run d (Get k # xs) c = cache_run d xs (snd (cache_get k d c))"
| "cache_run d (Set k v # xs) c = cache_run d xs (cache_set k v c)"

lemma distinct_move_to_end:
  "distinct (map fst es) \<Longrightarrow> distinct (map fst (move_to_end k v es))"
  by (induction es) (auto simp: move_to_end_def)

lemma length_filter_key:
  "distinct (map fst es) \<Longrightarrow> length (filter (\<lambda>(j, _). j \<noteq> k) es) =
     length es - (if k \<in> fst ` set es then 1 else 0)"
proof (induction es)
  case (Cons e es)
  obtain j w where e: "e = (j, w)" by fastforce
  show ?case
  proof (cases "j = k")
    case True
    with Cons.prems e have "k \<notin> fst ` set es" by auto
    then have "filter (\<lambda>(j, _). j \<noteq> k) es = es" by (induction es) auto
    with True e show ?thesis by simp
  next
    case False
    have "k \<in> fst ` set es \<Longrightarrow> 0 < length es" by (cases es) auto
    with Cons False e show ?thesis by auto
  qed
qed simp

lemma cache_get_ok: "cache_ok c \<Longrightarrow> cache_ok (snd (cache_get k d c)) \<and> capacity (snd (cache_get k d c)) = capacity c"
proof -
  assume c: "cache_ok c"
  have "length (move_to_end k v (entries c)) \<le> capacity c" if "map_of (entries c) k = Some v" for v
  proof -
    have "k \<in> fst ` set (entries c)" using map_of_SomeD [OF that] by force
    moreover from this have "0 < length (entries c)" by (cases "entries c") auto
    ultimately show ?thesis
      using c by (simp add: cache_ok_def move_to_end_def length_filter_key)
  qed
  with c show ?thesis
    by (auto simp: cache_get_def cache_ok_def distinct_move_to_end split: option.splits)
qed

lemma cache_set_ok: "cache_ok c \<Longrightarrow> cache_ok (cache_set k v c) \<and> capacity (cache_set k v c) = capacity c"
proof -
  assume c: "cache_ok c"
  then have "length (move_to_end k v (entries c)) \<le> capacity c + 1"
    by (auto simp: cache_ok_def move_to_end_def intro: le_trans [OF length_filter_le])
  with c show ?thesis
    by (auto simp: cache_set_def cache_ok_def Let_def distinct_move_to_end map_tl intro: distinct_tl)
qed

text \<open>\<open>held k v B es\<close>: the key is there with its value, and what is newer than it is in \<open>B\<close>.\<close>

definition held :: "'k \<Rightarrow> 'v \<Rightarrow> 'k set \<Rightarrow> ('k \<times> 'v) list \<Rightarrow> bool" where
  "held k v B es \<longleftrightarrow> (\<exists>older newer. es = older @ (k, v) # newer \<and> fst ` set newer \<subseteq> B)"

lemma held_lookup: "held k v B es \<Longrightarrow> distinct (map fst es) \<Longrightarrow> map_of es k = Some v"
  by (auto simp: held_def map_of_eq_Some_iff)

lemma held_move_other:
  assumes "held k v B es" "j \<noteq> k" "j \<in> B"
  shows "held k v B (move_to_end j w es)"
proof -
  obtain older newer where e: "es = older @ (k, v) # newer" "fst ` set newer \<subseteq> B"
    using assms(1) by (auto simp: held_def)
  have "move_to_end j w es = filter (\<lambda>(i, _). i \<noteq> j) older @ (k, v) # (filter (\<lambda>(i, _). i \<noteq> j) newer @ [(j, w)])"
    using e(1) assms(2) by (simp add: move_to_end_def)
  moreover have "fst ` set (filter (\<lambda>(i, _). i \<noteq> j) newer @ [(j, w)]) \<subseteq> B" using e(2) assms(3) by auto
  ultimately show ?thesis unfolding held_def by blast
qed

lemma held_move_same: "held k v B (move_to_end k v es)"
  unfolding held_def move_to_end_def by (intro exI [of _ "filter (\<lambda>(i, _). i \<noteq> k) es"] exI [of _ "[]"]) simp

text \<open>Dropping the oldest keeps the key while the newer ones are fewer than the capacity.\<close>

lemma held_tl:
  assumes "held k v B es" "distinct (map fst es)" "finite B" "card B < length es - 1"
  shows "held k v B (tl es)"
proof -
  obtain older newer where e: "es = older @ (k, v) # newer" "fst ` set newer \<subseteq> B"
    using assms(1) by (auto simp: held_def)
  have "length newer = card (fst ` set newer)"
    using assms(2) e(1) by (metis distinct_append distinct_card distinct.simps(2) length_map list.set_map list.simps(9) map_append)
  also have "\<dots> \<le> card B" by (rule card_mono [OF assms(3) e(2)])
  finally have "older \<noteq> []" using assms(4) e(1) by auto
  then have "tl es = tl older @ (k, v) # newer" using e(1) by simp
  with e(2) show ?thesis unfolding held_def by blast
qed

text \<open>The keys a sequence of operations touches.\<close>

primrec op_key :: "('k, 'v) cache_op \<Rightarrow> 'k" where
  "op_key (Get k) = k"
| "op_key (Set k v) = k"

definition sets :: "('k, 'v) cache_op list \<Rightarrow> 'k set" where
  "sets xs = {k. \<exists>v. Set k v \<in> set xs}"

lemma held_run:
  "cache_ok c \<Longrightarrow> held k v B (entries c) \<Longrightarrow> finite B \<Longrightarrow> card B < capacity c \<Longrightarrow>
   op_key ` set xs \<subseteq> insert k B \<Longrightarrow> k \<notin> sets xs \<Longrightarrow>
   cache_ok (cache_run d xs c) \<and> held k v B (entries (cache_run d xs c))"
proof (induction d xs c rule: cache_run.induct)
  case (2 d j xs c)
  note ok = cache_get_ok [OF 2(2), of j d]
  have m: "map_of (entries c) k = Some v" using held_lookup [OF 2(3)] 2(2) by (simp add: cache_ok_def)
  have "held k v B (entries (snd (cache_get j d c)))"
  proof (cases "j = k")
    case True
    with m show ?thesis by (simp add: cache_get_def held_move_same)
  next
    case False
    with 2(6) have "j \<in> B" by auto
    with False 2(3) show ?thesis by (auto simp: cache_get_def intro: held_move_other split: option.splits)
  qed
  with 2 ok show ?case by (auto simp: sets_def)
next
  case (3 d j w xs c)
  note ok = cache_set_ok [OF 3(2), of j w]
  from 3(6,7) have j: "j \<noteq> k" "j \<in> B" by (auto simp: sets_def)
  let ?es = "move_to_end j w (entries c)"
  have h: "held k v B ?es" using 3(3) j by (rule held_move_other)
  have "held k v B (tl ?es)" if "capacity c < length ?es"
    using 3(2,4,5) that by (intro held_tl [OF h]) (auto simp: cache_ok_def distinct_move_to_end)
  with h have "held k v B (entries (cache_set j w c))" by (simp add: cache_set_def Let_def)
  with 3 ok show ?case by (auto simp: sets_def)
qed simp

section \<open>Splitting\<close>

lemma rfind_Some: "rfind c s = Some i \<Longrightarrow> i < length s \<and> s ! i = c"
  by (auto simp: rfind_def find_Some_iff rev_nth)

text \<open>A cut takes a chunk off the front, and a separator with it or nothing.\<close>

definition separator :: "pystr \<Rightarrow> bool" where
  "separator p \<longleftrightarrow> p = [] \<or> p = [NEWLINE] \<or> p = [SPACE]"

lemma take_nth_drop: "i < length s \<Longrightarrow> s = take i s @ [s ! i] @ drop (i + 1) s"
  by (simp add: id_take_nth_drop)

lemma cut_text_spec:
  assumes "0 < m" "m < length r" "cut_text m r = (c, n)"
  shows "\<exists>p. separator p \<and> r = c @ p @ drop n r \<and> c \<noteq> [] \<and> length c \<le> m"
proof -
  have sp: "\<exists>p. separator p \<and> r = take i (take m r) @ p @ drop (i + 1) r \<and> take i (take m r) \<noteq> [] \<and>
      length (take i (take m r)) \<le> m"
    if "rfind ch (take m r) = Some i" "0 < i" "ch = NEWLINE \<or> ch = SPACE" for ch i
  proof -
    from rfind_Some [OF that(1)] have i: "i < m" "i < length r" "r ! i = ch" by auto
    with take_nth_drop [OF i(2)] that(2,3) show ?thesis
      by (intro exI [of _ "[ch]"]) (auto simp: separator_def)
  qed
  show ?thesis
  proof (cases "\<exists>i. rfind NEWLINE (take m r) = Some i \<and> 0 < i")
    case True
    then obtain i where i: "rfind NEWLINE (take m r) = Some i" "0 < i" by blast
    with assms(3) have "c = take i (take m r)" "n = i + 1" by (auto simp: cut_text_def Let_def)
    then show ?thesis using sp [OF i] by blast
  next
    case False
    show ?thesis
    proof (cases "\<exists>i. rfind SPACE (take m r) = Some i \<and> 0 < i \<and> length (take m r) div 2 < i")
      case True
      then obtain i where i: "rfind SPACE (take m r) = Some i" "0 < i" "length (take m r) div 2 < i" by blast
      with False assms(3) have "c = take i (take m r)" "n = i + 1" by (auto simp: cut_text_def Let_def split: if_splits)
      then show ?thesis using sp [OF i(1,2)] by blast
    next
      case no: False
      with False assms have "c = take m r" "n = m" by (auto simp: cut_text_def Let_def split: if_splits)
      with assms(1,2) show ?thesis by (intro exI [of _ "[]"]) (auto simp: separator_def)
    qed
  qed
qed

text \<open>A text put together from chunks and what separates them.\<close>

fun joined :: "pystr list \<Rightarrow> pystr list \<Rightarrow> pystr" where
  "joined [] ps = []"
| "joined (c # cs) [] = c @ joined cs []"
| "joined (c # cs) (p # ps) = c @ p @ joined cs ps"

lemma split_loop_spec:
  "0 < m \<Longrightarrow> \<exists>ps. joined (split_loop m r) ps = r \<and> list_all separator ps \<and>
     (\<forall>c \<in> set (split_loop m r). c \<noteq> [] \<and> length c \<le> m)"
proof (induction m r rule: split_loop.induct)
  case (1 m r)
  show ?case
  proof (cases "length r \<le> m")
    case True
    with 1(2) show ?thesis by (subst (1 2) split_loop.simps) (auto intro: exI [of _ "[]"])
  next
    case False
    obtain c n where c: "cut_text m r = (c, n)" by fastforce
    from False have ne: "r \<noteq> []" "m < length r" by auto
    with 1 c obtain ps where ps: "joined (split_loop m (drop n r)) ps = drop n r" "list_all separator ps"
      "\<forall>c \<in> set (split_loop m (drop n r)). c \<noteq> [] \<and> length c \<le> m" by fastforce
    from cut_text_spec [OF 1(2) ne(2) c] obtain p where p: "separator p" "r = c @ p @ drop n r" "c \<noteq> []" "length c \<le> m"
      by blast
    have s: "split_loop m r = c # split_loop m (drop n r)"
      using False ne 1(2) c p(3) by (subst split_loop.simps) simp
    show ?thesis
      unfolding s using ps p by (intro exI [of _ "p # ps"]) auto
  qed
qed

section \<open>Properties\<close>

text \<open>The peers that have an id, with their type.\<close>

definition peer_kind :: "peer \<Rightarrow> peer_type option" where
  "peer_kind p =
     (case p of
        UserPeer i \<Rightarrow> if 0 < i \<and> i \<le> MAX_USER_ID then Some User else None
      | ChatPeer i \<Rightarrow> if 0 < i \<and> i \<le> MAX_CHAT_ID then Some Chat else None
      | ChannelPeer i \<Rightarrow>
          if 0 < i \<and> i \<le> MAX_CHANNEL_ID then Some Channel
          else if MIN_MONOFORUM_CHANNEL_ID \<le> i \<and> i \<le> MAX_MONOFORUM_CHANNEL_ID then Some Monoforum
          else None
      | OtherPeer \<Rightarrow> None)"

text \<open>
  The numbers of peers: every integer falls into exactly the listed interval, with
  two strays (-10^12 counts as a secret chat, -2 * 10^12 as a monoforum); and the id
  made from a peer in range has the type of the peer and leads back to its raw id.
\<close>

lemma peer_numbering:
  "get_peer_type i =
     (if 0 < i \<and> i < 2 ^ 40 then Inr User
      else if - (10 ^ 12) < i \<and> i < 0 then Inr Chat
      else if -1997852516352 \<le> i \<and> i < - (10 ^ 12) then Inr Channel
      else if i = - (10 ^ 12) \<or> -2002147483648 \<le> i \<and> i < -1997852516352 \<and> i \<noteq> - 2 * 10 ^ 12 then Inr SecretChat
      else if i = - 2 * 10 ^ 12 \<or> - 4 * 10 ^ 12 \<le> i \<and> i < -2002147483648 then Inr Monoforum
      else Inl ValueError) \<and>
   (\<forall>p t. peer_kind p = Some t \<longrightarrow>
      (\<exists>k. get_peer_id p = Inr k \<and> get_peer_type k = Inr t \<and>
         get_raw_peer_id (PeerId k) = get_raw_peer_id (RawPeer p) \<and> get_raw_peer_id (PeerId k) \<noteq> None))"
proof (intro conjI allI impI)
  show "get_peer_type i =
     (if 0 < i \<and> i < 2 ^ 40 then Inr User
      else if - (10 ^ 12) < i \<and> i < 0 then Inr Chat
      else if -1997852516352 \<le> i \<and> i < - (10 ^ 12) then Inr Channel
      else if i = - (10 ^ 12) \<or> -2002147483648 \<le> i \<and> i < -1997852516352 \<and> i \<noteq> - 2 * 10 ^ 12 then Inr SecretChat
      else if i = - 2 * 10 ^ 12 \<or> - 4 * 10 ^ 12 \<le> i \<and> i < -2002147483648 then Inr Monoforum
      else Inl ValueError)"
    by (simp add: get_peer_type_def peer_limits push_bit_eq_mult)
  show "\<exists>k. get_peer_id p = Inr k \<and> get_peer_type k = Inr t \<and>
      get_raw_peer_id (PeerId k) = get_raw_peer_id (RawPeer p) \<and> get_raw_peer_id (PeerId k) \<noteq> None"
    if "peer_kind p = Some t" for p t
    using that
    by (cases p)
      (auto simp: peer_kind_def get_peer_id_def get_peer_type_def get_raw_peer_id_def peer_limits push_bit_eq_mult
        split: if_splits)
qed

text \<open>
  The cache keeps the recently used: from any state, a value that was set is still
  found after any further gets and sets that do not set its key, as long as they touch
  fewer other keys than the capacity; and the cache never holds more than its capacity
  nor a key twice.
\<close>

lemma cache_keeps_recent:
  assumes "cache_ok c" "k \<notin> sets xs" "card (op_key ` set xs - {k}) < capacity c"
  shows "fst (cache_get k d (cache_run d xs (cache_set k v c))) = v \<and>
    cache_ok (cache_run d xs (cache_set k v c))"
proof -
  let ?B = "op_key ` set xs - {k}" and ?es = "move_to_end k v (entries c)"
  note ok = cache_set_ok [OF assms(1), of k v]
  have "held k v ?B (tl ?es)" if "capacity c < length ?es"
    using assms(1,3) that by (intro held_tl [OF held_move_same]) (auto simp: cache_ok_def distinct_move_to_end)
  then have "held k v ?B (entries (cache_set k v c))" by (simp add: cache_set_def Let_def held_move_same)
  from held_run [OF _ this] ok assms(2,3) have
    r: "cache_ok (cache_run d xs (cache_set k v c))" "held k v ?B (entries (cache_run d xs (cache_set k v c)))" by auto
  then have "map_of (entries (cache_run d xs (cache_set k v c))) k = Some v"
    using held_lookup [OF r(2)] by (simp add: cache_ok_def)
  with r(1) show ?thesis by (simp add: cache_get_def)
qed

text \<open>
  Splitting a text ends for every positive limit and loses nothing but separators:
  every chunk has at most the limit, none is empty (unless the text is), and the text is
  the chunks in order with at most one newline or blank after each.
\<close>

lemma split_text_joins:
  assumes "0 < m"
  shows "\<exists>cs. split_text m s = Some cs \<and> (\<exists>ps. joined cs ps = s \<and> list_all separator ps) \<and>
    (\<forall>c \<in> set cs. length c \<le> m \<and> (s \<noteq> [] \<longrightarrow> c \<noteq> []))"
  using assms split_loop_spec [OF assms, of s] by (auto simp: split_text_def intro: exI [of _ "[]"])

text \<open>
  An inline message id comes back from its string, in both its forms, whatever its
  numbers; a number that does not fit raises.
\<close>

lemma inline_id_round_trip:
  assumes "pack_inline_message_id m = Inr s"
  shows "unpack_inline_message_id s = Inr m"
proof (cases m)
  case (InputBotInlineMessageID dc i h)
  with assms have "in_range True 4 dc" "in_range True 8 i" "in_range True 8 h"
    "s = rstrip_pad (b64encode True (le_bytes 4 dc @ le_bytes 8 i @ le_bytes 8 h))"
    by (auto simp: pack_inline_message_id_def res_simps)
  with InputBotInlineMessageID show ?thesis
    by (simp add: unpack_inline_message_id_def urlsafe_round_trip struct_unpack_def from_bytes_le_le_bytes)
next
  case (InputBotInlineMessageID64 dc ow i h)
  with assms have "in_range True 4 dc" "in_range True 8 ow" "in_range True 4 i" "in_range True 8 h"
    "s = rstrip_pad (b64encode True (le_bytes 4 dc @ le_bytes 8 ow @ le_bytes 4 i @ le_bytes 8 h))"
    by (auto simp: pack_inline_message_id_def res_simps)
  with InputBotInlineMessageID64 show ?thesis
    by (simp add: unpack_inline_message_id_def urlsafe_round_trip struct_unpack_def from_bytes_le_le_bytes)
qed

end
