(* ===== verification/Rpc_Error.thy ===== *)
theory Rpc_Error
  imports Base64
begin

text \<open>
  \<open>kurigram/pyrogram/errors/rpc_error.py\<close>: how an error of the server becomes an
  exception.  The table of known errors is generated, and the character class of
  \<open>\d\<close> and \<open>int(...)\<close> belong to Python: all three are parameters.  Texts are lists of
  code points.
\<close>

record rpc_tables =
  is_decimal :: "nat \<Rightarrow> bool"
  int_of :: "pystr \<Rightarrow> int"
  exceptions :: "int \<Rightarrow> (pystr \<Rightarrow> pystr option) option"

definition STRING_PARAMETER_PREFIXES :: "pystr list" where
  "STRING_PARAMETER_PREFIXES =
     map codes [''APNS_VERIFY_CHECK_'', ''INTEGRITY_CHECK_CLASSIC_'', ''RECAPTCHA_CHECK_'']"

definition CATEGORY :: pystr where "CATEGORY = codes ''_''"

definition UNDERSCORE :: nat where "UNDERSCORE = 95"

text \<open>The pattern \<open>_(\d+)\<close> matches at the front.\<close>

definition at_parameter :: "rpc_tables \<Rightarrow> nat \<Rightarrow> pystr \<Rightarrow> bool" where
  "at_parameter t c s \<longleftrightarrow> c = UNDERSCORE \<and> s \<noteq> [] \<and> is_decimal t (hd s)"

text \<open>\<open>PARAMETER.search\<close> with its first group, and \<open>PARAMETER.sub("_X", ...)\<close>.\<close>

fun parameter_search :: "rpc_tables \<Rightarrow> pystr \<Rightarrow> pystr option" where
  "parameter_search t [] = None"
| "parameter_search t (c # s) =
     (if at_parameter t c s then Some (takeWhile (is_decimal t) s) else parameter_search t s)"

function parameter_sub :: "rpc_tables \<Rightarrow> pystr \<Rightarrow> pystr" where
  "parameter_sub t [] = []"
| "parameter_sub t (c # s) =
     (if at_parameter t c s then codes ''_X'' @ parameter_sub t (dropWhile (is_decimal t) s)
      else c # parameter_sub t s)"
  by pat_completeness auto
termination
  by (relation "measure (\<lambda>(t, s). length s)") (auto simp: le_imp_less_Suc length_dropWhile_le)

record message_parts =
  error_id :: pystr
  part_value :: "pystr option"

definition split_error_message :: "rpc_tables \<Rightarrow> pystr \<Rightarrow> message_parts" where
  "split_error_message t msg =
     (case find (\<lambda>p. take (length p) msg = p) STRING_PARAMETER_PREFIXES of
        Some p \<Rightarrow> \<lparr>error_id = p @ codes ''X'', part_value = Some (drop (length p) msg)\<rparr>
      | None \<Rightarrow> (case parameter_search t msg of
            None \<Rightarrow> \<lparr>error_id = msg, part_value = None\<rparr>
          | Some v \<Rightarrow> \<lparr>error_id = parameter_sub t msg, part_value = Some v\<rparr>))"

fun decimal :: "nat \<Rightarrow> pystr" where
  "decimal n = (if n < 10 then [48 + n] else decimal (n div 10) @ [48 + n mod 10])"

declare decimal.simps [simp del]

definition wire_text :: "int \<Rightarrow> pystr \<Rightarrow> pystr" where
  "wire_text code msg = codes ''['' @ decimal (nat \<bar>code\<bar>) @ codes '' '' @ msg @ codes '']''"

section \<open>The exception\<close>

datatype parameter = NoParameter | IntParameter int | StrParameter pystr

record rpc_exception =
  error_class :: pystr
  is_unknown :: bool
  is_signed :: bool
  error_parameter :: parameter
  raw_error :: "int \<times> pystr"

text \<open>What \<open>RPCError.__init__\<close> makes of the value; \<open>"".isdecimal()\<close> is false.\<close>

definition init_parameter :: "rpc_tables \<Rightarrow> bool \<Rightarrow> pystr option \<Rightarrow> parameter" where
  "init_parameter t unknown v =
     (if unknown then NoParameter
      else case v of
             None \<Rightarrow> NoParameter
           | Some s \<Rightarrow> if s \<noteq> [] \<and> list_all (is_decimal t) s then IntParameter (int_of t s) else StrParameter s)"

text \<open>The property \<open>value\<close>.\<close>

definition error_value :: "rpc_exception \<Rightarrow> parameter" where
  "error_value x =
     (if is_unknown x then StrParameter (case raw_error x of (c, m) \<Rightarrow> wire_text c m) else error_parameter x)"

definition make_error :: "rpc_tables \<Rightarrow> pystr \<Rightarrow> pystr option \<Rightarrow> bool \<Rightarrow> bool \<Rightarrow> int \<Rightarrow> pystr \<Rightarrow> rpc_exception" where
  "make_error t cls v unknown neg code msg =
     \<lparr>error_class = cls, is_unknown = unknown, is_signed = neg, error_parameter = init_parameter t unknown v,
      raw_error = (code, msg)\<rparr>"

text \<open>\<open>raise_it\<close>: the exception it raises, or the \<open>KeyError\<close> of a table without category.\<close>

definition raise_it :: "rpc_tables \<Rightarrow> int \<Rightarrow> pystr \<Rightarrow> rpc_exception res" where
  "raise_it t code msg =
     (let neg = code < 0;
          error_code = (if neg then - code else code);
          raw_text = wire_text code msg
      in case exceptions t error_code of
           None \<Rightarrow> Inr (make_error t (codes ''UnknownError'') (Some raw_text) True neg code msg)
         | Some rows \<Rightarrow>
             let parts = split_error_message t msg
             in case rows (error_id parts) of
                  Some cls \<Rightarrow> Inr (make_error t cls (part_value parts) False neg code msg)
                | None \<Rightarrow> (case rows CATEGORY of
                      None \<Rightarrow> Inl (KeyError error_code)
                    | Some cls \<Rightarrow> Inr (make_error t cls (Some raw_text) True neg code msg)))"

section \<open>Messages with a number\<close>

lemma search_append:
  assumes "parameter_search t base = None" "\<not> is_decimal t UNDERSCORE" "ds \<noteq> []" "list_all (is_decimal t) ds"
  shows "parameter_search t (base @ UNDERSCORE # ds) = Some ds"
  using assms(1)
proof (induction base)
  case Nil
  have "takeWhile (is_decimal t) ds = ds" using assms(4) by (simp add: list_all_iff)
  moreover have "is_decimal t (hd ds)" using assms(3,4) by (cases ds) auto
  ultimately show ?case using assms(3) by (simp add: at_parameter_def)
next
  case (Cons c base)
  then have n: "\<not> at_parameter t c base" "parameter_search t base = None" by (auto split: if_splits)
  then have "\<not> at_parameter t c (base @ UNDERSCORE # ds)"
    using assms(2) by (cases base) (auto simp: at_parameter_def)
  with Cons.IH [OF n(2)] show ?case by simp
qed

lemma sub_append:
  assumes "parameter_search t base = None" "\<not> is_decimal t UNDERSCORE" "ds \<noteq> []" "list_all (is_decimal t) ds"
  shows "parameter_sub t (base @ UNDERSCORE # ds) = base @ codes ''_X''"
  using assms(1)
proof (induction base)
  case Nil
  have "dropWhile (is_decimal t) ds = []" using assms(4) by (simp add: list_all_iff)
  then have "parameter_sub t (dropWhile (is_decimal t) ds) = []" by (simp only: parameter_sub.simps)
  moreover have "is_decimal t (hd ds)" using assms(3,4) by (cases ds) auto
  ultimately show ?case using assms(3) by (simp add: at_parameter_def)
next
  case (Cons c base)
  then have n: "\<not> at_parameter t c base" "parameter_search t base = None" by (auto split: if_splits)
  then have "\<not> at_parameter t c (base @ UNDERSCORE # ds)"
    using assms(2) by (cases base) (auto simp: at_parameter_def)
  with Cons.IH [OF n(2)] show ?case by simp
qed

lemma split_numbered:
  assumes "parameter_search t base = None" "\<not> is_decimal t UNDERSCORE" "ds \<noteq> []" "list_all (is_decimal t) ds"
    "\<forall>p \<in> set STRING_PARAMETER_PREFIXES. take (length p) (base @ UNDERSCORE # ds) \<noteq> p"
  shows "split_error_message t (base @ UNDERSCORE # ds) = \<lparr>error_id = base @ codes ''_X'', part_value = Some ds\<rparr>"
proof -
  have "find (\<lambda>p. take (length p) (base @ UNDERSCORE # ds) = p) STRING_PARAMETER_PREFIXES = None"
    using assms(5) by (simp add: find_None_iff)
  then show ?thesis
    using search_append [OF assms(1-4)] sub_append [OF assms(1-4)] by (simp add: split_error_message_def)
qed

lemma split_verification:
  assumes "p \<in> set STRING_PARAMETER_PREFIXES"
  shows "split_error_message t (p @ s) = \<lparr>error_id = p @ codes ''X'', part_value = Some s\<rparr>"
proof -
  have "find (\<lambda>q. take (length q) (p @ s) = q) STRING_PARAMETER_PREFIXES = Some p"
    using assms by (auto simp: STRING_PARAMETER_PREFIXES_def codes_def)
  then show ?thesis by (simp add: split_error_message_def)
qed

section \<open>Properties\<close>

text \<open>
  An error whose message ends in a number, such as a flood wait, is raised with that
  number: looked up with the number blanked out, in the class of the table if the
  message is listed (the parameter then is the number), else in the class of its code,
  marked unknown, with the text as it travelled for its value; an unknown code gives
  \<open>UnknownError\<close>.  The sign of the code is kept beside and does not matter for the class.
\<close>

lemma numbered_error_raised:
  assumes "parameter_search t base = None" "\<not> is_decimal t UNDERSCORE" "ds \<noteq> []" "list_all (is_decimal t) ds"
    "\<forall>p \<in> set STRING_PARAMETER_PREFIXES. take (length p) (base @ UNDERSCORE # ds) \<noteq> p"
    "msg = base @ UNDERSCORE # ds"
  shows "case exceptions t \<bar>code\<bar> of
      None \<Rightarrow> (\<exists>x. raise_it t code msg = Inr x \<and> error_class x = codes ''UnknownError'' \<and> is_unknown x \<and>
        error_value x = StrParameter (wire_text code msg))
    | Some rows \<Rightarrow>
        (case rows (base @ codes ''_X'') of
           Some cls \<Rightarrow> \<exists>x. raise_it t code msg = Inr x \<and> error_class x = cls \<and> \<not> is_unknown x \<and>
             is_signed x = (code < 0) \<and> error_value x = IntParameter (int_of t ds) \<and> raw_error x = (code, msg)
         | None \<Rightarrow> (case rows CATEGORY of
               None \<Rightarrow> raise_it t code msg = Inl (KeyError \<bar>code\<bar>)
             | Some cls \<Rightarrow> \<exists>x. raise_it t code msg = Inr x \<and> error_class x = cls \<and> is_unknown x \<and>
                 error_value x = StrParameter (wire_text code msg)))"
  using assms(3,4) split_numbered [OF assms(1-5)] unfolding assms(6)
  by (auto simp: raise_it_def Let_def make_error_def error_value_def init_parameter_def abs_if
      split: option.splits)

definition small_tables :: rpc_tables where
  "small_tables = \<lparr>is_decimal = (\<lambda>c. 48 \<le> c \<and> c \<le> 57), int_of = (\<lambda>s. foldl (\<lambda>a c. a * 10 + (int c - 48)) 0 s),
     exceptions = (\<lambda>c. if c = 420 then Some [codes ''F_X'' \<mapsto> codes ''FloodWait'', CATEGORY \<mapsto> codes ''Flood''] else None)\<rparr>"

end

