(* ===== verification/Sql_Storage.thy ===== *)
theory Sql_Storage
  imports Client_Utils
begin

text \<open>
  kurigram's storage (\<open>kurigram/pyrogram/storage/storage.py\<close>, \<open>sqlite_storage.py\<close>): the session
  string, the tables with the statements the code runs on them, and the migrations.

  A table with a primary key is the list of its rows in the order of the key, which is the
  order SQLite scans it in; the table of usernames has none and is in the order of insertion.
  Rows that \<open>ORDER BY\<close> leaves equal come in the order of that scan.
\<close>

section \<open>Tables\<close>

record session_row =
  dc_id :: int
  server_address :: "pystr option"
  port :: "int option"
  api_id :: "int option"
  test_mode :: "bool option"
  auth_key :: "bytes option"
  session_date :: int
  session_user :: "int option"
  is_bot :: "bool option"

record peer_row =
  access_hash :: int
  peer_type :: string
  phone_number :: "pystr option"
  last_update_on :: int

record update_state =
  pts :: "int option"
  qts :: "int option"
  state_date :: "int option"
  seq :: "int option"

datatype schema_item = ApiIdColumn | UsernamesTable | UpdateStateTable | UsernamesIdIndex | ServerColumns

record tables =
  session :: session_row
  peers :: "(int \<times> peer_row) list"
  usernames :: "(int \<times> pystr) list"
  update_states :: "(int \<times> update_state) list"
  version :: int
  schema :: "schema_item list"

text \<open>Insertion at the place of the key, replacing a row that has it.\<close>

fun put_row :: "int \<Rightarrow> 'a \<Rightarrow> (int \<times> 'a) list \<Rightarrow> (int \<times> 'a) list" where
  "put_row k v [] = [(k, v)]"
| "put_row k v ((j, w) # rows) =
     (if k < j then (k, v) # (j, w) # rows
      else if k = j then (k, v) # rows
      else (j, w) # put_row k v rows)"

definition VERSION :: int where "VERSION = 7"
definition USERNAME_TTL :: int where "USERNAME_TTL = 8 * 60 * 60"

definition ip :: "string \<Rightarrow> pystr option" where "ip s = Some (codes s)"

definition TEST_DC :: "int \<Rightarrow> pystr option" where
  "TEST_DC dc =
     (if dc = 1 then ip ''149.154.175.10'' else if dc = 2 then ip ''149.154.167.40''
      else if dc = 3 then ip ''149.154.175.117'' else None)"

definition PROD_DC :: "int \<Rightarrow> pystr option" where
  "PROD_DC dc =
     (if dc = 1 then ip ''149.154.175.53'' else if dc = 2 then ip ''149.154.167.51''
      else if dc = 3 then ip ''149.154.175.100'' else if dc = 4 then ip ''149.154.167.91''
      else if dc = 5 then ip ''91.108.56.130'' else if dc = 203 then ip ''91.105.192.100'' else None)"

definition all_items :: "schema_item list" where
  "all_items = [ApiIdColumn, UsernamesTable, UpdateStateTable, UsernamesIdIndex, ServerColumns]"

definition create :: tables where
  "create =
     \<lparr>session = \<lparr>dc_id = 2, server_address = ip ''149.154.167.51'', port = Some 443, api_id = None,
        test_mode = None, auth_key = None, session_date = 0, session_user = None, is_bot = None\<rparr>,
      peers = [], usernames = [], update_states = [], version = VERSION, schema = all_items\<rparr>"

section \<open>The session string\<close>

text \<open>\<open>struct\<close> with big-endian fields: numbers, flags (by truth) and bytes cut or filled up.\<close>

datatype field = UInt nat | Flag | Chars nat
datatype argument = Number "int option" | Truth "bool option" | Octets "bytes option"

fun field_size :: "field \<Rightarrow> nat" where
  "field_size (UInt k) = k" | "field_size Flag = 1" | "field_size (Chars k) = k"

fun pack_arg :: "field \<Rightarrow> argument \<Rightarrow> bytes res" where
  "pack_arg (UInt k) (Number (Some n)) = (if 0 \<le> n \<and> n < 256 ^ k then Inr (be_bytes k n) else Inl StructError)"
| "pack_arg Flag (Truth b) = Inr [if b = Some True then 1 else 0]"
| "pack_arg (Chars k) (Octets (Some bs)) = Inr (take k (bs @ replicate k 0))"
| "pack_arg _ _ = Inl StructError"

fun unpack_arg :: "field \<Rightarrow> bytes \<Rightarrow> argument" where
  "unpack_arg (UInt k) bs = Number (Some (be_int bs))"
| "unpack_arg Flag bs = Truth (Some (bs \<noteq> [0]))"
| "unpack_arg (Chars k) bs = Octets (Some bs)"

fun pack_args :: "field list \<Rightarrow> argument list \<Rightarrow> bytes res" where
  "pack_args [] [] = Inr []"
| "pack_args (f # fs) (a # as) = bindR (pack_arg f a) (\<lambda>w. bindR (pack_args fs as) (\<lambda>ws. Inr (w @ ws)))"
| "pack_args _ _ = Inl StructError"

fun unpack_fields :: "field list \<Rightarrow> bytes \<Rightarrow> argument list" where
  "unpack_fields [] bs = []"
| "unpack_fields (f # fs) bs = unpack_arg f (take (field_size f) bs) # unpack_fields fs (drop (field_size f) bs)"

definition unpack_args :: "field list \<Rightarrow> bytes \<Rightarrow> argument list res" where
  "unpack_args fs bs = (if length bs = sum_list (map field_size fs) then Inr (unpack_fields fs bs) else Inl StructError)"

definition SESSION_STRING_FORMAT :: "field list" where
  "SESSION_STRING_FORMAT = [UInt 1, UInt 4, Flag, Chars 256, UInt 8, Flag]"
definition OLD_SESSION_STRING_FORMAT :: "field list" where
  "OLD_SESSION_STRING_FORMAT = [UInt 1, Flag, Chars 256, UInt 4, Flag]"
definition OLD_SESSION_STRING_FORMAT_64 :: "field list" where
  "OLD_SESSION_STRING_FORMAT_64 = [UInt 1, Flag, Chars 256, UInt 8, Flag]"
definition SESSION_STRING_SIZE :: nat where "SESSION_STRING_SIZE = 351"
definition SESSION_STRING_SIZE_64 :: nat where "SESSION_STRING_SIZE_64 = 356"

definition export_session_string :: "tables \<Rightarrow> pystr res" where
  "export_session_string t =
     (let s = session t
      in bindR (pack_args SESSION_STRING_FORMAT
             [Number (Some (dc_id s)), Number (api_id s), Truth (test_mode s), Octets (auth_key s),
              Number (session_user s), Truth (is_bot s)])
           (\<lambda>packed. Inr (rstrip_pad (b64encode True packed))))"

text \<open>A column holds numbers of 64 bits with a sign.\<close>

definition sql_int :: "int option \<Rightarrow> int option res" where
  "sql_int v = (case v of None \<Rightarrow> Inr None | Some n \<Rightarrow> if in_range True 8 n then Inr (Some n) else Inl OverflowError)"

definition read_old :: "argument list \<Rightarrow> session_row \<Rightarrow> session_row res" where
  "read_old as s =
     (case as of
        [Number (Some d), Truth t, Octets k, Number u, Truth b] \<Rightarrow>
          bindR (sql_int u) (\<lambda>u.
          Inr (s\<lparr>dc_id := d, test_mode := t, auth_key := k, session_user := u, is_bot := b, session_date := 0\<rparr>))
      | _ \<Rightarrow> Inl StructError)"

definition read_new :: "argument list \<Rightarrow> session_row \<Rightarrow> session_row res" where
  "read_new as s =
     (case as of
        [Number (Some d), Number a, Truth t, Octets k, Number u, Truth b] \<Rightarrow>
          (case (if t = Some True then (TEST_DC d, 80) else (PROD_DC d, 443)) of
             (None, _) \<Rightarrow> Inl (KeyError d)
           | (Some addr, p) \<Rightarrow>
               bindR (sql_int u) (\<lambda>u.
               Inr (s\<lparr>dc_id := d, server_address := Some addr, port := Some p, api_id := a, test_mode := t,
                      auth_key := k, session_user := u, is_bot := b, session_date := 0\<rparr>)))
      | _ \<Rightarrow> Inl StructError)"

definition open_in_memory :: "pystr option \<Rightarrow> tables res" where
  "open_in_memory session_string =
     (case session_string of
        None \<Rightarrow> Inr create
      | Some s \<Rightarrow>
          if s = [] then Inr create
          else if length s = SESSION_STRING_SIZE \<or> length s = SESSION_STRING_SIZE_64
          then bindR (urlsafe_b64decode (add_pad s)) (\<lambda>bs.
               bindR (unpack_args (if length s = SESSION_STRING_SIZE then OLD_SESSION_STRING_FORMAT
                                   else OLD_SESSION_STRING_FORMAT_64) bs) (\<lambda>as.
               bindR (read_old as (session create)) (\<lambda>row. Inr (create\<lparr>session := row\<rparr>))))
          else bindR (urlsafe_b64decode (add_pad s)) (\<lambda>bs.
               bindR (unpack_args SESSION_STRING_FORMAT bs) (\<lambda>as.
               bindR (read_new as (session create)) (\<lambda>row. Inr (create\<lparr>session := row\<rparr>)))))"

section \<open>Migrations\<close>

definition has :: "schema_item \<Rightarrow> tables \<Rightarrow> bool" where
  "has i t = (i \<in> set (schema t))"

text \<open>A statement that adds what is there already is an error of the database.\<close>

definition add_item :: "schema_item \<Rightarrow> tables \<Rightarrow> tables res" where
  "add_item i t = (if has i t then Inl OSError else Inr (t\<lparr>schema := schema t @ [i]\<rparr>))"

definition set_server :: "tables \<Rightarrow> tables res" where
  "set_server t =
     (let s = session t
      in case (if test_mode s = Some True then (TEST_DC (dc_id s), 80) else (PROD_DC (dc_id s), 443)) of
           (None, _) \<Rightarrow> Inl (KeyError (dc_id s))
         | (Some addr, p) \<Rightarrow>
             bindR (add_item ServerColumns t) (\<lambda>t. Inr (t\<lparr>session := s\<lparr>server_address := Some addr, port := Some p\<rparr>\<rparr>)))"

definition migrate :: "int \<Rightarrow> tables \<Rightarrow> tables res" where
  "migrate v t =
     (if v = 1 then Inr (t\<lparr>peers := []\<rparr>)
      else if v = 2 then add_item ApiIdColumn t
      else if v = 3 then add_item UsernamesTable t
      else if v = 4 then add_item UpdateStateTable t
      else if v = 5 then add_item UsernamesIdIndex t
      else if v = 6 then set_server t
      else Inr t)"

text \<open>The chain of \<open>if version == n: ...; version += 1\<close>.\<close>

fun update_from :: "int list \<Rightarrow> int \<Rightarrow> tables \<Rightarrow> (int \<times> tables) res" where
  "update_from [] v t = Inr (v, t)"
| "update_from (n # ns) v t =
     (if v = n then bindR (migrate n t) (update_from ns (v + 1)) else update_from ns v t)"

definition update_db :: "tables \<Rightarrow> tables res" where
  "update_db t = bindR (update_from [1, 2, 3, 4, 5, 6] (version t) t) (\<lambda>(v, t). Inr (t\<lparr>version := v\<rparr>))"

section \<open>Peers and usernames\<close>

datatype input_peer = InputPeerUser int int | InputPeerChat int | InputPeerChannel int int

definition get_input_peer :: "int \<Rightarrow> int \<Rightarrow> string \<Rightarrow> input_peer res" where
  "get_input_peer i h ty =
     (if ty \<in> set [''user'', ''bot''] then Inr (InputPeerUser i h)
      else if ty = ''group'' then Inr (InputPeerChat (- i))
      else if ty \<in> set [''direct'', ''channel'', ''forum'', ''supergroup'', ''community'']
           then Inr (InputPeerChannel (get_channel_id i) h)
      else Inl ValueError)"

text \<open>\<open>now\<close> is the database's clock.\<close>

definition update_peers :: "int \<Rightarrow> (int \<times> int \<times> string \<times> pystr option) list \<Rightarrow> tables \<Rightarrow> tables" where
  "update_peers now ps t =
     t\<lparr>peers := fold (\<lambda>(i, h, ty, ph). put_row i
         \<lparr>access_hash = h, peer_type = ty, phone_number = ph, last_update_on = now\<rparr>) ps (peers t)\<rparr>"

definition update_usernames :: "(int \<times> pystr option list) list \<Rightarrow> tables \<Rightarrow> tables" where
  "update_usernames us t =
     (if us = [] then t
      else t\<lparr>usernames := filter (\<lambda>(i, _). i \<notin> fst ` set us) (usernames t) @
         concat (map (\<lambda>(i, names). map (\<lambda>n. (i, n)) (List.map_filter (\<lambda>n. n) names)) us)\<rparr>)"

definition get_peer_by_id :: "int \<Rightarrow> tables \<Rightarrow> input_peer res" where
  "get_peer_by_id i t =
     (case map_of (peers t) i of
        None \<Rightarrow> Inl (KeyError i)
      | Some r \<Rightarrow> get_input_peer i (access_hash r) (peer_type r))"

text \<open>The join with the peers, newest first, and its first row.\<close>

definition owners :: "pystr \<Rightarrow> tables \<Rightarrow> (int \<times> peer_row) list" where
  "owners name t =
     List.map_filter (\<lambda>(i, n). if n = name then map_option (Pair i) (map_of (peers t) i) else None) (usernames t)"

definition newest_owner :: "pystr \<Rightarrow> tables \<Rightarrow> (int \<times> peer_row) option" where
  "newest_owner name t =
     (case sort_key (\<lambda>(i, r). - last_update_on r) (owners name t) of [] \<Rightarrow> None | x # _ \<Rightarrow> Some x)"

definition get_peer_by_username :: "int \<Rightarrow> pystr \<Rightarrow> tables \<Rightarrow> input_peer res" where
  "get_peer_by_username now name t =
     (case newest_owner name t of
        None \<Rightarrow> Inl (KeyError 0)
      | Some (i, r) \<Rightarrow>
          if \<bar>now - last_update_on r\<bar> > USERNAME_TTL then Inl (KeyError 0)
          else get_input_peer i (access_hash r) (peer_type r))"

definition get_peer_by_phone_number :: "pystr \<Rightarrow> tables \<Rightarrow> input_peer res" where
  "get_peer_by_phone_number ph t =
     (case filter (\<lambda>(i, r). phone_number r = Some ph) (peers t) of
        [] \<Rightarrow> Inl (KeyError 0)
      | (i, r) # _ \<Rightarrow> get_input_peer i (access_hash r) (peer_type r))"

section \<open>Update states\<close>

text \<open>\<open>COALESCE(excluded.x, update_state.x)\<close>.\<close>

definition coalesce :: "'a option \<Rightarrow> 'a option \<Rightarrow> 'a option" where
  "coalesce new old = (case new of None \<Rightarrow> old | Some x \<Rightarrow> Some x)"

definition merge_state :: "update_state \<Rightarrow> update_state \<Rightarrow> update_state" where
  "merge_state new old =
     \<lparr>pts = coalesce (pts new) (pts old), qts = coalesce (qts new) (qts old),
      state_date = coalesce (state_date new) (state_date old), seq = coalesce (seq new) (seq old)\<rparr>"

definition set_update_state :: "(int \<times> update_state) list \<Rightarrow> tables \<Rightarrow> tables" where
  "set_update_state us t =
     t\<lparr>update_states := fold (\<lambda>(i, u) rows.
         put_row i (case map_of rows i of None \<Rightarrow> u | Some old \<Rightarrow> merge_state u old) rows) us (update_states t)\<rparr>"

definition delete_update_state :: "int list \<Rightarrow> tables \<Rightarrow> tables" where
  "delete_update_state ids t =
     (if ids = [] then t else t\<lparr>update_states := filter (\<lambda>(i, _). i \<notin> set ids) (update_states t)\<rparr>)"

text \<open>\<open>ORDER BY date ASC\<close>; \<open>NULL\<close> comes first.\<close>

definition date_of :: "int \<times> update_state \<Rightarrow> int" where
  "date_of row = (case state_date (snd row) of None \<Rightarrow> 0 | Some d \<Rightarrow> d)"

definition get_update_states :: "int list option \<Rightarrow> tables \<Rightarrow> (int \<times> update_state) list" where
  "get_update_states ids t =
     (let rows = (case ids of None \<Rightarrow> update_states t | Some is \<Rightarrow> filter (\<lambda>(i, _). i \<in> set is) (update_states t))
      in filter (\<lambda>r. state_date (snd r) = None) rows @
         sort_key date_of (filter (\<lambda>r. state_date (snd r) \<noteq> None) rows))"

section \<open>The session's fields\<close>

text \<open>\<open>_set\<close> with the field and its value, as the accessors call it; \<open>save\<close> stamps the date.\<close>

datatype attr =
    DcId int | ServerAddress "pystr option" | Port "int option" | ApiId "int option"
  | TestMode "bool option" | AuthKey "bytes option" | Date int | UserId "int option" | IsBot "bool option"
  | Version int

fun set_attr :: "attr \<Rightarrow> tables \<Rightarrow> tables" where
  "set_attr (DcId v) t = t\<lparr>session := (session t)\<lparr>dc_id := v\<rparr>\<rparr>"
| "set_attr (ServerAddress v) t = t\<lparr>session := (session t)\<lparr>server_address := v\<rparr>\<rparr>"
| "set_attr (Port v) t = t\<lparr>session := (session t)\<lparr>port := v\<rparr>\<rparr>"
| "set_attr (ApiId v) t = t\<lparr>session := (session t)\<lparr>api_id := v\<rparr>\<rparr>"
| "set_attr (TestMode v) t = t\<lparr>session := (session t)\<lparr>test_mode := v\<rparr>\<rparr>"
| "set_attr (AuthKey v) t = t\<lparr>session := (session t)\<lparr>auth_key := v\<rparr>\<rparr>"
| "set_attr (Date v) t = t\<lparr>session := (session t)\<lparr>session_date := v\<rparr>\<rparr>"
| "set_attr (UserId v) t = t\<lparr>session := (session t)\<lparr>session_user := v\<rparr>\<rparr>"
| "set_attr (IsBot v) t = t\<lparr>session := (session t)\<lparr>is_bot := v\<rparr>\<rparr>"
| "set_attr (Version v) t = t\<lparr>version := v\<rparr>"

definition save :: "int \<Rightarrow> tables \<Rightarrow> tables" where
  "save now t = set_attr (Date now) t"

end
