(* ===== verification/Sql_Storage_Laws.thy ===== *)
theory Sql_Storage_Laws
  imports Sql_Storage "HOL-Library.Multiset"
begin

text \<open>
  What kurigram's storage keeps: a session through its string, the numbers of the update states,
  the owners of usernames, and everything through the migrations.
\<close>

section \<open>The session string\<close>

lemma b64_groups_end:
  "\<exists>bd k. b64_groups u xs = bd @ replicate k PAD \<and> (bd = [] \<or> last bd \<noteq> PAD) \<and>
     length bd = (4 * length xs + 2) div 3"
proof (induction u xs rule: b64_groups.induct)
  case (1 u)
  then show ?case by (intro exI [of _ "[]"] exI [of _ 0]) simp
next
  case (2 u a)
  show ?case
    by (intro exI [of _ "[b64_char u (a div 4), b64_char u (a mod 4 * 16)]"] exI [of _ "Suc (Suc 0)"])
      (simp add: b64_char_props)
next
  case (3 u a b)
  show ?case
    by (intro exI [of _ "[b64_char u (a div 4), b64_char u (a mod 4 * 16 + b div 16), b64_char u (b mod 16 * 4)]"]
        exI [of _ 1]) (simp add: b64_char_props)
next
  case (4 u a b c xs)
  then obtain bd k where bk: "b64_groups u xs = bd @ replicate k PAD" "bd = [] \<or> last bd \<noteq> PAD"
    "length bd = (4 * length xs + 2) div 3" by blast
  let ?h = "[b64_char u (a div 4), b64_char u (a mod 4 * 16 + b div 16), b64_char u (b mod 16 * 4 + c div 64),
    b64_char u (c mod 64)]"
  have "(4 * Suc (Suc (Suc (length xs))) + 2) div 3 = 4 + (4 * length xs + 2) div 3" by simp
  with bk show ?case
    by (intro exI [of _ "?h @ bd"] exI [of _ k]) (auto simp: b64_char_props)
qed

lemma length_stripped: "length (rstrip_pad (b64encode u bs)) = (4 * length bs + 2) div 3"
proof -
  obtain bd k where "b64_groups u (map unat bs) = bd @ replicate k PAD" "bd = [] \<or> last bd \<noteq> PAD"
    "length bd = (4 * length (map unat bs) + 2) div 3" using b64_groups_end [of u "map unat bs"] by blast
  then show ?thesis by (simp add: b64encode_def rstrip_pad_body)
qed

lemma known_dc: "TEST_DC d = Some a \<Longrightarrow> 0 \<le> d \<and> d < 256" "PROD_DC d = Some a \<Longrightarrow> 0 \<le> d \<and> d < 256"
  by (auto simp: TEST_DC_def PROD_DC_def split: if_splits)

text \<open>What a session must hold to be exported and opened again: a known data centre, an api id,
  a key of 256 bytes and a user.\<close>

definition complete_session :: "session_row \<Rightarrow> pystr \<Rightarrow> bool" where
  "complete_session s addr \<longleftrightarrow>
     (if test_mode s = Some True then TEST_DC (dc_id s) else PROD_DC (dc_id s)) = Some addr \<and>
     (\<exists>a. api_id s = Some a \<and> 0 \<le> a \<and> a < 2 ^ 32) \<and> (\<exists>k. auth_key s = Some k \<and> length k = 256) \<and>
     (\<exists>u. session_user s = Some u \<and> 0 \<le> u \<and> u < 2 ^ 63)"

lemma unpack_session:
  assumes "0 \<le> d" "d < 256" "0 \<le> a" "a < 2 ^ 32" "length k = 256" "0 \<le> u" "u < 2 ^ 63"
  shows "\<exists>w. pack_args SESSION_STRING_FORMAT
      [Number (Some d), Number (Some a), Truth t, Octets (Some k), Number (Some u), Truth b] = Inr w \<and>
    length w = 271 \<and>
    unpack_args SESSION_STRING_FORMAT w = Inr [Number (Some d), Number (Some a), Truth (Some (t = Some True)),
      Octets (Some k), Number (Some u), Truth (Some (b = Some True))]"
proof -
  let ?w = "be_bytes 1 d @ be_bytes 4 a @ [if t = Some True then 1 else 0] @ k @ be_bytes 8 u @
    [if b = Some True then 1 else 0]"
  have "unpack_args SESSION_STRING_FORMAT ?w = Inr [Number (Some d), Number (Some a), Truth (Some (t = Some True)),
      Octets (Some k), Number (Some u), Truth (Some (b = Some True))]"
    using assms by (simp add: unpack_args_def SESSION_STRING_FORMAT_def be_int_be_bytes in_range_def)
  moreover have "pack_args SESSION_STRING_FORMAT
      [Number (Some d), Number (Some a), Truth t, Octets (Some k), Number (Some u), Truth b] = Inr ?w"
    using assms by (simp add: SESSION_STRING_FORMAT_def)
  ultimately show ?thesis using assms(5) by simp
qed




section \<open>Keyed tables\<close>

definition key_ordered :: "(int \<times> 'a) list \<Rightarrow> bool" where
  "key_ordered rows \<longleftrightarrow> sorted_wrt (<) (map fst rows)"

definition tables_ok :: "tables \<Rightarrow> bool" where
  "tables_ok t \<longleftrightarrow> key_ordered (peers t) \<and> key_ordered (update_states t)"

lemma put_row_keys: "fst ` set (put_row k v rows) = insert k (fst ` set rows)"
  by (induction k v rows rule: put_row.induct) auto

lemma put_row_ordered: "key_ordered rows \<Longrightarrow> key_ordered (put_row k v rows)"
proof (induction k v rows rule: put_row.induct)
  case (2 k v j w rows)
  then show ?case using put_row_keys [of k v rows]
    by (fastforce simp: key_ordered_def)
qed (simp add: key_ordered_def)

lemma map_of_put_row [simp]: "map_of (put_row k v rows) = (map_of rows)(k \<mapsto> v)"
  by (induction k v rows rule: put_row.induct) auto

lemma filter_ordered: "key_ordered rows \<Longrightarrow> key_ordered (filter P rows)"
  by (induction rows) (auto simp: key_ordered_def)

lemma fold_put_ordered:
  "key_ordered rows \<Longrightarrow> key_ordered (fold (\<lambda>x rows. put_row (f x) (g x rows) rows) xs rows)"
  by (induction xs arbitrary: rows) (simp_all add: put_row_ordered)

text \<open>Every statement keeps the tables in the order of their keys, one row for a key.\<close>

lemma tables_ok_kept:
  assumes "tables_ok t"
  shows "tables_ok create" "tables_ok (update_peers now ps t)" "tables_ok (update_usernames us t)"
    "tables_ok (set_update_state ss t)" "tables_ok (delete_update_state ids t)"
    "tables_ok (set_attr a t)" "tables_ok (save now t)"
proof -
  show a: "tables_ok (set_attr a t)" for a using assms by (cases a) (simp_all add: tables_ok_def)
  show "tables_ok (save now t)" by (simp add: save_def a del: set_attr.simps)
  show "tables_ok create" by (simp add: tables_ok_def create_def key_ordered_def)
  show "tables_ok (update_usernames us t)" using assms by (simp add: tables_ok_def update_usernames_def)
  show "tables_ok (delete_update_state ids t)"
    using assms by (simp add: tables_ok_def delete_update_state_def filter_ordered)
  show "tables_ok (update_peers now ps t)"
    using assms fold_put_ordered [of "peers t" fst "\<lambda>(i, h, ty, ph) rows. \<lparr>access_hash = h, peer_type = ty,
        phone_number = ph, last_update_on = now\<rparr>" ps]
    by (simp add: tables_ok_def update_peers_def case_prod_unfold)
  show "tables_ok (set_update_state ss t)"
    using assms fold_put_ordered [of "update_states t" fst
        "\<lambda>x rows. case map_of rows (fst x) of None \<Rightarrow> snd x | Some old \<Rightarrow> merge_state (snd x) old" ss]
    by (simp add: tables_ok_def set_update_state_def case_prod_unfold)
qed

section \<open>Update states\<close>

text \<open>The value of a field after a number of settings: the latest one that has it.\<close>

definition latest :: "(update_state \<Rightarrow> 'a option) \<Rightarrow> int \<Rightarrow> (int \<times> update_state) list \<Rightarrow> 'a option \<Rightarrow> 'a option" where
  "latest f i us old =
     (case filter (\<lambda>(j, u). j = i \<and> f u \<noteq> None) us of [] \<Rightarrow> old | ws \<Rightarrow> f (snd (last ws)))"

lemma latest_simps [simp]:
  "latest f i [] old = old"
  "latest f i (us @ [(j, u)]) old = (if j = i then coalesce (f u) (latest f i us old) else latest f i us old)"
  by (auto simp: latest_def coalesce_def split: list.splits option.splits)

definition field_of :: "(update_state \<Rightarrow> 'a option) \<Rightarrow> int \<Rightarrow> (int \<times> update_state) list \<Rightarrow> 'a option" where
  "field_of f i rows = (case map_of rows i of None \<Rightarrow> None | Some u \<Rightarrow> f u)"

lemma set_states_snoc:
  "update_states (set_update_state (us @ [(j, u)]) t) =
     put_row j (case map_of (update_states (set_update_state us t)) j of None \<Rightarrow> u | Some old \<Rightarrow> merge_state u old)
       (update_states (set_update_state us t))"
  by (simp add: set_update_state_def)

lemma states_fields:
  "i \<in> fst ` set us \<or> map_of (update_states t) i \<noteq> None \<longleftrightarrow> map_of (update_states (set_update_state us t)) i \<noteq> None"
  "field_of pts i (update_states (set_update_state us t)) = latest pts i us (field_of pts i (update_states t))"
  "field_of qts i (update_states (set_update_state us t)) = latest qts i us (field_of qts i (update_states t))"
  "field_of seq i (update_states (set_update_state us t)) = latest seq i us (field_of seq i (update_states t))"
  "field_of state_date i (update_states (set_update_state us t)) =
     latest state_date i us (field_of state_date i (update_states t))"
proof (induction us rule: rev_induct)
  case Nil
  { case 1 show ?case by (simp add: set_update_state_def) next
    case 2 show ?case by (simp add: set_update_state_def) next
    case 3 show ?case by (simp add: set_update_state_def) next
    case 4 show ?case by (simp add: set_update_state_def) next
    case 5 show ?case by (simp add: set_update_state_def) }
next
  case (snoc x us)
  obtain j u where x: "x = (j, u)" by (cases x)
  { case 1 from snoc(1) show ?case by (auto simp: x set_states_snoc) next
    case 2 from snoc(2) show ?case
      by (auto simp: x set_states_snoc field_of_def merge_state_def coalesce_def split: option.splits) next
    case 3 from snoc(3) show ?case
      by (auto simp: x set_states_snoc field_of_def merge_state_def coalesce_def split: option.splits) next
    case 4 from snoc(4) show ?case
      by (auto simp: x set_states_snoc field_of_def merge_state_def coalesce_def split: option.splits) next
    case 5 from snoc(5) show ?case
      by (auto simp: x set_states_snoc field_of_def merge_state_def coalesce_def split: option.splits) }
qed


definition date_before :: "int \<times> update_state \<Rightarrow> int \<times> update_state \<Rightarrow> bool" where
  "date_before r q \<longleftrightarrow>
     (case (state_date (snd r), state_date (snd q)) of
        (None, _) \<Rightarrow> True
      | (Some d, None) \<Rightarrow> False
      | (Some d, Some e) \<Rightarrow> d \<le> e)"

lemma states_listed:
  "mset (get_update_states None t) = mset (update_states t)" "sorted_wrt date_before (get_update_states ids t)"
proof -
  show "mset (get_update_states None t) = mset (update_states t)"
  proof -
    have "mset (filter P xs) + mset (filter (\<lambda>x. \<not> P x) xs) = mset xs" for P and xs :: "(int \<times> update_state) list"
      by (induction xs) auto
    from this [of "\<lambda>r. state_date (snd r) = None"] show ?thesis by (simp add: get_update_states_def Let_def)
  qed
  define rows where "rows = (case ids of None \<Rightarrow> update_states t | Some is \<Rightarrow> filter (\<lambda>(i, _). i \<in> set is) (update_states t))"
  let ?d = "filter (\<lambda>r. state_date (snd r) \<noteq> None) rows"
  have "sorted_wrt (\<lambda>r q. date_of r \<le> date_of q) (sort_key date_of ?d)"
    using sorted_sort_key [of date_of ?d] by (simp add: sorted_map)
  then have "sorted_wrt date_before (sort_key date_of ?d)"
    by (rule sorted_wrt_mono_rel [rotated]) (auto simp: date_before_def date_of_def)
  moreover have "sorted_wrt date_before (filter (\<lambda>r. state_date (snd r) = None) xs)" for xs
    by (induction xs) (auto simp: date_before_def)
  ultimately show "sorted_wrt date_before (get_update_states ids t)"
    unfolding get_update_states_def rows_def [symmetric] Let_def sorted_wrt_append by (auto simp: date_before_def)
qed

text \<open>
  C37. Update states never lose a number.  After any sequence of \<open>set_update_state\<close>, each of the
  four fields of a state has the latest value that was given for it, or the one it had before
  when none was; a state is there when it was there or was set.  Reading them all gives exactly
  the states, in the order of their dates, those without a date first.
\<close>

theorem update_states_merge:
  "dom (map_of (update_states (set_update_state us t))) = fst ` set us \<union> dom (map_of (update_states t)) \<and>
   field_of pts i (update_states (set_update_state us t)) = latest pts i us (field_of pts i (update_states t)) \<and>
   field_of qts i (update_states (set_update_state us t)) = latest qts i us (field_of qts i (update_states t)) \<and>
   field_of seq i (update_states (set_update_state us t)) = latest seq i us (field_of seq i (update_states t)) \<and>
   field_of state_date i (update_states (set_update_state us t)) =
     latest state_date i us (field_of state_date i (update_states t)) \<and>
   mset (get_update_states None (set_update_state us t)) = mset (update_states (set_update_state us t)) \<and>
   sorted_wrt date_before (get_update_states ids (set_update_state us t))"
proof -
  have "dom (map_of (update_states (set_update_state us t))) = fst ` set us \<union> dom (map_of (update_states t))"
    using states_fields(1) [of _ us t] by blast
  then show ?thesis
    using states_fields(2-5) [of i us t] states_listed(1) [of "set_update_state us t"]
      states_listed(2) [of ids "set_update_state us t"] by simp
qed

section \<open>Usernames\<close>

lemma set_picked: "y \<in> set (List.map_filter f xs) \<longleftrightarrow> (\<exists>x \<in> set xs. f x = Some y)"
  by (induction xs) (auto simp: List.map_filter_simps split: option.splits)

lemma set_owners: "(i, r) \<in> set (owners name t) \<longleftrightarrow> (i, name) \<in> set (usernames t) \<and> map_of (peers t) i = Some r"
  unfolding owners_def set_picked by (auto split: if_splits intro!: bexI [of _ "(i, name)"])

lemma newest_owner_Some:
  assumes "newest_owner name t = Some (i, r)"
  shows "(i, r) \<in> set (owners name t)" "\<forall>(j, q) \<in> set (owners name t). last_update_on q \<le> last_update_on r"
proof -
  let ?f = "\<lambda>(i :: int, r). - last_update_on r"
  from assms obtain xs where x: "sort_key ?f (owners name t) = (i, r) # xs"
    by (auto simp: newest_owner_def split: list.splits)
  have s: "set (owners name t) = insert (i, r) (set xs)" using set_sort [of ?f "owners name t"] x by simp
  then show "(i, r) \<in> set (owners name t)" by simp
  have "sorted (map ?f ((i, r) # xs))" using sorted_sort_key [of ?f "owners name t"] x by simp
  then show "\<forall>(j, q) \<in> set (owners name t). last_update_on q \<le> last_update_on r" unfolding s by auto
qed

lemma newest_owner_None: "newest_owner name t = None \<longleftrightarrow> owners name t = []"
proof -
  have "sort_key f xs = [] \<longleftrightarrow> xs = []" for f :: "int \<times> peer_row \<Rightarrow> int" and xs
    by (metis length_0_conv length_sort)
  then show ?thesis by (auto simp: newest_owner_def split: list.splits)
qed

text \<open>Who has a name after \<open>update_usernames\<close>.\<close>

definition has_name :: "(int \<times> pystr option list) list \<Rightarrow> tables \<Rightarrow> int \<Rightarrow> pystr \<Rightarrow> bool" where
  "has_name us t i n \<longleftrightarrow>
     (if i \<in> fst ` set us then \<exists>ns. (i, ns) \<in> set us \<and> Some n \<in> set ns else (i, n) \<in> set (usernames t))"

lemma set_updated_usernames: "(i, n) \<in> set (usernames (update_usernames us t)) \<longleftrightarrow> has_name us t i n"
  by (force simp: update_usernames_def has_name_def set_picked)

text \<open>
  C38. A username resolves to who has it now.  After \<open>update_usernames\<close>, a peer that was named in
  it has exactly the names listed for it, others those they had.  A lookup that succeeds gives a
  known owner of the name that no other known owner is newer than, and whose entry is at most
  eight hours old; it fails when there is no known owner, when one of them is older, or when
  one has no known type.
\<close>

theorem username_resolution:
  "case get_peer_by_username now name (update_usernames us t) of
      Inr p \<Rightarrow> \<exists>i r. get_input_peer i (access_hash r) (peer_type r) = Inr p \<and> map_of (peers t) i = Some r \<and>
        \<bar>now - last_update_on r\<bar> \<le> 8 * 60 * 60 \<and> has_name us t i name \<and>
        (\<forall>j q. has_name us t j name \<longrightarrow> map_of (peers t) j = Some q \<longrightarrow> last_update_on q \<le> last_update_on r)
    | Inl e \<Rightarrow> (\<forall>j q. has_name us t j name \<longrightarrow> map_of (peers t) j \<noteq> Some q) \<or>
        (\<exists>i r. has_name us t i name \<and> map_of (peers t) i = Some r \<and>
          (8 * 60 * 60 < \<bar>now - last_update_on r\<bar> \<or> get_input_peer i (access_hash r) (peer_type r) = Inl e))"
proof -
  let ?t = "update_usernames us t"
  have o: "(j, q) \<in> set (owners name ?t) \<longleftrightarrow> has_name us t j name \<and> map_of (peers t) j = Some q" for j q
    by (simp add: set_owners set_updated_usernames) (simp add: update_usernames_def)
  show ?thesis
  proof (cases "newest_owner name ?t")
    case None
    then have "get_peer_by_username now name ?t = Inl (KeyError 0)" by (simp add: get_peer_by_username_def)
    moreover from None have "\<not> (has_name us t j name \<and> map_of (peers t) j = Some q)" for j q
      unfolding o [symmetric] by (simp add: newest_owner_None)
    ultimately show ?thesis by simp
  next
    case (Some x)
    obtain i r where x: "x = (i, r)" by (cases x)
    note n = newest_owner_Some [OF Some [unfolded x]]
    from n(1) have i: "has_name us t i name" "map_of (peers t) i = Some r" unfolding o by simp_all
    have m: "last_update_on q \<le> last_update_on r" if "has_name us t j name" "map_of (peers t) j = Some q" for j q
      using n(2) o [of j q] that by auto
    have g: "get_peer_by_username now name ?t =
      (if \<bar>now - last_update_on r\<bar> > USERNAME_TTL then Inl (KeyError 0)
       else get_input_peer i (access_hash r) (peer_type r))"
      by (simp add: get_peer_by_username_def Some x)
    show ?thesis
    proof (cases "get_peer_by_username now name ?t")
      case (Inl e)
      with g have "8 * 60 * 60 < \<bar>now - last_update_on r\<bar> \<or> get_input_peer i (access_hash r) (peer_type r) = Inl e"
        by (auto simp: USERNAME_TTL_def split: if_splits)
      with i Inl show ?thesis by auto
    next
      case (Inr p)
      with g have "get_input_peer i (access_hash r) (peer_type r) = Inr p" "\<bar>now - last_update_on r\<bar> \<le> 8 * 60 * 60"
        by (auto simp: USERNAME_TTL_def split: if_splits)
      with i m Inr show ?thesis by auto
    qed
  qed
qed

theorem username_resolution_witness:
  "\<exists>t r. get_peer_by_username 50 [97] (update_usernames [(5, [Some [97], None])] t) = Inr (InputPeerUser 5 9) \<and>
     map_of (peers t) 5 = Some r \<and> \<bar>50 - last_update_on r\<bar> \<le> 8 * 60 * 60"
proof -
  let ?t = "update_peers 40 [(5, 9, ''user'', None)] create" and ?us = "[(5 :: int, [Some [97 :: nat], None])]"
  have e: "get_peer_by_username 50 [97] (update_usernames ?us ?t) = Inr (InputPeerUser 5 9)"
    by (simp add: get_peer_by_username_def newest_owner_def owners_def update_usernames_def update_peers_def
        create_def List.map_filter_def USERNAME_TTL_def get_input_peer_def)
  have "has_name ?us ?t i [97] \<longleftrightarrow> i = 5" for i by (auto simp: has_name_def update_peers_def create_def)
  with username_resolution [where now = 50 and name = "[97]" and us = ?us and t = ?t] e
  obtain r where "map_of (peers ?t) 5 = Some r" "\<bar>50 - last_update_on r\<bar> \<le> 8 * 60 * 60" by auto
  with e show ?thesis by blast
qed

section \<open>Migrations\<close>

text \<open>The schema of a version.\<close>

definition schema_of :: "int \<Rightarrow> schema_item list" where
  "schema_of v = take (nat (v - 2)) all_items"

text \<open>
  A database of any earlier version, with a data centre that is known for its mode, ends at the
  current version and schema; its session keeps everything, and gets its server when it had
  none; its peers stay except for those of version 1.
\<close>

lemma update_db_current:
  assumes "1 \<le> version t" "version t \<le> VERSION" "schema t = schema_of (version t)"
    and "(if test_mode (session t) = Some True then TEST_DC (dc_id (session t)) else PROD_DC (dc_id (session t))) = Some addr"
  shows "\<exists>t1. update_db t = Inr t1 \<and> version t1 = VERSION \<and> schema t1 = all_items \<and>
    peers t1 = (if version t = 1 then [] else peers t) \<and> usernames t1 = usernames t \<and>
    update_states t1 = update_states t \<and>
    session t1 = (if version t = VERSION then session t else (session t)\<lparr>server_address := Some addr,
      port := Some (if test_mode (session t) = Some True then 80 else 443)\<rparr>)"
proof -
  have "version t \<in> {1, 2, 3, 4, 5, 6, 7}" using assms(1,2) by (auto simp: VERSION_def)
  then show ?thesis
    using assms(3,4)
    by (elim insertE) (simp_all add: update_db_def migrate_def add_item_def has_def set_server_def schema_of_def
        all_items_def VERSION_def Let_def eval_nat_numeral split: if_splits)
qed

end
