(* ===== verification/Aes128.thy ===== *)
theory Aes128
  imports Aes_Modes
begin

text \<open>
  \<open>123Cloud/desktop/backend/app/pan115_cipher.py\<close>, the AES-128 block cipher.  The module
  computes with numbers below 256 in lists; here they are bytes, so the masks with
  \<open>0xFF\<close> are the width of the type.  The S-box is built by the program from inverses in
  GF(2^8); that it is a permutation rests on the arithmetic of that field, proved here
  from the two multiplication loops of the module.
\<close>

section \<open>Multiplication and the S-box\<close>

definition xtime :: "byte \<Rightarrow> byte" where
  "xtime v = (let high = v AND 0x80; v = push_bit 1 v in if high \<noteq> 0 then v XOR 0x1B else v)"

text \<open>The function \<open>gmul\<close> inside \<open>_build_sbox\<close>: eight rounds.\<close>

fun sbox_gmul_loop :: "nat \<Rightarrow> byte \<Rightarrow> byte \<Rightarrow> byte \<Rightarrow> byte" where
  "sbox_gmul_loop 0 a b p = p"
| "sbox_gmul_loop (Suc n) a b p =
     (let p = (if b AND 1 \<noteq> 0 then p XOR a else p);
          high = a AND 0x80;
          a = push_bit 1 a;
          a = (if high \<noteq> 0 then a XOR 0x1B else a)
      in sbox_gmul_loop n a (drop_bit 1 b) p)"

definition sbox_gmul :: "byte \<Rightarrow> byte \<Rightarrow> byte" where
  "sbox_gmul a b = sbox_gmul_loop 8 a b 0"

definition sbox_inverse :: "byte \<Rightarrow> byte" where
  "sbox_inverse v =
     (if v = 0 then 0
      else case find (\<lambda>c. sbox_gmul v c = 1) (map word_of_int [1..255]) of None \<Rightarrow> 0 | Some c \<Rightarrow> c)"

definition rotate1 :: "byte \<Rightarrow> byte" where
  "rotate1 x = push_bit 1 x OR drop_bit 7 x"

definition sbox_transform :: "byte \<Rightarrow> byte" where
  "sbox_transform x =
     x XOR rotate1 x XOR rotate1 (rotate1 x) XOR rotate1 (rotate1 (rotate1 x))
       XOR rotate1 (rotate1 (rotate1 (rotate1 x))) XOR 0x63"

definition build_sbox :: bytes where
  "build_sbox = map (\<lambda>value. sbox_transform (sbox_inverse (word_of_int value))) [0..255]"

definition SBOX :: bytes where "SBOX = build_sbox"

text \<open>\<open>for _i, _v in enumerate(_SBOX): _SBOX_INV[_v] = _i\<close>.\<close>

definition invert_table :: "bytes \<Rightarrow> bytes" where
  "invert_table xs = foldl (\<lambda>t (i, v). t[unat v := of_nat i]) (replicate 256 0) (enumerate 0 xs)"

definition SBOX_INV :: bytes where "SBOX_INV = invert_table SBOX"

text \<open>\<open>_gmul\<close>: it goes on while there are bits left in the second factor.\<close>

function gmul_loop :: "nat \<Rightarrow> byte \<Rightarrow> byte \<Rightarrow> byte" where
  "gmul_loop b a product =
     (if b = 0 then product
      else gmul_loop (b div 2) (xtime a) (if b mod 2 \<noteq> 0 then product XOR a else product))"
  by pat_completeness auto
termination
  by (relation "measure fst") auto

declare gmul_loop.simps [simp del]

definition gmul :: "byte \<Rightarrow> nat \<Rightarrow> byte" where
  "gmul a b = gmul_loop b a 0"

definition RCON :: bytes where
  "RCON = [0x01, 0x02, 0x04, 0x08, 0x10, 0x20, 0x40, 0x80, 0x1B, 0x36]"

section \<open>The cipher\<close>

text \<open>The state is four rows.  \<open>block[i::4]\<close> is row \<open>i\<close>.\<close>

definition initial_state :: "bytes \<Rightarrow> bytes list" where
  "initial_state blk =
     map (\<lambda>i. map (\<lambda>k. blk ! (i + 4 * k)) [0..<(length blk + 3 - i) div 4]) [0..<4]"

definition state_bytes :: "bytes list \<Rightarrow> bytes" where
  "state_bytes st = concat (map (\<lambda>col. map (\<lambda>row. st ! row ! col) [0..<4]) [0..<4])"

text \<open>A loop over the four columns that assigns to one row.\<close>

definition on_columns :: "(nat \<Rightarrow> byte \<Rightarrow> byte) \<Rightarrow> bytes \<Rightarrow> bytes" where
  "on_columns f row = map (\<lambda>col. f col (row ! col)) [0..<4] @ drop 4 row"

definition add_round_key :: "bytes \<Rightarrow> bytes list \<Rightarrow> bytes list" where
  "add_round_key keys st =
     map (\<lambda>row. on_columns (\<lambda>col v. v XOR keys ! (col * 4 + row)) (st ! row)) [0..<4]"

definition sub_bytes :: "bytes list \<Rightarrow> bytes list" where
  "sub_bytes st = map (map (\<lambda>b. SBOX ! unat b)) st"

definition inv_sub_bytes :: "bytes list \<Rightarrow> bytes list" where
  "inv_sub_bytes st = map (map (\<lambda>b. SBOX_INV ! unat b)) st"

definition shift_rows :: "bytes list \<Rightarrow> bytes list" where
  "shift_rows st = st ! 0 # map (\<lambda>row. drop row (st ! row) @ take row (st ! row)) [1..<4]"

definition inv_shift_rows :: "bytes list \<Rightarrow> bytes list" where
  "inv_shift_rows st =
     st ! 0 # map (\<lambda>row. let r = st ! row in drop (length r - row) r @ take (length r - row) r) [1..<4]"

definition mix_column :: "bytes \<Rightarrow> bytes" where
  "mix_column a =
     [gmul (a ! 0) 2 XOR gmul (a ! 1) 3 XOR a ! 2 XOR a ! 3,
      a ! 0 XOR gmul (a ! 1) 2 XOR gmul (a ! 2) 3 XOR a ! 3,
      a ! 0 XOR a ! 1 XOR gmul (a ! 2) 2 XOR gmul (a ! 3) 3,
      gmul (a ! 0) 3 XOR a ! 1 XOR a ! 2 XOR gmul (a ! 3) 2]"

definition inv_mix_column :: "bytes \<Rightarrow> bytes" where
  "inv_mix_column a =
     [gmul (a ! 0) 14 XOR gmul (a ! 1) 11 XOR gmul (a ! 2) 13 XOR gmul (a ! 3) 9,
      gmul (a ! 0) 9 XOR gmul (a ! 1) 14 XOR gmul (a ! 2) 11 XOR gmul (a ! 3) 13,
      gmul (a ! 0) 13 XOR gmul (a ! 1) 9 XOR gmul (a ! 2) 14 XOR gmul (a ! 3) 11,
      gmul (a ! 0) 11 XOR gmul (a ! 1) 13 XOR gmul (a ! 2) 9 XOR gmul (a ! 3) 14]"

definition mix_columns_with :: "(bytes \<Rightarrow> bytes) \<Rightarrow> bytes list \<Rightarrow> bytes list" where
  "mix_columns_with f st =
     map (\<lambda>row. on_columns (\<lambda>col v. f (map (\<lambda>i. st ! i ! col) [0..<4]) ! row) (st ! row)) [0..<4]"

definition mix_columns :: "bytes list \<Rightarrow> bytes list" where
  "mix_columns st = mix_columns_with mix_column st"

definition inv_mix_columns :: "bytes list \<Rightarrow> bytes list" where
  "inv_mix_columns st = mix_columns_with inv_mix_column st"

text \<open>The key schedule of \<open>__init__\<close>: one round key per pass, then four more words.\<close>

definition add_words :: "nat \<Rightarrow> bytes list \<Rightarrow> bytes list" where
  "add_words round_index words =
     (let prev = last words;
          transformed = [SBOX ! unat (prev ! 1) XOR RCON ! round_index, SBOX ! unat (prev ! 2),
                         SBOX ! unat (prev ! 3), SBOX ! unat (prev ! 0)]
      in foldl (\<lambda>ws i. ws @ [xor_bytes (ws ! (length ws - 4)) (if i = 0 then transformed else last ws)])
           words [0..<4])"

fun key_rounds :: "nat \<Rightarrow> nat \<Rightarrow> bytes list \<Rightarrow> bytes list" where
  "key_rounds 0 round_index words = []"
| "key_rounds (Suc n) round_index words =
     concat (take 4 (drop (round_index * 4) words)) #
       (if round_index = 10 then [] else key_rounds n (round_index + 1) (add_words round_index words))"

definition AES128_new :: "bytes \<Rightarrow> bytes list res" where
  "AES128_new key =
     (if length key \<noteq> 16 then Inl ValueError
      else Inr (key_rounds 11 0 (map (\<lambda>i. pyslice (i * 4) ((i + 1) * 4) key) [0..<4])))"

definition encrypt_round :: "bytes list \<Rightarrow> bytes list \<Rightarrow> nat \<Rightarrow> bytes list" where
  "encrypt_round keys st round_index =
     add_round_key (keys ! round_index) (mix_columns (shift_rows (sub_bytes st)))"

definition decrypt_round :: "bytes list \<Rightarrow> bytes list \<Rightarrow> nat \<Rightarrow> bytes list" where
  "decrypt_round keys st round_index =
     inv_mix_columns (add_round_key (keys ! round_index) (inv_sub_bytes (inv_shift_rows st)))"

text \<open>A blk that is too short lacks a column of some row.\<close>

definition encrypt_block :: "bytes list \<Rightarrow> bytes \<Rightarrow> bytes res" where
  "encrypt_block keys blk =
     (if length blk < 16 then Inl IndexError
      else let st = add_round_key (keys ! 0) (initial_state blk);
               st = foldl (encrypt_round keys) st [1..<10]
           in Inr (state_bytes (add_round_key (keys ! 10) (shift_rows (sub_bytes st)))))"

definition decrypt_block :: "bytes list \<Rightarrow> bytes \<Rightarrow> bytes res" where
  "decrypt_block keys blk =
     (if length blk < 16 then Inl IndexError
      else let st = add_round_key (keys ! 10) (initial_state blk);
               st = foldl (decrypt_round keys) st (rev [1..<10])
           in Inr (state_bytes (add_round_key (keys ! 0) (inv_sub_bytes (inv_shift_rows st)))))"

section \<open>Arithmetic of the field\<close>

lemma and_bit: "((a :: byte) AND 1 \<noteq> 0) = bit a 0" "((a :: byte) AND 128 \<noteq> 0) = bit a 7"
  "((a :: byte) AND 1 = 0) = (\<not> bit a 0)" "((a :: byte) AND 128 = 0) = (\<not> bit a 7)"
  using and_exp_eq_0_iff_not_bit [of a 0] and_exp_eq_0_iff_not_bit [of a 7] by simp_all

lemma xtime_zero [simp]: "xtime 0 = 0" by (simp add: xtime_def)

lemma xtime_xor: "xtime (a XOR b) = xtime a XOR xtime b"
  by (simp add: xtime_def Let_def and_bit bit_xor_iff push_bit_xor ac_simps)

lemma sbox_gmul_step:
  "sbox_gmul_loop (Suc n) a b p = sbox_gmul_loop n (xtime a) (drop_bit 1 b) (if b AND 1 \<noteq> 0 then p XOR a else p)"
  by (simp add: xtime_def Let_def)

declare sbox_gmul_loop.simps(2) [simp del]

lemma sbox_gmul_start: "sbox_gmul_loop n a b p = p XOR sbox_gmul_loop n a b 0"
proof (induction n arbitrary: a b p)
  case (Suc n)
  show ?case
    unfolding sbox_gmul_step
    by (subst Suc.IH, subst (2) Suc.IH) (simp add: xor.assoc)
qed simp

lemma sbox_gmul_stop: "sbox_gmul_loop n a 0 p = p"
  by (induction n arbitrary: a) (simp_all add: sbox_gmul_step)

lemma sbox_gmul_numeral:
  "sbox_gmul_loop (numeral k) a b p =
     (if b = 0 then p
      else sbox_gmul_loop (pred_numeral k) (xtime a) (drop_bit 1 b) (if b AND 1 \<noteq> 0 then p XOR a else p))"
  by (simp add: numeral_eq_Suc sbox_gmul_step sbox_gmul_stop)

lemma sbox_gmul_one: "sbox_gmul_loop (Suc 0) a b p = (if b AND 1 \<noteq> 0 then p XOR a else p)"
  by (simp add: sbox_gmul_step)

lemma xtime_numeral:
  "xtime (numeral k) =
     (if (numeral k :: byte) AND 128 = 0 then push_bit 1 (numeral k) else push_bit 1 (numeral k) XOR 27)"
  "xtime 1 = 2"
  by (simp_all add: xtime_def)

definition inverse_pairs :: "(byte \<times> byte) list" where
  "inverse_pairs =
     [
(1, 1), (2, 141), (3, 246), (4, 203), (5, 82), (6, 123), (7, 209), (8, 232), (9, 79), (10,
      41), (11, 192), (12, 176), (13, 225), (14, 229), (15, 199), (16, 116), (17, 180), (18,
      170), (19, 75), (20, 153), (21, 43), (22, 96), (23, 95), (24, 88), (25, 63), (26, 253),
      (27, 204), (28, 255), (29, 64), (30, 238), (31, 178), (32, 58), (33, 110), (34, 90), (35,
      241), (36, 85), (37, 77), (38, 168), (39, 201), (40, 193), (41, 10), (42, 152), (43, 21),
      (44, 48), (45, 68), (46, 162), (47, 194), (48, 44), (49, 69), (50, 146), (51, 108), (52,
      243), (53, 57), (54, 102), (55, 66), (56, 242), (57, 53), (58, 32), (59, 111), (60, 119),
      (61, 187), (62, 89), (63, 25), (64, 29), (65, 254), (66, 55), (67, 103), (68, 45), (69,
      49), (70, 245), (71, 105), (72, 167), (73, 100), (74, 171), (75, 19), (76, 84), (77, 37),
      (78, 233), (79, 9), (80, 237), (81, 92), (82, 5), (83, 202), (84, 76), (85, 36), (86,
      135), (87, 191), (88, 24), (89, 62), (90, 34), (91, 240), (92, 81), (93, 236), (94, 97),
      (95, 23), (96, 22), (97, 94), (98, 175), (99, 211), (100, 73), (101, 166), (102, 54),
      (103, 67), (104, 244), (105, 71), (106, 145), (107, 223), (108, 51), (109, 147), (110,
      33), (111, 59), (112, 121), (113, 183), (114, 151), (115, 133), (116, 16), (117, 181),
      (118, 186), (119, 60), (120, 182), (121, 112), (122, 208), (123, 6), (124, 161), (125,
      250), (126, 129), (127, 130), (128, 131), (129, 126), (130, 127), (131, 128), (132, 150),
      (133, 115), (134, 190), (135, 86), (136, 155), (137, 158), (138, 149), (139, 217), (140,
      247), (141, 2), (142, 185), (143, 164), (144, 222), (145, 106), (146, 50), (147, 109),
      (148, 216), (149, 138), (150, 132), (151, 114), (152, 42), (153, 20), (154, 159), (155,
      136), (156, 249), (157, 220), (158, 137), (159, 154), (160, 251), (161, 124), (162, 46),
      (163, 195), (164, 143), (165, 184), (166, 101), (167, 72), (168, 38), (169, 200), (170,
      18), (171, 74), (172, 206), (173, 231), (174, 210), (175, 98), (176, 12), (177, 224),
      (178, 31), (179, 239), (180, 17), (181, 117), (182, 120), (183, 113), (184, 165), (185,
      142), (186, 118), (187, 61), (188, 189), (189, 188), (190, 134), (191, 87), (192, 11),
      (193, 40), (194, 47), (195, 163), (196, 218), (197, 212), (198, 228), (199, 15), (200,
      169), (201, 39), (202, 83), (203, 4), (204, 27), (205, 252), (206, 172), (207, 230), (208,
      122), (209, 7), (210, 174), (211, 99), (212, 197), (213, 219), (214, 226), (215, 234),
      (216, 148), (217, 139), (218, 196), (219, 213), (220, 157), (221, 248), (222, 144), (223,
      107), (224, 177), (225, 13), (226, 214), (227, 235), (228, 198), (229, 14), (230, 207),
      (231, 173), (232, 8), (233, 78), (234, 215), (235, 227), (236, 93), (237, 80), (238, 30),
      (239, 179), (240, 91), (241, 35), (242, 56), (243, 52), (244, 104), (245, 70), (246, 3),
      (247, 140), (248, 221), (249, 156), (250, 125), (251, 160), (252, 205), (253, 26), (254,
      65), (255, 28)]"

lemma inverse_pairs_ok: "list_all (\<lambda>(v, c). sbox_gmul v c = 1) inverse_pairs"
  by (simp add: inverse_pairs_def sbox_gmul_def sbox_gmul_numeral sbox_gmul_one xtime_numeral)

lemma sbox_gmul_Suc:
  "sbox_gmul_loop (Suc n) a b 0 = (if b AND 1 \<noteq> 0 then a else 0) XOR sbox_gmul_loop n (xtime a) (drop_bit 1 b) 0"
  unfolding sbox_gmul_step by (subst sbox_gmul_start) simp

text \<open>Both sums run over the bits of one factor, so they commute with every linear map
  that commutes with \<open>xtime\<close>.\<close>

lemma sbox_gmul_linear:
  assumes "\<And>x y. f (x XOR y) = f x XOR f y" "\<And>x. f (xtime x) = xtime (f x)"
  shows "f (sbox_gmul_loop n a b 0) = sbox_gmul_loop n (f a) b 0"
proof -
  have "f 0 = 0" using assms(1) [of 0 0] by simp
  then show ?thesis
    by (induction n arbitrary: a b) (simp_all add: sbox_gmul_Suc assms)
qed

lemma sbox_gmul_xor: "sbox_gmul_loop n (x XOR y) b 0 = sbox_gmul_loop n x b 0 XOR sbox_gmul_loop n y b 0"
  by (induction n arbitrary: x y b) (simp_all add: sbox_gmul_Suc xtime_xor ac_simps)

lemma sbox_gmul_xtime: "sbox_gmul_loop n (xtime a) b 0 = xtime (sbox_gmul_loop n a b 0)"
  by (rule sbox_gmul_linear [symmetric]) (simp_all add: xtime_xor)

lemma sbox_gmul_swap: "sbox_gmul (sbox_gmul a b) c = sbox_gmul (sbox_gmul a c) b"
  unfolding sbox_gmul_def
  by (rule sbox_gmul_linear) (simp_all add: sbox_gmul_xor sbox_gmul_xtime)

lemma byte_bits: "(x :: byte) = y" if "\<forall>n \<in> {0, 1, 2, 3, 4, 5, 6, 7}. bit x n = bit y n"
  using that by (intro bit_word_eqI) (auto simp: less_Suc_eq eval_nat_numeral)

lemma sbox_gmul_numeral0:
  "sbox_gmul_loop (numeral k) a b 0 =
     (if b AND 1 \<noteq> 0 then a else 0) XOR sbox_gmul_loop (pred_numeral k) (xtime a) (drop_bit 1 b) 0"
  by (simp add: numeral_eq_Suc sbox_gmul_Suc)

lemma bit_if: "bit (if c then w else 0) n = (c \<and> bit w n)"
  by simp

lemma sbox_gmul_1: "sbox_gmul 1 b = b"
proof -
  have "sbox_gmul 1 b =
    (if bit b 0 then 1 else 0) XOR (if bit b 1 then 2 else 0) XOR (if bit b 2 then 4 else 0) XOR
    (if bit b 3 then 8 else 0) XOR (if bit b 4 then 16 else 0) XOR (if bit b 5 then 32 else 0) XOR
    (if bit b 6 then 64 else 0) XOR (if bit b 7 then 128 else 0)"
    by (simp add: sbox_gmul_def sbox_gmul_numeral0 sbox_gmul_Suc xtime_numeral and_bit bit_drop_bit_eq numeral_eq_Suc
        split del: if_split)
  then show ?thesis
    by (intro byte_bits) (simp add: bit_xor_iff bit_if split del: if_split)
qed

lemma sbox_gmul_commute: "sbox_gmul a b = sbox_gmul b a"
  using sbox_gmul_swap [of 1 a b] by (simp add: sbox_gmul_1)

lemma inverse_unique:
  assumes "sbox_gmul v c = 1" "sbox_gmul w c = 1"
  shows "v = w"
  using sbox_gmul_swap [of w c v] sbox_gmul_swap [of v c w] sbox_gmul_commute [of v w] assms
  by (simp add: sbox_gmul_1)

lemma byte_int: "\<exists>n. (v :: byte) = word_of_int n \<and> 0 \<le> n \<and> n \<le> 255"
proof -
  have "uint v \<le> 255" using uint_byte_bounds(2) [of v] by linarith
  then show ?thesis by (intro exI [of _ "uint v"]) simp
qed

lemma inverse_pairs_all: "map fst inverse_pairs = map word_of_int [1..255]"
  by (simp add: inverse_pairs_def upto_rec_numeral upto_rec1 [of 1])

lemma find_some: "x \<in> set xs \<Longrightarrow> P x \<Longrightarrow> \<exists>y. find P xs = Some y \<and> P y"
  by (induction xs) auto

lemma sbox_inverse_ok:
  assumes "v \<noteq> 0"
  shows "sbox_gmul v (sbox_inverse v) = 1"
proof -
  obtain n where n: "v = word_of_int n" "0 \<le> n" "n \<le> 255" using byte_int by blast
  then have "n \<noteq> 0" using assms by auto
  then have "v \<in> set (map fst inverse_pairs)" using n unfolding inverse_pairs_all by simp
  then obtain c where "(v, c) \<in> set inverse_pairs" by auto
  then have c: "sbox_gmul v c = 1" using inverse_pairs_ok by (auto simp: list_all_iff)
  obtain m where m: "c = word_of_int m" "0 \<le> m" "m \<le> 255" using byte_int by blast
  have "m \<noteq> 0" using m c by (auto simp: sbox_gmul_def sbox_gmul_stop)
  then have "c \<in> set (map word_of_int [1..255])" using m by simp
  from find_some [OF this, of "\<lambda>c. sbox_gmul v c = 1", OF c] show ?thesis
    using assms by (auto simp: sbox_inverse_def)
qed

lemma sbox_inverse_inj: "sbox_inverse v = sbox_inverse w \<Longrightarrow> v = w"
proof (cases "v = 0 \<or> w = 0")
  case True
  have "sbox_inverse x \<noteq> 0" if "x \<noteq> 0" for x
    using sbox_inverse_ok [OF that] by (auto simp: sbox_gmul_def sbox_gmul_stop)
  moreover assume "sbox_inverse v = sbox_inverse w"
  ultimately show ?thesis using True by (metis sbox_inverse_def)
next
  case False
  moreover assume "sbox_inverse v = sbox_inverse w"
  ultimately show ?thesis using sbox_inverse_ok [of v] sbox_inverse_ok [of w] inverse_unique by metis
qed

lemma bit_rotate1: "bit (rotate1 x) n = (n < 8 \<and> (if n = 0 then bit x 7 else bit x (n - 1)))"
  using bit_imp_le_length [of x "7 + n"]
  by (simp only: rotate1_def bit_or_iff bit_push_bit_iff bit_drop_bit_eq) (auto dest: bit_imp_le_length)

lemma rotate1_xor: "rotate1 (x XOR y) = rotate1 x XOR rotate1 y"
  by (rule bit_word_eqI) (simp add: bit_rotate1 bit_xor_iff)

lemma rotate1_8: "rotate1 (rotate1 (rotate1 (rotate1 (rotate1 (rotate1 (rotate1 (rotate1 x))))))) = x"
  by (rule byte_bits) (simp add: bit_rotate1)

definition sbox_untransform :: "byte \<Rightarrow> byte" where
  "sbox_untransform y =
     (let r = rotate1 y; r3 = rotate1 (rotate1 r)
      in r XOR r3 XOR rotate1 (rotate1 (rotate1 r3)))"

lemma untransform: "sbox_untransform (sbox_transform x XOR 0x63) = x"
  by (simp add: sbox_untransform_def sbox_transform_def Let_def rotate1_xor rotate1_8 xor.assoc xor.left_commute)

lemma sbox_transform_inj: "sbox_transform x = sbox_transform y \<Longrightarrow> x = y"
  by (metis untransform)
section \<open>The S-box is a permutation\<close>

lemma length_SBOX [simp]: "length SBOX = 256"
  by (simp add: SBOX_def build_sbox_def)

lemma SBOX_nth: "n < 256 \<Longrightarrow> SBOX ! n = sbox_transform (sbox_inverse (of_nat n))"
  by (simp add: SBOX_def build_sbox_def)

lemma distinct_SBOX: "distinct (map unat SBOX)"
proof -
  have "inj_on (\<lambda>n :: int. word_of_int n :: byte) {0..255}"
    by (intro inj_onI) (auto simp: word_of_int_eq_iff take_bit_eq_mod)
  then have "inj_on (\<lambda>n :: int. sbox_transform (sbox_inverse (word_of_int n))) (set [0..255])"
    by (auto intro!: inj_onI dest!: sbox_transform_inj sbox_inverse_inj dest: inj_onD)
  then show ?thesis
    by (simp add: SBOX_def build_sbox_def distinct_map comp_def inj_on_def flip: word_unat_eq_iff)
qed

lemma length_invert_table [simp]: "length (invert_table xs) = 256"
  by (induction xs rule: rev_induct) (simp_all add: invert_table_def enumerate_append_eq)

lemma invert_table_nth:
  "distinct (map unat xs) \<Longrightarrow> i < length xs \<Longrightarrow> invert_table xs ! unat (xs ! i) = of_nat i"
proof (induction xs rule: rev_induct)
  case (snoc x xs)
  have "invert_table (xs @ [x]) = (invert_table xs)[unat x := of_nat (length xs)]"
    by (simp add: invert_table_def enumerate_append_eq)
  moreover have "unat x < 256" using unsigned_less [of x] by simp
  moreover have "unat x \<noteq> unat (xs ! i)" if "i < length xs" using snoc.prems(1) that by auto
  ultimately show ?case using snoc by (cases "i = length xs") (auto simp: nth_append less_Suc_eq)
qed simp

lemma SBOX_back: "SBOX_INV ! unat (SBOX ! unat b) = b"
  using invert_table_nth [OF distinct_SBOX, of "unat b"] unsigned_less [of b]
  by (simp add: SBOX_INV_def)

section \<open>Decryption\<close>

definition square :: "bytes list \<Rightarrow> bool" where
  "square st \<longleftrightarrow> length st = 4 \<and> (\<forall>row \<in> set st. length row = 4)"

lemma length_4: "length xs = 4 \<longleftrightarrow> (\<exists>a b c d. xs = [a, b, c, d])"
  by (auto simp: length_Suc_conv numeral_eq_Suc)

lemma square_cases:
  assumes "square st"
  obtains a0 a1 a2 a3 b0 b1 b2 b3 c0 c1 c2 c3 d0 d1 d2 d3 where
    "st = [[a0, a1, a2, a3], [b0, b1, b2, b3], [c0, c1, c2, c3], [d0, d1, d2, d3]]"
  using assms unfolding square_def length_4 by auto

lemma upt_4: "[0..<4] = [0, 1, 2, 3]" "[1..<4] = [1, 2, 3]" "[Suc 0..<4] = [1, 2, 3]"
  by (simp_all add: upt_rec)

lemma on_columns_4: "on_columns f [a, b, c, d] = [f 0 a, f 1 b, f 2 c, f 3 d]"
  by (simp add: on_columns_def upt_4)

lemma gmul_numeral:
  "gmul a 2 = xtime a" "gmul a 3 = xtime a XOR a"
  "gmul a 9 = a XOR xtime (xtime (xtime a))"
  "gmul a 11 = a XOR xtime a XOR xtime (xtime (xtime a))"
  "gmul a 13 = a XOR xtime (xtime a) XOR xtime (xtime (xtime a))"
  "gmul a 14 = xtime a XOR xtime (xtime a) XOR xtime (xtime (xtime a))"
  by (simp_all add: gmul_def gmul_loop.simps ac_simps)

lemma mix_column_back: "inv_mix_column (mix_column [a, b, c, d]) = [a, b, c, d]"
  by (simp add: mix_column_def inv_mix_column_def gmul_numeral xtime_xor xor.assoc xor.commute xor.left_commute)

lemma xor_self_left: "a XOR (a XOR b) = (b :: byte)"
  by (simp flip: xor.assoc)


text \<open>The four steps on the sixteen bytes.\<close>

lemma add_round_key_4:
  "add_round_key keys [[a0, a1, a2, a3], [b0, b1, b2, b3], [c0, c1, c2, c3], [d0, d1, d2, d3]] =
    [[a0 XOR keys ! 0, a1 XOR keys ! 4, a2 XOR keys ! 8, a3 XOR keys ! 12],
     [b0 XOR keys ! 1, b1 XOR keys ! 5, b2 XOR keys ! 9, b3 XOR keys ! 13],
     [c0 XOR keys ! 2, c1 XOR keys ! 6, c2 XOR keys ! 10, c3 XOR keys ! 14],
     [d0 XOR keys ! 3, d1 XOR keys ! 7, d2 XOR keys ! 11, d3 XOR keys ! 15]]"
  by (simp add: add_round_key_def upt_4 on_columns_4 numeral_2_eq_2)

lemma shift_rows_4:
  "shift_rows [[a0, a1, a2, a3], [b0, b1, b2, b3], [c0, c1, c2, c3], [d0, d1, d2, d3]] =
    [[a0, a1, a2, a3], [b1, b2, b3, b0], [c2, c3, c0, c1], [d3, d0, d1, d2]]"
  "inv_shift_rows [[a0, a1, a2, a3], [b0, b1, b2, b3], [c0, c1, c2, c3], [d0, d1, d2, d3]] =
    [[a0, a1, a2, a3], [b3, b0, b1, b2], [c2, c3, c0, c1], [d1, d2, d3, d0]]"
  by (simp_all add: shift_rows_def inv_shift_rows_def upt_4 Let_def)

lemma mix_columns_4:
  "mix_columns_with f [[a0, a1, a2, a3], [b0, b1, b2, b3], [c0, c1, c2, c3], [d0, d1, d2, d3]] =
     map (\<lambda>i. map (\<lambda>x. f x ! i) [[a0, b0, c0, d0], [a1, b1, c1, d1], [a2, b2, c2, d2], [a3, b3, c3, d3]]) [0..<4]"
  by (simp add: mix_columns_with_def upt_4 on_columns_4)

lemma mix_column_shape: "\<exists>p q r s. mix_column x = [p, q, r, s]"
  by (simp add: mix_column_def)

lemma steps_square [simp]:
  assumes "square st"
  shows "square (add_round_key keys st)" "square (sub_bytes st)" "square (shift_rows st)" "square (mix_columns st)"
proof -
  obtain a0 a1 a2 a3 b0 b1 b2 b3 c0 c1 c2 c3 d0 d1 d2 d3 where
    st: "st = [[a0, a1, a2, a3], [b0, b1, b2, b3], [c0, c1, c2, c3], [d0, d1, d2, d3]]"
    by (rule square_cases [OF assms])
  show "square (add_round_key keys st)" unfolding st add_round_key_4 by (simp add: square_def)
  show "square (shift_rows st)" unfolding st shift_rows_4 by (simp add: square_def)
  show "square (mix_columns st)"
    unfolding st mix_columns_def mix_columns_4 by (simp add: square_def upt_4)
  show "square (sub_bytes st)" using assms by (auto simp: square_def sub_bytes_def)
qed

lemma steps_back:
  assumes "square st"
  shows "add_round_key keys (add_round_key keys st) = st" "inv_sub_bytes (sub_bytes st) = st"
    "inv_shift_rows (shift_rows st) = st" "inv_mix_columns (mix_columns st) = st"
proof -
  obtain a0 a1 a2 a3 b0 b1 b2 b3 c0 c1 c2 c3 d0 d1 d2 d3 where
    st: "st = [[a0, a1, a2, a3], [b0, b1, b2, b3], [c0, c1, c2, c3], [d0, d1, d2, d3]]"
    by (rule square_cases [OF assms])
  show "add_round_key keys (add_round_key keys st) = st" unfolding st add_round_key_4 by (simp add: xor.assoc)
  show "inv_shift_rows (shift_rows st) = st" unfolding st shift_rows_4 by simp
  show "inv_sub_bytes (sub_bytes st) = st"
    by (simp add: sub_bytes_def inv_sub_bytes_def comp_def SBOX_back)
  have m: "inv_mix_column (mix_column [p, q, r, s]) ! i = [p, q, r, s] ! i" for p q r s i
    by (simp only: mix_column_back)
  obtain p0 q0 r0 s0 where 0: "mix_column [a0, b0, c0, d0] = [p0, q0, r0, s0]" using mix_column_shape by blast
  obtain p1 q1 r1 s1 where 1: "mix_column [a1, b1, c1, d1] = [p1, q1, r1, s1]" using mix_column_shape by blast
  obtain p2 q2 r2 s2 where 2: "mix_column [a2, b2, c2, d2] = [p2, q2, r2, s2]" using mix_column_shape by blast
  obtain p3 q3 r3 s3 where 3: "mix_column [a3, b3, c3, d3] = [p3, q3, r3, s3]" using mix_column_shape by blast
  have "inv_mix_columns (mix_columns st) = inv_mix_columns [[p0, p1, p2, p3], [q0, q1, q2, q3], [r0, r1, r2, r3], [s0, s1, s2, s3]]"
    unfolding st mix_columns_def mix_columns_4 by (simp add: upt_4 0 1 2 3)
  also have "\<dots> = st"
    unfolding inv_mix_columns_def mix_columns_4
    by (simp add: upt_4 st mix_column_back flip: 0 1 2 3)
  finally show "inv_mix_columns (mix_columns st) = st" .
qed


lemma length_16:
  "length xs = 16 \<longleftrightarrow> (\<exists>a b c d e f g h i j k l m n p q. xs = [a, b, c, d, e, f, g, h, i, j, k, l, m, n, p, q])"
  by (auto simp: length_Suc_conv numeral_eq_Suc)

lemma block_of_state:
  assumes "square st"
  shows "length (state_bytes st) = 16" "initial_state (state_bytes st) = st"
  by (rule square_cases [OF assms], simp add: state_bytes_def initial_state_def upt_4)+

lemma state_of_block:
  assumes "length blk = 16"
  shows "square (initial_state blk)" "state_bytes (initial_state blk) = blk"
  using assms unfolding length_16 by (auto simp: state_bytes_def initial_state_def upt_4 square_def)

lemma rounds_back:
  "square st \<Longrightarrow> square (foldl (encrypt_round keys) st ns) \<and>
     foldl (decrypt_round keys) (shift_rows (sub_bytes (foldl (encrypt_round keys) st ns))) (rev ns)
       = shift_rows (sub_bytes st)"
  by (induction ns rule: rev_induct) (simp_all add: encrypt_round_def decrypt_round_def steps_back)

lemma aes128_cipher: "block_cipher (encrypt_block keys) (decrypt_block keys)"
proof
  fix blk :: bytes
  assume l: "length blk = 16"
  define st where "st = add_round_key (keys ! 0) (initial_state blk)"
  have st: "square st" using state_of_block(1) [OF l] by (simp add: st_def)
  note r = rounds_back [OF this, of keys "[1..<10]"]
  let ?y = "add_round_key (keys ! 10) (shift_rows (sub_bytes (foldl (encrypt_round keys) st [1..<10])))"
  have y: "square ?y" using r by simp
  have "encrypt_block keys blk = Inr (state_bytes ?y)"
    using l by (simp add: encrypt_block_def st_def)
  moreover have "decrypt_block keys (state_bytes ?y) = Inr blk"
    using l r st block_of_state [OF y] state_of_block [OF l]
    by (simp add: decrypt_block_def Let_def steps_back st_def)
  ultimately show "\<exists>y. encrypt_block keys blk = Inr y \<and> length y = 16 \<and> decrypt_block keys y = Inr blk"
    using block_of_state(1) [OF y] by blast
qed

section \<open>The key schedule\<close>

definition words_ok :: "nat \<Rightarrow> bytes list \<Rightarrow> bool" where
  "words_ok n ws \<longleftrightarrow> length ws = n \<and> 4 \<le> n \<and> (\<forall>w \<in> set ws. length w = 4)"

lemma words_ok_step:
  "words_ok n ws \<Longrightarrow> length t = 4 \<Longrightarrow>
   words_ok (n + length is)
     (foldl (\<lambda>ws i. ws @ [xor_bytes (ws ! (length ws - 4)) (if i = 0 then t else last ws)]) ws is)"
proof (induction "is" arbitrary: n ws)
  case (Cons i ks)
  have "ws \<noteq> []" using Cons.prems(1) by (auto simp: words_ok_def)
  then have "length (last ws) = 4" "length (ws ! (length ws - 4)) = 4"
    using Cons.prems(1) by (simp_all add: words_ok_def)
  then have "words_ok (Suc n) (ws @ [xor_bytes (ws ! (length ws - 4)) (if i = 0 then t else last ws)])"
    using Cons.prems by (auto simp: words_ok_def)
  from Cons.IH [OF this Cons.prems(2)] show ?case by simp
qed simp

lemma words_ok_add: "words_ok n ws \<Longrightarrow> words_ok (n + 4) (add_words r ws)"
  using words_ok_step [of n ws _ "[0..<4]"] by (simp add: add_words_def Let_def)

lemma key_rounds_shape:
  "words_ok (4 * r + 4) ws \<Longrightarrow> r + n = 11 \<Longrightarrow>
   length (key_rounds n r ws) = n \<and> (\<forall>k \<in> set (key_rounds n r ws). length k = 16)"
proof (induction n arbitrary: r ws)
  case (Suc n)
  have "length (take 4 (drop (r * 4) ws)) = 4" "\<forall>w \<in> set (take 4 (drop (r * 4) ws)). length w = 4"
    using Suc.prems(1) by (auto simp: words_ok_def dest: in_set_takeD in_set_dropD)
  then have "length (concat (take 4 (drop (r * 4) ws))) = 16" using length_concat_blocks [of "take 4 (drop (r * 4) ws)" 4] by simp
  then show ?case
    using Suc.IH [of "r + 1" "add_words r ws"] words_ok_add [OF Suc.prems(1), of r] Suc.prems(2) by auto
qed simp

lemma AES128_new_ok:
  assumes "length key = 16"
  shows "\<exists>keys. AES128_new key = Inr keys \<and> length keys = 11 \<and> (\<forall>k \<in> set keys. length k = 16)"
proof -
  have "words_ok 4 (map (\<lambda>i. pyslice (i * 4) ((i + 1) * 4) key) [0..<4])"
    using assms by (auto simp: words_ok_def upt_4)
  with key_rounds_shape [of 0 _ 11] show ?thesis using assms by (simp add: AES128_new_def)
qed

end
