(* ===== verification/Pan115_Cipher.thy ===== *)
theory Pan115_Cipher
  imports Aes128 Base64
begin

text \<open>
  \<open>123Cloud/desktop/backend/app/pan115_cipher.py\<close>, everything above the block cipher:
  padding and CBC, the LZ4 block format and its framing, the token of the upload and the
  decoding of the answer.  \<open>zlib.crc32\<close> and \<open>json.loads\<close> are parameters.  An offset into
  \<open>src\<close> is the rest of the source behind it.  The LZ4 encoder at the end is no code of the
  module: it says what the block format is.
\<close>

section \<open>Padding and CBC\<close>

definition pad16 :: "bytes \<Rightarrow> bytes" where
  "pad16 data =
     (let pad_size = nat (- int (length data) AND 15) in data @ replicate pad_size (of_nat pad_size))"

definition unpad16 :: "bytes \<Rightarrow> bytes" where
  "unpad16 data =
     (if data \<noteq> [] \<and> 0 < last data \<and> last data < 16 \<and>
         drop (length data - unat (last data)) data = replicate (unat (last data)) (last data)
      then take (length data - unat (last data)) data
      else data)"

fun cbc_encrypt_loop :: "(bytes \<Rightarrow> bytes res) \<Rightarrow> bytes \<Rightarrow> bytes list \<Rightarrow> bytes list res" where
  "cbc_encrypt_loop enc previous [] = Inr []"
| "cbc_encrypt_loop enc previous (chunk # view) =
     bindR (enc (xor_bytes chunk previous)) (\<lambda>c.
     bindR (cbc_encrypt_loop enc c view) (\<lambda>output. Inr (c # output)))"

fun cbc_decrypt_loop :: "(bytes \<Rightarrow> bytes res) \<Rightarrow> bytes \<Rightarrow> bytes list \<Rightarrow> bytes list res" where
  "cbc_decrypt_loop dec previous [] = Inr []"
| "cbc_decrypt_loop dec previous (chunk # view) =
     bindR (dec chunk) (\<lambda>p.
     bindR (cbc_decrypt_loop dec chunk view) (\<lambda>output. Inr (xor_bytes p previous # output)))"

definition aes_cbc_encrypt :: "bytes \<Rightarrow> bytes \<Rightarrow> bytes \<Rightarrow> bytes res" where
  "aes_cbc_encrypt data key iv =
     bindR (AES128_new key) (\<lambda>keys.
     bindR (cbc_encrypt_loop (encrypt_block keys) iv (chunks 16 (pad16 data))) (\<lambda>output.
       Inr (concat output)))"

definition aes_cbc_decrypt :: "bytes \<Rightarrow> bytes \<Rightarrow> bytes \<Rightarrow> bytes res" where
  "aes_cbc_decrypt cipher_data key iv =
     bindR (AES128_new key) (\<lambda>keys.
     bindR (cbc_decrypt_loop (decrypt_block keys) iv (chunks 16 cipher_data)) (\<lambda>output.
       Inr (unpad16 (concat output))))"

section \<open>LZ4 blocks\<close>

text \<open>The two loops \<open>while True\<close> that add up a length.\<close>

fun lz4_length :: "nat \<Rightarrow> bytes \<Rightarrow> (nat \<times> bytes) res" where
  "lz4_length n [] = Inl IndexError"
| "lz4_length n (b # src) = (if b \<noteq> 255 then Inr (n + unat b, src) else lz4_length (n + unat b) src)"

lemma lz4_length_shorter: "lz4_length n src = Inr (m, rs) \<Longrightarrow> length rs < length src"
  by (induction n src rule: lz4_length.induct) (auto split: if_splits)

lemma drop_two_shorter: "x # y # zs = drop n xs \<Longrightarrow> length zs < length xs"
  by (drule arg_cong [of _ _ length]) simp

text \<open>\<open>for index in range(match_len): out.append(out[start + index])\<close>.\<close>

fun copy_match :: "nat \<Rightarrow> nat \<Rightarrow> bytes \<Rightarrow> bytes res" where
  "copy_match start 0 out = Inr out"
| "copy_match start (Suc n) out =
     (if start < length out then copy_match (start + 1) n (out @ [out ! start]) else Inl IndexError)"

function lz4_block_loop :: "bytes \<Rightarrow> bytes \<Rightarrow> bytes res" where
  "lz4_block_loop [] out = Inr out"
| "lz4_block_loop (token # src) out =
     (let literal_len = unat (drop_bit 4 token)
      in case (if literal_len = 15 then lz4_length literal_len src else Inr (literal_len, src)) of
           Inl e \<Rightarrow> Inl e
         | Inr (literal_len, src) \<Rightarrow>
             let out = out @ take literal_len src; src = drop literal_len src
             in case src of
                  [] \<Rightarrow> Inr out
                | [_] \<Rightarrow> Inl IndexError
                | lo # hi # src \<Rightarrow>
                    let match_offset = unat lo + unat hi * 256; match_len = unat (token AND 0x0F)
                    in case (if match_len = 15 then lz4_length match_len src else Inr (match_len, src)) of
                         Inl e \<Rightarrow> Inl e
                       | Inr (match_len, src) \<Rightarrow>
                           if length out < match_offset then Inl ValueError
                           else (case copy_match (length out - match_offset) (match_len + 4) out of
                                   Inl e \<Rightarrow> Inl e
                                 | Inr out \<Rightarrow> lz4_block_loop src out))"
  by pat_completeness auto
termination
  by (relation "measure (\<lambda>(src, out). length src)")
    (auto split: if_splits dest!: lz4_length_shorter drop_two_shorter)

declare lz4_block_loop.simps [simp del]

definition lz4_block_decompress :: "bytes \<Rightarrow> bytes res" where
  "lz4_block_decompress src = lz4_block_loop src []"

function lz4_frames :: "bytes \<Rightarrow> bytes \<Rightarrow> bytes res" where
  "lz4_frames view data =
     (case view of
        lo # hi # tail \<Rightarrow>
          let block_len = unat lo + unat hi * 256
          in if block_len = 0 then Inr data
             else (case lz4_block_decompress (take block_len tail) of
                     Inl e \<Rightarrow> Inl e
                   | Inr d \<Rightarrow> lz4_frames (drop block_len tail) (data @ d))
      | _ \<Rightarrow> Inr data)"
  by pat_completeness auto
termination
  by (relation "measure (\<lambda>(view, data). length view)") auto

declare lz4_frames.simps [simp del]

definition lz4_decompress :: "bytes \<Rightarrow> bytes res" where
  "lz4_decompress source = lz4_frames source []"

section \<open>The upload protocol\<close>

definition CRC_SALT :: bytes where
  "CRC_SALT = [94, 106, 62, 87, 68, 51, 75, 114, 63, 74, 50, 103, 76, 70, 106, 68, 52, 87, 50, 121, 64]"

definition AES_PUBKEY :: bytes where
  "AES_PUBKEY =
     [29, 3, 14, 128, 161, 120, 220, 238, 206, 205, 163, 119, 222, 18, 141, 142, 217, 221, 207, 85, 174, 97, 237,
      70, 234, 18, 26, 28, 252, 129]"

definition AES_KEY :: bytes where
  "AES_KEY = [251, 26, 25, 214, 82, 245, 170, 247, 188, 101, 29, 15, 105, 191, 66, 47]"

definition AES_IV :: bytes where
  "AES_IV = [105, 191, 66, 47, 73, 150, 5, 80, 160, 173, 68, 236, 52, 70, 203, 76]"

definition ecdh_encode_token :: "(bytes \<Rightarrow> int) \<Rightarrow> int \<Rightarrow> pystr res" where
  "ecdh_encode_token crc32 timestamp =
     bindR (to_bytes_le 4 False timestamp) (\<lambda>t.
       let token = take 15 AES_PUBKEY @ [0, 115, 0, 0, 0] @ t @ drop 15 AES_PUBKEY @ [0, 1, 0, 0, 0]
       in bindR (to_bytes_le 4 False (crc32 (CRC_SALT @ token) AND 0xFFFFFFFF)) (\<lambda>c.
            Inr (b64encode False (token @ c))))"

definition decode_upload_response :: "(bytes \<Rightarrow> 'j res) \<Rightarrow> bytes \<Rightarrow> 'j res" where
  "decode_upload_response json_loads content =
     (let aligned = take (nat (int (length content) AND -16)) content
      in bindR (aes_cbc_decrypt aligned AES_KEY AES_IV) (\<lambda>data.
         bindR (lz4_decompress data) json_loads))"

section \<open>CBC\<close>

context block_cipher
begin

lemma cbc_loop_round_trip:
  "length previous = 16 \<Longrightarrow> \<forall>c \<in> set cs. length c = 16 \<Longrightarrow>
   \<exists>outs. cbc_encrypt_loop enc previous cs = Inr outs \<and> length outs = length cs \<and>
     (\<forall>c \<in> set outs. length c = 16) \<and> cbc_decrypt_loop dec previous outs = Inr cs"
proof (induction cs arbitrary: previous)
  case (Cons c cs)
  then have "length (xor_bytes c previous) = 16" by simp
  then obtain y where y: "enc (xor_bytes c previous) = Inr y" "length y = 16" "dec y = Inr (xor_bytes c previous)"
    by (rule enc_total)
  from Cons.IH [OF y(2)] Cons.prems obtain outs where
    "cbc_encrypt_loop enc y cs = Inr outs" "length outs = length cs"
    "\<forall>c \<in> set outs. length c = 16" "cbc_decrypt_loop dec y outs = Inr cs" by auto
  then show ?case using y Cons.prems by (intro exI [of _ "y # outs"]) (simp add: xor_bytes_cancel)
qed simp

end

lemma pad_size: "nat (- int n AND 15) = (16 - n mod 16) mod 16"
proof -
  have "- int n AND 15 = - int n mod 16"
    using take_bit_eq_mask [of 4 "- int n"] by (simp add: take_bit_eq_mod mask_eq_exp_minus_1)
  moreover have "nat (- int n mod 16) = (16 - n mod 16) mod 16"
    by (cases "n mod 16 = 0")
      (simp_all add: zmod_zminus1_eq_if nat_diff_distrib zmod_int [of n 16, simplified, symmetric])
  ultimately show ?thesis by simp
qed

lemma pad16_aligned: "16 dvd length (pad16 data)"
proof -
  have "16 dvd n + (16 - n mod 16) mod 16" for n :: nat
  proof (cases "n mod 16 = 0")
    case False
    have "r < 16 \<Longrightarrow> 16 * q + r + (16 - r) = 16 * (q + 1)" for q r :: nat by simp
    from this [of "n mod 16" "n div 16"] have "n + (16 - n mod 16) = 16 * (n div 16 + 1)" by simp
    then show ?thesis using False by simp
  qed auto
  then show ?thesis by (simp add: pad16_def Let_def pad_size)
qed

lemma unpad16_pad16: "unpad16 (pad16 data) = (if 16 dvd length data then unpad16 data else data)"
proof (cases "16 dvd length data")
  case False
  define n where "n = nat (- int (length data) AND 15)"
  have n: "0 < n" "n < 16" using False by (simp_all add: n_def pad_size dvd_eq_mod_eq_0)
  then have "unat (of_nat n :: byte) = n" by (simp add: unat_of_nat)
  with n have "0 < (of_nat n :: byte)" "(of_nat n :: byte) < 16" "unat (of_nat n :: byte) = n"
    by (simp_all add: word_less_nat_alt)
  with n False show ?thesis by (simp add: pad16_def unpad16_def Let_def flip: n_def)
qed (simp add: pad16_def pad_size)

lemma aes_cbc_spec:
  assumes "length key = 16" "length iv = 16"
  shows "\<exists>c. aes_cbc_encrypt data key iv = Inr c \<and> length c = length (pad16 data) \<and>
    aes_cbc_decrypt c key iv = Inr (unpad16 (pad16 data))"
proof -
  obtain keys where k: "AES128_new key = Inr keys" using AES128_new_ok [OF assms(1)] by blast
  have l: "\<forall>c \<in> set (chunks 16 (pad16 data)). length c = 16"
    using pad16_aligned chunks_exact [of 16] by auto
  from block_cipher.cbc_loop_round_trip [OF aes128_cipher assms(2) l] obtain outs where
    o: "cbc_encrypt_loop (encrypt_block keys) iv (chunks 16 (pad16 data)) = Inr outs"
    "length outs = length (chunks 16 (pad16 data))" "\<forall>c \<in> set outs. length c = 16"
    "cbc_decrypt_loop (decrypt_block keys) iv outs = Inr (chunks 16 (pad16 data))" by blast
  have "chunks 16 (concat outs) = outs" using o(3) by (intro chunks_concat) auto
  moreover have "length (concat outs) = length (concat (chunks 16 (pad16 data)))"
    using o(2,3) l by (simp only: length_concat_blocks)
  ultimately show ?thesis
    using k o by (simp add: aes_cbc_encrypt_def aes_cbc_decrypt_def)
qed

section \<open>What the block format means\<close>

datatype lz4_sequence = Sequence (literals: bytes) (back_offset: nat) (match_length: nat)

definition lz4_token :: "nat \<Rightarrow> nat \<Rightarrow> byte" where
  "lz4_token n m = of_nat (16 * min n 15 + min m 15)"

definition lz4_extra :: "nat \<Rightarrow> bytes" where
  "lz4_extra n = (if n < 15 then [] else replicate ((n - 15) div 255) 255 @ [of_nat ((n - 15) mod 255)])"

fun lz4_encode :: "lz4_sequence list \<Rightarrow> bytes \<Rightarrow> bytes" where
  "lz4_encode [] lits = lz4_token (length lits) 0 # lz4_extra (length lits) @ lits"
| "lz4_encode (Sequence ls off m # ss) lits =
     lz4_token (length ls) (m - 4) # lz4_extra (length ls) @ ls @
     [of_nat (off mod 256), of_nat (off div 256)] @ lz4_extra (m - 4) @ lz4_encode ss lits"

text \<open>A match repeats the last \<open>off\<close> bytes as often as it takes.\<close>

fun lz4_meaning :: "bytes \<Rightarrow> lz4_sequence list \<Rightarrow> bytes \<Rightarrow> bytes" where
  "lz4_meaning out [] lits = out @ lits"
| "lz4_meaning out (Sequence ls off m # ss) lits =
     (let out = out @ ls; period = drop (length out - off) out
      in lz4_meaning (out @ map (\<lambda>i. period ! (i mod off)) [0..<m]) ss lits)"

fun lz4_valid :: "nat \<Rightarrow> lz4_sequence list \<Rightarrow> bool" where
  "lz4_valid n [] = True"
| "lz4_valid n (Sequence ls off m # ss) =
     (0 < off \<and> off < 65536 \<and> off \<le> n + length ls \<and> 4 \<le> m \<and> lz4_valid (n + length ls + m) ss)"

lemma unat_255: "unat (255 :: byte) = 255"
  by (simp add: take_bit_eq_mod)

lemma lz4_length_255: "lz4_length n (255 # src) = lz4_length (n + 255) src"
  by (simp only: lz4_length.simps unat_255) simp

lemma lz4_length_back:
  "lz4_length a (replicate k 255 @ b # src) = (if b = 255 then lz4_length (a + k * 255 + 255) src
     else Inr (a + k * 255 + unat b, src))"
proof (induction k arbitrary: a)
  case 0
  show ?case by (cases "b = 255") (simp_all add: lz4_length_255)
next
  case (Suc k)
  show ?case using Suc.IH [of "a + 255"] by (simp add: lz4_length_255 ac_simps del: lz4_length.simps)
qed

lemma lz4_extra_back:
  assumes "15 \<le> n"
  shows "lz4_length 15 (lz4_extra n @ src) = Inr (n, src)"
proof -
  have "unat (of_nat ((n - 15) mod 255) :: byte) = (n - 15) mod 255"
    by (simp add: unat_of_nat)
  moreover from this have "(of_nat ((n - 15) mod 255) :: byte) \<noteq> 255"
    using mod_less_divisor [of 255 "n - 15"] by (auto simp del: mod_less_divisor)
  ultimately show ?thesis
    using assms by (simp add: lz4_extra_def lz4_length_back)
qed

lemma lz4_token_back: "unat (drop_bit 4 (lz4_token n m)) = min n 15" "unat (lz4_token n m AND 15) = min m 15"
proof -
  let ?t = "16 * min n 15 + min m 15"
  have "?t < 256" by simp
  then have u: "unat (lz4_token n m) = ?t" unfolding lz4_token_def unat_of_nat by simp
  show "unat (drop_bit 4 (lz4_token n m)) = min n 15"
    by (simp only: unat_drop_bit_eq u) (simp add: drop_bit_eq_div)
  have "lz4_token n m AND 15 = take_bit 4 (lz4_token n m)"
    by (simp add: take_bit_eq_mask mask_eq_exp_minus_1)
  moreover have "unat (take_bit 4 (lz4_token n m)) = unat (lz4_token n m) mod 16"
    by (simp only: unsigned_take_bit_eq) (simp add: take_bit_eq_mod)
  ultimately have "unat (lz4_token n m AND 15) = unat (lz4_token n m) mod 16" by (simp only:)
  then show "unat (lz4_token n m AND 15) = min m 15" by (simp add: u)
qed

lemma copy_match_periodic:
  assumes "0 < off" "off \<le> length out"
  shows "copy_match (length out - off + k) n (out @ map (\<lambda>i. drop (length out - off) out ! (i mod off)) [0..<k]) =
    Inr (out @ map (\<lambda>i. drop (length out - off) out ! (i mod off)) [0..<k + n])"
proof (induction n arbitrary: k)
  case (Suc n)
  let ?p = "drop (length out - off) out"
  let ?o = "out @ map (\<lambda>i. ?p ! (i mod off)) [0..<k]"
  have "?o ! (length out - off + k) = ?p ! (k mod off)"
  proof (cases "k < off")
    case False
    then have "?o ! (length out - off + k) = ?p ! ((k - off) mod off)"
      using assms by (simp add: nth_append)
    then show ?thesis using False by (simp add: le_mod_geq)
  next
    case True
    then have "length out - off + k < length out" using assms by linarith
    then show ?thesis using True assms by (simp add: nth_append)
  qed
  then have "?o @ [?o ! (length out - off + k)] = out @ map (\<lambda>i. ?p ! (i mod off)) [0..<Suc k]"
    by simp
  moreover have "length out - off + k < length ?o" using assms by simp
  ultimately show ?case using Suc.IH [of "Suc k"] by simp
qed simp


lemma lz4_back:
  "lz4_valid (length out) ss \<Longrightarrow> lz4_block_loop (lz4_encode ss lits) out = Inr (lz4_meaning out ss lits)"
proof (induction ss arbitrary: out)
  case Nil
  show ?case
    by (cases "15 \<le> length lits")
      (simp_all add: lz4_block_loop.simps lz4_token_back lz4_extra_back Let_def, simp_all add: lz4_extra_def lz4_block_loop.simps)
next
  case (Cons s ss)
  obtain ls off m where s: "s = Sequence ls off m" by (cases s)
  let ?o = "out @ ls"
  let ?r = "lz4_encode ss lits"
  have v: "0 < off" "off < 65536" "off \<le> length ?o" "4 \<le> m" "lz4_valid (length ?o + m) ss"
    using Cons.prems by (simp_all add: s add.assoc)
  have off: "unat (of_nat (off mod 256) :: byte) + unat (of_nat (off div 256) :: byte) * 256 = off"
    using v(2) by (simp add: unat_of_nat)
  have lits: "(if min (length ls) 15 = 15 then lz4_length (min (length ls) 15) (lz4_extra (length ls) @ xs)
      else Inr (min (length ls) 15, lz4_extra (length ls) @ xs)) = Inr (length ls, xs)" for xs
    using lz4_extra_back [of "length ls" xs] by (auto simp: lz4_extra_def min_def)
  have mat: "(if min (m - 4) 15 = 15 then lz4_length (min (m - 4) 15) (lz4_extra (m - 4) @ xs)
      else Inr (min (m - 4) 15, lz4_extra (m - 4) @ xs)) = Inr (m - 4, xs)" for xs
    using lz4_extra_back [of "m - 4" xs] by (auto simp: lz4_extra_def min_def)
  let ?o2 = "?o @ map (\<lambda>i. drop (length ?o - off) ?o ! (i mod off)) [0..<m]"
  have c: "copy_match (length ?o - off) (m - 4 + 4) ?o = Inr ?o2"
    using copy_match_periodic [OF v(1,3), of 0 m] v(4) by simp
  have "lz4_block_loop (lz4_encode (s # ss) lits) out = lz4_block_loop ?r ?o2"
    using v(3) c
    by (simp add: s lz4_block_loop.simps(2) lz4_token_back lits mat off Let_def)
  also have "\<dots> = Inr (lz4_meaning ?o2 ss lits)" using v(5) by (intro Cons.IH) (simp add: add.assoc)
  also have "lz4_meaning ?o2 ss lits = lz4_meaning out (s # ss) lits"
    by (simp only: s lz4_meaning.simps Let_def)
  finally show ?case .
qed


section \<open>Frames and answers\<close>

definition frame_meaning :: "lz4_sequence list \<times> bytes \<Rightarrow> bytes" where
  "frame_meaning f = lz4_meaning [] (fst f) (snd f)"

definition lz4_frame :: "lz4_sequence list \<times> bytes \<Rightarrow> bytes" where
  "lz4_frame f =
     (let b = lz4_encode (fst f) (snd f) in [of_nat (length b mod 256), of_nat (length b div 256)] @ b)"

definition frame_ok :: "lz4_sequence list \<times> bytes \<Rightarrow> bool" where
  "frame_ok f \<longleftrightarrow> lz4_valid 0 (fst f) \<and> length (lz4_encode (fst f) (snd f)) < 65536"

lemma lz4_encode_nonempty: "lz4_encode ss lits \<noteq> []"
  by (cases "(ss, lits)" rule: lz4_encode.cases) simp_all

lemma lz4_frames_back:
  "list_all frame_ok fs \<Longrightarrow>
   lz4_frames (concat (map lz4_frame fs) @ replicate k 0) data = Inr (data @ concat (map frame_meaning fs))"
proof (induction fs arbitrary: data)
  case Nil
  consider "k = 0" | "k = 1" | j where "k = Suc (Suc j)" by (metis One_nat_def not0_implies_Suc)
  then show ?case by cases (simp_all add: lz4_frames.simps)
next
  case (Cons f fs)
  define b where "b = lz4_encode (fst f) (snd f)"
  have b: "length b < 65536" "b \<noteq> []" "lz4_block_decompress b = Inr (frame_meaning f)"
    using Cons.prems lz4_back [of "[]" "fst f" "snd f"] lz4_encode_nonempty
    by (simp_all add: b_def frame_ok_def lz4_block_decompress_def frame_meaning_def)
  then have l: "unat (of_nat (length b mod 256) :: byte) + unat (of_nat (length b div 256) :: byte) * 256 = length b"
    by (simp add: unat_of_nat)
  moreover from this b(2) have
    "(unat (of_nat (length b mod 256) :: byte) = 0 \<and> unat (of_nat (length b div 256) :: byte) = 0) = False" by (metis add_0 length_0_conv mult_0)
  moreover have "lz4_frame f = of_nat (length b mod 256) # of_nat (length b div 256) # b"
    by (simp add: lz4_frame_def flip: b_def)
  ultimately show ?case
    using b Cons by (auto simp: lz4_frames.simps [of "_ # _"] Let_def)
qed

text \<open>The cipher of the protocol, under its own key.\<close>

definition upload_keys :: "bytes list" where
  "upload_keys = (case AES128_new AES_KEY of Inr keys \<Rightarrow> keys | Inl e \<Rightarrow> [])"

interpretation upload: block_cipher "encrypt_block upload_keys" "decrypt_block upload_keys"
  by (rule aes128_cipher)

lemma upload_lengths: "length AES_KEY = 16" "length AES_IV = 16"
  by (simp_all add: AES_KEY_def AES_IV_def)

lemma upload_keys: "AES128_new AES_KEY = Inr upload_keys"
  using AES128_new_ok [OF upload_lengths(1)] by (auto simp: upload_keys_def)

lemma aligned_part:
  assumes "16 dvd n" "m < 16"
  shows "nat (int (n + m) AND -16) = n"
proof -
  have "int (n + m) AND -16 = int (n + m) AND NOT (mask 4)" by (simp add: mask_eq_exp_minus_1)
  also have "\<dots> = push_bit 4 (drop_bit 4 (int (n + m)))"
    by (rule bit_eqI) (auto simp: bit_simps)
  also have "\<dots> = 16 * (int (n + m) div 16)" by (simp add: push_bit_eq_mult drop_bit_eq_div)
  finally show ?thesis using assms by (auto elim!: dvdE)
qed


section \<open>Properties\<close>

text \<open>
  AES-128 decryption undoes encryption, for every key of 16 bytes and every block: the
  key schedule gives eleven round keys of 16 bytes, encryption gives a block, and the
  inverse rounds give the block back.  It rests on the S-box that the program computes
  being a permutation with \<open>_SBOX_INV\<close> as its inverse.
\<close>

lemma aes128_round_trip:
  assumes "length key = 16" "length blk = 16"
  shows "\<exists>keys y. AES128_new key = Inr keys \<and> length keys = 11 \<and> (\<forall>k \<in> set keys. length k = 16) \<and>
    encrypt_block keys blk = Inr y \<and> length y = 16 \<and> decrypt_block keys y = Inr blk"
  using AES128_new_ok [OF assms(1)] block_cipher.cipher [OF aes128_cipher assms(2)] by blast

text \<open>
  CBC decryption of what CBC encryption made: data whose length is no multiple of 16
  comes back exactly.  Data that fills its blocks gets no padding, so what looks like
  padding at its end is cut off: the last byte is lost whenever it is 1.
\<close>

lemma cbc_round_trip:
  assumes "length key = 16" "length iv = 16"
  shows "\<exists>c. aes_cbc_encrypt data key iv = Inr c \<and> 16 dvd length c \<and> length data \<le> length c \<and>
    length c < length data + 16 \<and>
    (\<not> 16 dvd length data \<longrightarrow> aes_cbc_decrypt c key iv = Inr data) \<and>
    (16 dvd length data \<longrightarrow> aes_cbc_decrypt c key iv = Inr (unpad16 data)) \<and>
    (16 dvd length data \<and> data \<noteq> [] \<and> last data = 1 \<longrightarrow> aes_cbc_decrypt c key iv = Inr (butlast data))"
proof -
  have "length data \<le> length (pad16 data)" "length (pad16 data) < length data + 16"
    by (simp_all add: pad16_def Let_def pad_size)
  moreover have "unpad16 data = butlast data" if "data \<noteq> []" "last data = 1"
    using that by (cases data rule: rev_cases) (simp_all add: unpad16_def word_less_nat_alt)
  ultimately show ?thesis
    using aes_cbc_spec [OF assms, of data] pad16_aligned [of data]
    by (auto simp: unpad16_pad16 split: if_splits)
qed

text \<open>
  C27. An answer of the upload server is decoded to what was sent: for frames of valid LZ4
  blocks, filled up with zeros, encrypted under the key of the protocol and followed by
  fewer than 16 stray bytes, the JSON reader gets the meaning of the blocks in order,
  where a match repeats the bytes before it as the block format says, overlaps included.
\<close>

theorem upload_response_opens:
  assumes "list_all frame_ok fs" "0 < k" "16 dvd length (concat (map lz4_frame fs) @ replicate k 0)"
    "aes_cbc_encrypt (concat (map lz4_frame fs) @ replicate k 0) AES_KEY AES_IV = Inr c" "length junk < 16"
  shows "decode_upload_response json_loads (c @ junk) = json_loads (concat (map frame_meaning fs))"
proof -
  let ?p = "concat (map lz4_frame fs) @ replicate k 0"
  have "last ?p = 0" using assms(2) by (simp add: last_append last_replicate)
  then have u: "unpad16 ?p = ?p" by (simp add: unpad16_def)
  have c: "length c = length (pad16 ?p)" "aes_cbc_decrypt c AES_KEY AES_IV = Inr (unpad16 (pad16 ?p))"
    using aes_cbc_spec [OF upload_lengths, of ?p] assms(4) by auto
  then have "nat (int (length (c @ junk)) AND -16) = length c"
    using aligned_part [of "length c" "length junk"] assms(5) pad16_aligned by simp
  then show ?thesis
    using c(2) assms(3) u lz4_frames_back [OF assms(1), of k "[]"]
    by (simp add: decode_upload_response_def Let_def unpad16_pad16 lz4_decompress_def)
qed

theorem upload_response_opens_witness:
  "\<exists>c. decode_upload_response Inr (c @ [7, 7]) = Inr [97, 98, 97, 98, 97, 98, 33]"
proof -
  let ?fs = "[([Sequence [97, 98] 2 4], [33])]"
  obtain c where "aes_cbc_encrypt (concat (map lz4_frame ?fs) @ replicate 7 0) AES_KEY AES_IV = Inr c"
    using aes_cbc_spec [OF upload_lengths] by blast
  from upload_response_opens [OF _ _ _ this, of "[7, 7]" Inr] show ?thesis
    by (auto simp: frame_ok_def frame_meaning_def lz4_frame_def lz4_token_def lz4_extra_def upt_4)
qed

end
