(* ===== verification/Pickcode.thy ===== *)
theory Pickcode
  imports Base64
begin

text \<open>
  \<open>p115client/modules/p115pickcode/p115pickcode/__init__.py\<close>: pickcodes of files and
  folders.  A pickcode is a prefix, the id in base 36 under the substitution that belongs to
  the prefix, and the user's stable point under the same substitution.  Texts are lists of
  code points; a \<open>KeyError\<close> carries the code point that was looked up.
\<close>

section \<open>Numbers in base 36\<close>

definition ALPHABET :: pystr where
  "ALPHABET = codes ''0123456789abcdefghijklmnopqrstuvwxyz''"

function b36_digits :: "nat \<Rightarrow> pystr \<Rightarrow> pystr" where
  "b36_digits n chars = (if n = 0 then chars else b36_digits (n div 36) ((ALPHABET ! (n mod 36)) # chars))"
  by pat_completeness auto
termination
  by (relation "measure fst") auto

declare b36_digits.simps [simp del]

text \<open>The list is built in reverse and turned around at the end.\<close>

definition b36encode :: "int \<Rightarrow> pystr" where
  "b36encode n =
     (let m = nat \<bar>n\<bar>; s = (if m < 36 then [ALPHABET ! m] else b36_digits m [])
      in if n < 0 then 45 # s else s)"

text \<open>\<open>int(s, base)\<close> on ASCII texts: blanks around, a sign, digits of either case, and single
  underscores between digits.\<close>

definition digit_value :: "nat \<Rightarrow> int option" where
  "digit_value c =
     (if 48 \<le> c \<and> c \<le> 57 then Some (int c - 48)
      else if 97 \<le> c \<and> c \<le> 122 then Some (int c - 87)
      else if 65 \<le> c \<and> c \<le> 90 then Some (int c - 55)
      else None)"

fun int_loop :: "int \<Rightarrow> int \<Rightarrow> pystr \<Rightarrow> int res" where
  "int_loop base acc [] = Inl ValueError"
| "int_loop base acc (c # cs) =
     (case digit_value c of
        None \<Rightarrow> Inl ValueError
      | Some d \<Rightarrow>
          if base \<le> d then Inl ValueError
          else if cs = [] then Inr (acc * base + d)
          else if hd cs = 95 then int_loop base (acc * base + d) (tl cs)
          else int_loop base (acc * base + d) cs)"

definition is_blank :: "nat \<Rightarrow> bool" where
  "is_blank c \<longleftrightarrow> c = 32 \<or> 9 \<le> c \<and> c \<le> 13"

definition py_int :: "int \<Rightarrow> pystr \<Rightarrow> int res" where
  "py_int base s =
     (let t = rev (dropWhile is_blank (rev (dropWhile is_blank s)))
      in if t \<noteq> [] \<and> hd t = 45 then bindR (int_loop base 0 (tl t)) (\<lambda>n. Inr (- n))
         else int_loop base 0 (if t \<noteq> [] \<and> hd t = 43 then tl t else t))"

definition b36decode :: "pystr \<Rightarrow> int res" where
  "b36decode s = py_int 36 s"

section \<open>The substitutions\<close>

text \<open>A dict from its items: of two items with one key the later counts.\<close>

definition py_dict :: "('a \<times> 'b) list \<Rightarrow> 'a \<Rightarrow> 'b option" where
  "py_dict items = map_of (rev items)"

definition reverse_items :: "('a \<times> 'b) list \<Rightarrow> ('b \<times> 'a) list" where
  "reverse_items items = map (\<lambda>(k, v). (v, k)) items"

definition translate :: "(nat \<times> nat) list \<Rightarrow> pystr \<Rightarrow> pystr" where
  "translate table s = map (\<lambda>c. case py_dict table c of None \<Rightarrow> c | Some d \<Rightarrow> d) s"

definition PREFIX_TO_TRANSTAB :: "(pystr \<times> (nat \<times> nat) list) list" where
  "PREFIX_TO_TRANSTAB =
     map (\<lambda>(k, text). (k, zip text ALPHABET))
     [(codes ''a'', codes ''fuln1ytpj3smg8d5a094qh7cxkbi62zvewro''),
      (codes ''b'', codes ''sk721n9a0emlfpcrzbqdw3gjh6ty5xui48vo''),
      (codes ''c'', codes ''ywcz3hite6f1j0guoakvdb2ns7p8qr9ml5x4''),
      (codes ''d'', codes ''rq2vl5o7wsken9u8tp4jg3zbyc6xmhifd01a''),
      (codes ''e'', codes ''ljm9eqbcfhw7ktv3x1dgp5ua8y6s4znr2io0''),
      (codes ''fa'', codes ''fumk0ytpj3sng8d5a194qh7cxlbi62zvewro''),
      (codes ''fb'', codes ''sk732o9a1enmfpcrzbqdw4gjh6ty5xui08vl''),
      (codes ''fc'', codes ''ywcz6hite9f4j3gup2kvdb5osal0qr1nm8x7''),
      (codes ''fd'', codes ''on6vl0r2wpkeq9u3ts8jg7zbyc1xmhifd45a''),
      (codes ''fe'', codes ''ljm0es2cfhwakqv6x4dgp8r1by9u7znt5io3'')]"

definition PREFIX_TO_TRANSTAB_REV :: "(pystr \<times> (nat \<times> nat) list) list" where
  "PREFIX_TO_TRANSTAB_REV = map (\<lambda>(k, v). (k, reverse_items v)) PREFIX_TO_TRANSTAB"

definition PREFIX_TO_FIRST_SUFFIX :: "(pystr \<times> nat) list" where
  "PREFIX_TO_FIRST_SUFFIX = map (\<lambda>(a, b). (a, the (py_dict b 48))) PREFIX_TO_TRANSTAB"

definition FIRST_SUFFIX_TO_PREFIX :: "(nat \<times> pystr) list" where
  "FIRST_SUFFIX_TO_PREFIX = reverse_items PREFIX_TO_FIRST_SUFFIX"

definition FOLDER_PREFIXES :: "pystr list" where
  "FOLDER_PREFIXES = map codes [''fa'', ''fb'', ''fc'', ''fd'', ''fe'']"

definition FILE_PREFIXES :: pystr where
  "FILE_PREFIXES = codes ''abcde''"

text \<open>\<open>d[key]\<close>; the error names the last code point of the key.\<close>

definition table_of :: "(pystr \<times> 'b) list \<Rightarrow> pystr \<Rightarrow> 'b res" where
  "table_of d k = (case py_dict d k of None \<Rightarrow> Inl (KeyError (int (last k))) | Some t \<Rightarrow> Inr t)"

definition suffix_prefix :: "nat \<Rightarrow> pystr res" where
  "suffix_prefix c =
     (case py_dict FIRST_SUFFIX_TO_PREFIX c of None \<Rightarrow> Inl (KeyError (int c)) | Some k \<Rightarrow> Inr k)"

section \<open>Pickcodes\<close>

definition last_four :: "pystr \<Rightarrow> pystr" where
  "last_four s = drop (length s - 4) s"

definition get_stable_point :: "pystr \<Rightarrow> pystr res" where
  "get_stable_point pickcode =
     (let n = length pickcode;
          translated = (\<lambda>p. bindR (table_of PREFIX_TO_TRANSTAB_REV p) (\<lambda>transtab.
            Inr (translate transtab (last_four pickcode))))
      in if n < 4 then Inr (replicate (4 - n) 48 @ pickcode)
         else if 6 \<le> n \<and> take 2 pickcode \<in> set FOLDER_PREFIXES then translated (take 2 pickcode)
         else if 5 \<le> n \<and> hd pickcode \<in> set FILE_PREFIXES then translated (take 1 pickcode)
         else if hd (last_four pickcode) = 48 then Inr (last_four pickcode)
         else bindR (suffix_prefix (hd (last_four pickcode))) translated)"

text \<open>\<open>pickcode.strip(ALPHABET)\<close> is empty just if all its characters are in the alphabet.\<close>

definition is_valid_pickcode :: "pystr \<Rightarrow> bool res" where
  "is_valid_pickcode pickcode =
     (let n = length pickcode; folder = take 1 pickcode = codes ''f''
      in if pickcode = [] then Inr True
         else if \<not> list_all (\<lambda>c. c \<in> set ALPHABET) pickcode then Inr False
         else if folder \<and> n < 7 \<or> n < 6 then Inr False
         else let p = (if folder then take 2 pickcode else take 1 pickcode)
              in if p \<notin> fst ` set PREFIX_TO_TRANSTAB then Inr False
                 else bindR (suffix_prefix (hd (last_four pickcode))) (\<lambda>k. Inr (p = k)))"

definition pickcode_to_id :: "pystr \<Rightarrow> int res" where
  "pickcode_to_id pickcode =
     (let n = length pickcode; folder = take 1 pickcode = codes ''f'';
          p = (if folder then take 2 pickcode else take 1 pickcode);
          cipher = (if folder then take (n - 4 - 2) (drop 2 pickcode) else take (n - 4 - 1) (drop 1 pickcode))
      in if pickcode = [] then Inr 0
         else bindR (table_of PREFIX_TO_TRANSTAB_REV p) (\<lambda>transtab. b36decode (translate transtab cipher)))"

definition id_to_pickcode :: "int \<Rightarrow> pystr \<Rightarrow> pystr \<Rightarrow> pystr res" where
  "id_to_pickcode i stable_point pfx =
     (if i = 0 then Inr []
      else if i < 0 then Inl ValueError
      else let n = length stable_point
      in bindR (if n < 4 then Inr (if pfx = [] then codes ''a'' else pfx, True, replicate (4 - n) 48 @ stable_point)
                else if 6 \<le> n \<and> take 2 stable_point \<in> set FOLDER_PREFIXES
                then Inr (take 2 stable_point, False, stable_point)
                else if 5 \<le> n \<and> hd stable_point \<in> set FILE_PREFIXES
                then Inr (take 1 stable_point, False, stable_point)
                else if hd (last_four stable_point) \<noteq> 48
                then bindR (suffix_prefix (hd (last_four stable_point))) (\<lambda>k. Inr (k, False, stable_point))
                else Inr (if pfx = [] then codes ''a'' else pfx, True, stable_point))
           (\<lambda>(pfx1, is_stable_point, stable_point).
         let stable_point = (if n > 4 then last_four stable_point else stable_point)
         in bindR (table_of PREFIX_TO_TRANSTAB (if pfx = [] then pfx1 else pfx)) (\<lambda>transtab.
            bindR (if is_stable_point then Inr (translate transtab stable_point, pfx1)
                   else if pfx = [] \<or> pfx = pfx1
                   then Inr (stable_point, if pfx = [] then pfx1 else pfx)
                   else bindR (table_of PREFIX_TO_TRANSTAB_REV pfx1) (\<lambda>r.
                     Inr (translate transtab (translate r stable_point), pfx))) (\<lambda>(suffix, pfx1).
              Inr (pfx1 @ translate transtab (b36encode i) @ suffix)))))"

datatype id_or_code = NumericId int | Code pystr

definition starts_with_letter :: "pystr \<Rightarrow> bool" where
  "starts_with_letter s \<longleftrightarrow> s \<noteq> [] \<and> hd s \<in> set (codes ''abcdef'')"

definition to_id :: "id_or_code \<Rightarrow> int res" where
  "to_id x =
     (case x of
        NumericId n \<Rightarrow> if n < 0 then Inl ValueError else Inr n
      | Code s \<Rightarrow>
          if s = [] then Inr 0
          else if starts_with_letter s then pickcode_to_id s
          else py_int 10 s)"

definition to_pickcode :: "id_or_code \<Rightarrow> pystr \<Rightarrow> pystr \<Rightarrow> pystr res" where
  "to_pickcode x stable_point pfx =
     (case x of
        NumericId n \<Rightarrow> id_to_pickcode n stable_point pfx
      | Code s \<Rightarrow>
          if s = [] then Inr []
          else if starts_with_letter s then Inr s
          else bindR (py_int 10 s) (\<lambda>n. id_to_pickcode n stable_point pfx))"

section \<open>Base 36 back and forth\<close>

lemma ALPHABET_nth:
  assumes "d < 36"
  shows "digit_value (ALPHABET ! d) = Some (int d)" "ALPHABET ! d \<notin> {95, 45, 43, 32}" "\<not> is_blank (ALPHABET ! d)"
proof -
  have "list_all (\<lambda>d. digit_value (ALPHABET ! d) = Some (int d) \<and> ALPHABET ! d \<notin> {95, 45, 43, 32} \<and>
    \<not> is_blank (ALPHABET ! d)) [0..<36]" by code_simp
  then show "digit_value (ALPHABET ! d) = Some (int d)" "ALPHABET ! d \<notin> {95, 45, 43, 32}" "\<not> is_blank (ALPHABET ! d)"
    using assms by (simp_all add: list_all_iff)
qed

lemma ALPHABET_eq: "ALPHABET = [48..<58] @ [97..<123]"
  by code_simp


text \<open>Every text of the table is a permutation of the alphabet.\<close>

definition in_alphabet :: "nat \<Rightarrow> bool" where
  "in_alphabet c \<longleftrightarrow> 48 \<le> c \<and> c < 58 \<or> 97 \<le> c \<and> c < 123"

lemma set_ALPHABET: "c \<in> set ALPHABET \<longleftrightarrow> in_alphabet c"
  unfolding ALPHABET_eq set_append set_upt by (auto simp: in_alphabet_def)

lemma table_rows:
  assumes "(k, t) \<in> set PREFIX_TO_TRANSTAB"
  shows "\<exists>s. t = zip s ALPHABET \<and> length s = 36 \<and> distinct s \<and> list_all in_alphabet s"
  using assms unfolding PREFIX_TO_TRANSTAB_def
  by (auto simp: codes_def in_alphabet_def simp del: zip_Cons_Cons)

lemma alphabet_shape: "length ALPHABET = 36" "distinct ALPHABET"
  by (simp_all add: ALPHABET_eq)

lemma table_text:
  assumes "(k, t) \<in> set PREFIX_TO_TRANSTAB"
  obtains xs where "t = zip xs ALPHABET" "length xs = 36" "distinct xs" "set xs = set ALPHABET"
proof -
  obtain xs where xs: "t = zip xs ALPHABET" "length xs = 36" "distinct xs" "list_all in_alphabet xs"
    using table_rows [OF assms] by blast
  have "set xs \<subseteq> set ALPHABET" using xs(4) by (auto simp: list_all_iff set_ALPHABET)
  moreover have "card (set xs) = card (set ALPHABET)" using xs(2,3) alphabet_shape by (simp add: distinct_card)
  ultimately have "set xs = set ALPHABET" by (simp add: card_subset_eq)
  with xs that show ?thesis by blast
qed

lemma py_dict_zip_None: "length as = length bs \<Longrightarrow> py_dict (zip as bs) c = None \<longleftrightarrow> c \<notin> set as"
  by (simp add: py_dict_def map_of_eq_None_iff flip: set_map)

lemma inverse_map:
  assumes "length xs = length ys" "distinct xs" "distinct ys"
  shows "py_dict (zip xs ys) c = Some d \<longleftrightarrow> py_dict (zip ys xs) d = Some c"
proof -
  have "distinct (map fst (rev (zip xs ys)))" "distinct (map fst (rev (zip ys xs)))"
    using assms by (simp_all add: rev_map [symmetric])
  then show ?thesis
    using assms(1) by (auto simp: py_dict_def set_zip)
qed

lemma substitution_back:
  assumes "(k, t) \<in> set PREFIX_TO_TRANSTAB"
  shows "translate (reverse_items t) (translate t s) = s" "translate t (translate (reverse_items t) s) = s"
proof -
  obtain xs where xs: "t = zip xs ALPHABET" "length xs = 36" "distinct xs" and st: "set xs = set ALPHABET"
    by (rule table_text [OF assms])
  note A = alphabet_shape
  have r: "reverse_items (zip xs ALPHABET) = zip ALPHABET xs"
    by (simp add: reverse_items_def zip_commute [of ALPHABET])
  note inv = inverse_map [of xs ALPHABET, unfolded A xs(2), OF refl xs(3) A(2)]
  have once: "py_dict b (case py_dict a c of None \<Rightarrow> c | Some d \<Rightarrow> d) = (case py_dict a c of None \<Rightarrow> None | Some d \<Rightarrow> Some c)"
    if "\<And>c d. py_dict a c = Some d \<longleftrightarrow> py_dict b d = Some c" "\<And>c. py_dict a c = None \<longleftrightarrow> py_dict b c = None"
    for a b :: "(nat \<times> nat) list" and c
  proof (cases "py_dict a c")
    case None
    then show ?thesis using that(2) [of c] by simp
  next
    case (Some d)
    then show ?thesis using that(1) [of c d] by simp
  qed
  have n: "py_dict (zip xs ALPHABET) c = None \<longleftrightarrow> py_dict (zip ALPHABET xs) c = None" for c
    using A(1) xs(2) st by (simp add: py_dict_zip_None)
  note one = once [of "zip xs ALPHABET" "zip ALPHABET xs", OF inv n]
    once [of "zip ALPHABET xs" "zip xs ALPHABET", OF inv [symmetric] n [symmetric]]
  show "translate (reverse_items t) (translate t s) = s"
    unfolding xs(1) r translate_def map_map comp_def one by (auto intro!: map_idI split: option.splits)
  show "translate t (translate (reverse_items t) s) = s"
    unfolding xs(1) r translate_def map_map comp_def one by (auto intro!: map_idI split: option.splits)
qed

lemma translate_alphabet:
  assumes "(k, t) \<in> set PREFIX_TO_TRANSTAB" "list_all in_alphabet s"
  shows "list_all in_alphabet (translate t s)"
proof -
  obtain xs where xs: "t = zip xs ALPHABET" "length xs = 36" using table_rows [OF assms(1)] by blast
  have "in_alphabet d" if "py_dict t c = Some d" for c d
    using that by (auto simp: py_dict_def xs set_ALPHABET [symmetric] dest!: map_of_SomeD set_zip_rightD)
  with assms(2) show ?thesis by (auto simp: translate_def list_all_iff split: option.splits)
qed

section \<open>Prefixes\<close>

abbreviation prefixes :: "pystr list" where
  "prefixes \<equiv> map fst PREFIX_TO_TRANSTAB"

lemma prefixes_eq: "prefixes = map codes [''a'', ''b'', ''c'', ''d'', ''e'', ''fa'', ''fb'', ''fc'', ''fd'', ''fe'']"
  by (simp add: PREFIX_TO_TRANSTAB_def)

lemma distinct_prefixes: "distinct prefixes"
  unfolding prefixes_eq by (simp add: codes_def)

lemma prefix_shape:
  "k \<in> set prefixes \<Longrightarrow> k \<in> set FOLDER_PREFIXES \<and> (\<exists>x. k = [102, x]) \<or> (\<exists>c \<in> set FILE_PREFIXES. k = [c] \<and> c \<noteq> 102)"
  unfolding prefixes_eq by (auto simp: codes_def FOLDER_PREFIXES_def FILE_PREFIXES_def)

lemma folder_is_prefix: "k \<in> set FOLDER_PREFIXES \<Longrightarrow> k \<in> set prefixes"
  unfolding prefixes_eq by (auto simp: FOLDER_PREFIXES_def)

lemma file_is_prefix: "c \<in> set FILE_PREFIXES \<Longrightarrow> [c] \<in> set prefixes"
  unfolding prefixes_eq by (auto simp: codes_def FILE_PREFIXES_def)

lemma py_dict_distinct: "distinct (map fst xs) \<Longrightarrow> (k, v) \<in> set xs \<Longrightarrow> py_dict xs k = Some v"
  by (simp add: py_dict_def rev_map [symmetric])

lemma prefix_tables:
  assumes "k \<in> set prefixes"
  obtains t where "(k, t) \<in> set PREFIX_TO_TRANSTAB" "table_of PREFIX_TO_TRANSTAB k = Inr t"
    "table_of PREFIX_TO_TRANSTAB_REV k = Inr (reverse_items t)"
proof -
  from assms obtain t where t: "(k, t) \<in> set PREFIX_TO_TRANSTAB" by auto
  have r: "map fst PREFIX_TO_TRANSTAB_REV = prefixes"
    by (simp add: PREFIX_TO_TRANSTAB_REV_def comp_def case_prod_unfold)
  have "(k, reverse_items t) \<in> set PREFIX_TO_TRANSTAB_REV"
    using t by (force simp: PREFIX_TO_TRANSTAB_REV_def)
  with t show ?thesis
    using py_dict_distinct [of PREFIX_TO_TRANSTAB] py_dict_distinct [of PREFIX_TO_TRANSTAB_REV] distinct_prefixes r
    by (intro that [of t]) (simp_all add: table_of_def)
qed

lemma first_suffixes: "PREFIX_TO_FIRST_SUFFIX = zip prefixes (codes ''h8dxz4wr53'')"
  by code_simp

lemma suffix_prefix_iff:
  assumes "(k, t) \<in> set PREFIX_TO_TRANSTAB"
  shows "suffix_prefix c = Inr k \<longleftrightarrow> c = the (py_dict t 48)"
proof -
  let ?c = "codes ''h8dxz4wr53''"
  have d: "distinct ?c" "length ?c = length prefixes" by (simp_all add: codes_def PREFIX_TO_TRANSTAB_def)
  have "FIRST_SUFFIX_TO_PREFIX = zip ?c prefixes"
    unfolding FIRST_SUFFIX_TO_PREFIX_def first_suffixes reverse_items_def by (simp add: zip_commute [of prefixes] comp_def case_prod_unfold)
  then have "suffix_prefix c = Inr k \<longleftrightarrow> py_dict PREFIX_TO_FIRST_SUFFIX k = Some c"
    using inverse_map [OF d(2) d(1) distinct_prefixes, of c k]
    by (auto simp: suffix_prefix_def first_suffixes split: option.splits)
  moreover have "py_dict PREFIX_TO_FIRST_SUFFIX k = Some (the (py_dict t 48))"
    using assms distinct_prefixes
    by (intro py_dict_distinct) (force simp: PREFIX_TO_FIRST_SUFFIX_def comp_def case_prod_unfold)+
  ultimately show ?thesis by auto
qed

lemma first_digit:
  assumes "(k, t) \<in> set PREFIX_TO_TRANSTAB"
  shows "py_dict t 48 \<noteq> None"
  by (rule table_text [OF assms]) (simp add: py_dict_zip_None alphabet_shape set_ALPHABET in_alphabet_def)

lemma suffix_prefix_known: "suffix_prefix c = Inr k \<Longrightarrow> k \<in> set prefixes"
proof -
  assume "suffix_prefix c = Inr k"
  then have "(c, k) \<in> set FIRST_SUFFIX_TO_PREFIX"
    by (auto simp: suffix_prefix_def py_dict_def dest: map_of_SomeD split: option.splits)
  then show "k \<in> set prefixes"
    by (force simp: FIRST_SUFFIX_TO_PREFIX_def PREFIX_TO_FIRST_SUFFIX_def reverse_items_def)
qed

section \<open>A pickcode taken apart\<close>

lemma length_translate [simp]: "length (translate t s) = length s"
  by (simp add: translate_def)

lemma translate_append [simp]: "translate t (a @ b) = translate t a @ translate t b" "translate t [] = []"
  by (simp_all add: translate_def)

lemma last_four_suffix [simp]: "length z = 4 \<Longrightarrow> last_four (x @ z) = z"
  by (simp add: last_four_def)

lemma pickcode_parts:
  assumes "k \<in> set prefixes" "m \<noteq> []" "length z = 4"
    "table_of PREFIX_TO_TRANSTAB_REV k = Inr r"
  shows "get_stable_point (k @ m @ z) = Inr (translate r z)"
    "pickcode_to_id (k @ m @ z) = b36decode (translate r m)"
    "is_valid_pickcode (k @ m @ z) =
      (if list_all in_alphabet (m @ z) then bindR (suffix_prefix (hd z)) (\<lambda>j. Inr (k = j)) else Inr False)"
proof -
  have l: "last_four (k @ m @ z) = z" "last_four (x # y # m @ z) = z" "last_four (x # m @ z) = z" for x y
    using assms(3) last_four_suffix [of z "x # y # m"] last_four_suffix [of z "x # m"] last_four_suffix [of z "k @ m"]
    by simp_all
  have ml: "0 < length m" using assms(2) by simp
  have f: "codes ''f'' = [102]" by (simp add: codes_def)
  have "list_all in_alphabet k" using assms(1) unfolding prefixes_eq by (auto simp: codes_def in_alphabet_def)
  then have a: "list_all (\<lambda>c. c \<in> set ALPHABET) (k @ m @ z) = list_all in_alphabet (m @ z)"
    by (simp add: set_ALPHABET)
  consider x where "k = [102, x]" "k \<in> set FOLDER_PREFIXES" | c where "k = [c]" "c \<in> set FILE_PREFIXES" "c \<noteq> 102"
    using prefix_shape [OF assms(1)] by blast
  note kinds = this
  show "get_stable_point (k @ m @ z) = Inr (translate r z)"
  proof (cases rule: kinds)
    case (1 x)
    then show ?thesis using assms ml l by (simp add: get_stable_point_def Let_def)
  next
    case (2 c)
    have "c # xs \<notin> set FOLDER_PREFIXES" for xs
      using 2(3) by (auto simp: FOLDER_PREFIXES_def codes_def)
    then show ?thesis using 2 assms ml l by (simp add: get_stable_point_def Let_def)
  qed
  show "pickcode_to_id (k @ m @ z) = b36decode (translate r m)"
    by (cases rule: kinds) (use assms f in \<open>simp_all add: pickcode_to_id_def Let_def\<close>)
  show "is_valid_pickcode (k @ m @ z) =
      (if list_all in_alphabet (m @ z) then bindR (suffix_prefix (hd z)) (\<lambda>j. Inr (k = j)) else Inr False)"
  proof (cases rule: kinds)
    case (1 x)
    then show ?thesis using assms(1,3) ml l f a by (simp add: is_valid_pickcode_def Let_def)
  next
    case (2 c)
    then show ?thesis using assms(1,3) ml l f a by (simp add: is_valid_pickcode_def Let_def)
  qed
qed


section \<open>Ids back and forth\<close>

definition value36 :: "nat list \<Rightarrow> int \<Rightarrow> int" where
  "value36 ds acc = foldl (\<lambda>a d. a * 36 + int d) acc ds"

lemma int_loop_digits:
  "ds \<noteq> [] \<Longrightarrow> list_all (\<lambda>d. d < 36) ds \<Longrightarrow> int_loop 36 acc (map ((!) ALPHABET) ds) = Inr (value36 ds acc)"
proof (induction ds arbitrary: acc)
  case (Cons d ds)
  then show ?case
    using ALPHABET_nth [of d] ALPHABET_nth [of "hd ds"] by (cases ds) (simp_all add: value36_def)
qed simp

lemma b36decode_digits:
  assumes "ds \<noteq> []" "list_all (\<lambda>d. d < 36) ds"
  shows "b36decode (map ((!) ALPHABET) ds) = Inr (value36 ds 0)"
proof -
  let ?s = "map ((!) ALPHABET) ds"
  have n: "c \<notin> {45, 43}" "\<not> is_blank c" if "c \<in> set ?s" for c
    using that assms(2) ALPHABET_nth by (auto simp: list_all_iff)
  have "dropWhile is_blank xs = xs" if "set xs \<subseteq> set ?s" for xs
    using that n(2) by (cases xs) auto
  then have "rev (dropWhile is_blank (rev (dropWhile is_blank ?s))) = ?s" by simp
  moreover have "hd ?s \<in> set ?s" using assms(1) by (intro hd_in_set) simp
  then have "hd ?s \<noteq> 45" "hd ?s \<noteq> 43" using n(1) by blast+
  ultimately show ?thesis
    using int_loop_digits [OF assms, of 0] by (simp add: b36decode_def py_int_def Let_def)
qed

lemma b36_digits_back:
  "\<exists>ds. b36_digits n chars = map ((!) ALPHABET) ds @ chars \<and> list_all (\<lambda>d. d < 36) ds \<and>
     (0 < n \<longrightarrow> ds \<noteq> []) \<and> value36 ds 0 = int n"
proof (induction n chars rule: b36_digits.induct)
  case (1 n chars)
  show ?case
  proof (cases "n = 0")
    case True
    then show ?thesis by (intro exI [of _ "[]"]) (simp add: b36_digits.simps value36_def)
  next
    case False
    from 1 [OF this] obtain ds where d:
      "b36_digits (n div 36) (ALPHABET ! (n mod 36) # chars) = map ((!) ALPHABET) ds @ ALPHABET ! (n mod 36) # chars"
      "list_all (\<lambda>d. d < 36) ds" "value36 ds 0 = int (n div 36)" by blast
    have "int (n div 36) * 36 + int (n mod 36) = int n"
      by (metis div_mult_mod_eq of_nat_add of_nat_mult of_nat_numeral)
    with d False show ?thesis
      by (intro exI [of _ "ds @ [n mod 36]"]) (simp add: b36_digits.simps [of n] value36_def)
  qed
qed

lemma b36_round_trip:
  assumes "0 < i"
  shows "b36decode (b36encode i) = Inr i" "b36encode i \<noteq> []" "list_all in_alphabet (b36encode i)"
proof -
  have "\<exists>ds. b36encode i = map ((!) ALPHABET) ds \<and> list_all (\<lambda>d. d < 36) ds \<and> ds \<noteq> [] \<and> value36 ds 0 = i"
  proof (cases "nat i < 36")
    case True
    then show ?thesis
      using assms by (intro exI [of _ "[nat i]"]) (simp add: b36encode_def value36_def Let_def)
  next
    case False
    then show ?thesis
      using assms b36_digits_back [of "nat i" "[]"] by (auto simp: b36encode_def Let_def)
  qed
  then obtain ds where d: "b36encode i = map ((!) ALPHABET) ds" "list_all (\<lambda>d. d < 36) ds" "ds \<noteq> []" "value36 ds 0 = i"
    by blast
  show "b36decode (b36encode i) = Inr i" "b36encode i \<noteq> []" using d b36decode_digits by simp_all
  have "length ALPHABET = 36" by (simp add: ALPHABET_eq)
  then show "list_all in_alphabet (b36encode i)"
    using d(1,2) by (auto simp: list_all_iff set_ALPHABET [symmetric])
qed

text \<open>What \<open>id_to_pickcode\<close> makes for a user with stable point \<open>q\<close>.\<close>

definition pickcode_shape :: "int \<Rightarrow> pystr \<Rightarrow> pystr \<Rightarrow> pystr res \<Rightarrow> bool" where
  "pickcode_shape i q pfx r \<longleftrightarrow>
     (\<exists>k t z. r = Inr (k @ translate t (b36encode i) @ z) \<and> (k, t) \<in> set PREFIX_TO_TRANSTAB \<and>
        length z = 4 \<and> translate (reverse_items t) z = q \<and> (pfx = [] \<or> pfx = k))"

lemma shape_from_pickcode:
  assumes pfx: "pfx = [] \<or> pfx \<in> set prefixes" and j: "j \<in> set prefixes" and n: "4 \<le> length sp"
    and q: "bindR (table_of PREFIX_TO_TRANSTAB_REV j) (\<lambda>transtab. Inr (translate transtab (last_four sp))) = Inr q"
  shows "pickcode_shape i q pfx
    (bindR (table_of PREFIX_TO_TRANSTAB (if pfx = [] then j else pfx)) (\<lambda>transtab.
       bindR (if pfx = [] \<or> pfx = j then Inr (last_four sp, if pfx = [] then j else pfx)
              else bindR (table_of PREFIX_TO_TRANSTAB_REV j) (\<lambda>r.
                Inr (translate transtab (translate r (last_four sp)), pfx))) (\<lambda>(suffix, p).
         Inr (p @ translate transtab (b36encode i) @ suffix))))"
proof -
  obtain t where t: "(j, t) \<in> set PREFIX_TO_TRANSTAB" "table_of PREFIX_TO_TRANSTAB j = Inr t"
    "table_of PREFIX_TO_TRANSTAB_REV j = Inr (reverse_items t)" by (rule prefix_tables [OF j])
  have l: "length (last_four sp) = 4" using n by (simp add: last_four_def)
  show ?thesis
  proof (cases "pfx = [] \<or> pfx = j")
    case True
    then show ?thesis
      using t q l unfolding pickcode_shape_def by (intro exI [of _ j] exI [of _ t] exI [of _ "last_four sp"]) auto
  next
    case False
    with pfx have "pfx \<in> set prefixes" by blast
    from prefix_tables [OF this] obtain u where u: "(pfx, u) \<in> set PREFIX_TO_TRANSTAB"
      "table_of PREFIX_TO_TRANSTAB pfx = Inr u" by blast
    with False t q l show ?thesis
      unfolding pickcode_shape_def
      by (intro exI [of _ pfx] exI [of _ u] exI [of _ "translate u q"]) (auto simp: substitution_back)
  qed
qed

lemma shape_from_point:
  assumes pfx: "pfx = [] \<or> pfx \<in> set prefixes" and l: "length q = 4" and k: "k = (if pfx = [] then codes ''a'' else pfx)"
  shows "pickcode_shape i q pfx
    (bindR (table_of PREFIX_TO_TRANSTAB k) (\<lambda>transtab. Inr (k @ translate transtab (b36encode i) @ translate transtab q)))"
proof -
  have "k \<in> set prefixes" using pfx unfolding k prefixes_eq by auto
  from prefix_tables [OF this] obtain t where t: "(k, t) \<in> set PREFIX_TO_TRANSTAB"
    "table_of PREFIX_TO_TRANSTAB k = Inr t" by blast
  with l k show ?thesis
    unfolding pickcode_shape_def
    by (intro exI [of _ k] exI [of _ t] exI [of _ "translate t q"]) (simp add: substitution_back)
qed

lemma id_to_pickcode_shape:
  assumes "0 < i" "get_stable_point sp = Inr q" "pfx = [] \<or> pfx \<in> set prefixes"
  shows "pickcode_shape i q pfx (id_to_pickcode i sp pfx)"
proof -
  define n where "n = length sp"
  let ?folder = "6 \<le> n \<and> take 2 sp \<in> set FOLDER_PREFIXES" and ?file = "5 \<le> n \<and> hd sp \<in> set FILE_PREFIXES"
  define k where "k = (if pfx = [] then codes ''a'' else pfx)"
  have kk: "(if pfx = [] then if pfx = [] then codes ''a'' else pfx else pfx) = k" by (simp add: k_def)
  note idd = id_to_pickcode_def Let_def n_def [symmetric] and gsp = get_stable_point_def Let_def n_def [symmetric]
  note from_point = shape_from_point [OF assms(3) _ k_def, of _ i] and from_code = shape_from_pickcode [OF assms(3), of _ sp q i]
  have lf: "(if n > 4 then last_four sp else sp) = last_four sp" "length (last_four sp) = 4" if "4 \<le> n"
    using that by (simp_all add: last_four_def n_def)
  consider "n < 4" | "4 \<le> n" ?folder | "4 \<le> n" "\<not> ?folder" ?file | "4 \<le> n" "\<not> ?folder" "\<not> ?file" by linarith
  then show ?thesis
  proof cases
    case 1
    then have q: "replicate (4 - n) 48 @ sp = q" using assms(2) by (simp add: gsp)
    have "length q = 4" using 1 by (simp add: n_def flip: q)
    moreover have "id_to_pickcode i sp pfx = bindR (table_of PREFIX_TO_TRANSTAB k) (\<lambda>transtab.
      Inr (k @ translate transtab (b36encode i) @ translate transtab q))"
      using 1 assms(1) by (simp add: idd q kk flip: k_def) (simp add: k_def)
    ultimately show ?thesis using from_point by simp
  next
    case 2
    then have "sp \<noteq> []" by (auto simp: n_def)
    with 2 show ?thesis
      using from_code [OF folder_is_prefix, of "take 2 sp"] assms(1,2) lf by (cases "pfx = []"; cases "pfx = take 2 sp") (simp_all add: idd gsp)
  next
    case 3
    then have t: "take 1 sp = [hd sp]" by (cases sp) (simp_all add: n_def)
    show ?thesis
      using from_code [OF file_is_prefix, of "hd sp"] 3 t assms(1,2) lf
      by (cases "pfx = []"; cases "pfx = [hd sp]") (auto simp: idd gsp)
  next
    case 4
    show ?thesis
    proof (cases "hd (last_four sp) = 48")
      case True
      then have q: "last_four sp = q" using 4 assms(2) by (auto simp: gsp)
      have "id_to_pickcode i sp pfx = bindR (table_of PREFIX_TO_TRANSTAB k) (\<lambda>transtab.
        Inr (k @ translate transtab (b36encode i) @ translate transtab q))"
        using True 4 assms(1) lf by (auto simp: idd q k_def)
      then show ?thesis using from_point lf(2) 4(1) q by simp
    next
      case False
      with 4 assms(2) obtain j where j: "suffix_prefix (hd (last_four sp)) = Inr j"
        by (auto simp: gsp res_simps)
      show ?thesis
        using from_code [OF suffix_prefix_known [OF j]] False 4 lf j assms(1,2)
        by (cases "pfx = []"; cases "pfx = j") (auto simp: idd gsp)
    qed
  qed
qed


section \<open>Properties\<close>

text \<open>
  C28. A pickcode carries its id and its user: made for a positive id, from anything that
  shows the user's stable point (the point itself, a shorter piece of it, the last four
  characters of a pickcode, or any pickcode of the user) and with any of the ten prefixes
  or none, it decodes to the id and shows the same stable point, starts with the prefix
  asked for, and passes the validity check whenever the stable point starts with 0 and
  uses the alphabet.
\<close>

theorem pickcode_round_trip:
  assumes "0 < i" "get_stable_point sp = Inr q" "pfx = [] \<or> pfx \<in> set prefixes"
  shows "\<exists>s. id_to_pickcode i sp pfx = Inr s \<and> pickcode_to_id s = Inr i \<and> get_stable_point s = Inr q \<and>
    take (length pfx) s = pfx \<and>
    (hd q = 48 \<and> list_all in_alphabet q \<longrightarrow> is_valid_pickcode s = Inr True)"
proof -
  from id_to_pickcode_shape [OF assms] obtain k t z where
    s: "id_to_pickcode i sp pfx = Inr (k @ translate t (b36encode i) @ z)" and t: "(k, t) \<in> set PREFIX_TO_TRANSTAB"
    and z: "length z = 4" "translate (reverse_items t) z = q" and p: "pfx = [] \<or> pfx = k"
    unfolding pickcode_shape_def by blast
  have k: "k \<in> set prefixes" using t by force
  from prefix_tables [OF k] obtain u where "(k, u) \<in> set PREFIX_TO_TRANSTAB"
    "table_of PREFIX_TO_TRANSTAB_REV k = Inr (reverse_items u)" by blast
  moreover have "u = t" using calculation(1) t distinct_prefixes by (auto dest: eq_key_imp_eq_value)
  ultimately have r: "table_of PREFIX_TO_TRANSTAB_REV k = Inr (reverse_items t)" by simp
  note b = b36_round_trip [OF assms(1)]
  have m: "translate t (b36encode i) \<noteq> []" using b(2) by (simp add: translate_def)
  note parts = pickcode_parts [OF k m z(1) r, unfolded z(2) substitution_back(1) [OF t] b(1)]
  have zq: "z = translate t q" using substitution_back(2) [OF t, of z] z(2) by simp
  have "is_valid_pickcode (k @ translate t (b36encode i) @ z) = Inr True" if "hd q = 48" "list_all in_alphabet q"
  proof -
    have "length q = 4" using z by auto
    with that(1) obtain qs where q: "q = 48 # qs" by (cases q) auto
    have "list_all in_alphabet (translate t (b36encode i) @ z)"
      using translate_alphabet [OF t] b(3) that(2) zq by simp
    moreover have "hd z = the (py_dict t 48)"
      using first_digit [OF t] by (auto simp: zq q translate_def)
    ultimately show ?thesis using parts(3) suffix_prefix_iff [OF t, of "hd z"] by simp
  qed
  then show ?thesis using s parts(1,2) p by auto
qed

theorem pickcode_round_trip_witness:
  "\<exists>s. id_to_pickcode 3101987 (codes ''0k2x'') (codes ''fc'') = Inr s \<and> pickcode_to_id s = Inr 3101987 \<and>
     is_valid_pickcode s = Inr True"
proof -
  have "get_stable_point (codes ''0k2x'') = Inr (codes ''0k2x'')" "codes ''fc'' \<in> set prefixes"
    "hd (codes ''0k2x'') = 48" "list_all in_alphabet (codes ''0k2x'')"
    unfolding prefixes_eq by (simp_all add: codes_def get_stable_point_def last_four_def in_alphabet_def)
  then show ?thesis using pickcode_round_trip [of 3101987 "codes ''0k2x''"] by auto
qed

text \<open>The validity check does not answer for every text: an unknown suffix raises.\<close>

lemma validity_raises: "is_valid_pickcode (codes ''a00000'') = Inl (KeyError 48)"
  by code_simp

end
