(* ===== verification/P115_Cipher.thy ===== *)
theory P115_Cipher
  imports Base64 Aes_Modes Rsa
begin

text \<open>
  p115client's ciphers (\<open>p115client/modules/p115cipher/p115cipher\<close>, \<open>__init__.py\<close> and
  \<open>util.py\<close>): the exclusive-or layers with their derived keys, the RSA layer over padded blocks,
  the requests and answers made of them, and the upload token.

  The key pair and the block size, which the code takes from defaults, are arguments, so that
  statements can be made about a pair whose private half is known; CRC-32 is an argument.
\<close>

section \<open>Exclusive or\<close>

text \<open>\<open>acc_step\<close> for \<open>start \<le> stop\<close> and a step other than 0: a negative step makes its range
  empty.\<close>

function acc_step :: "nat \<Rightarrow> nat \<Rightarrow> int \<Rightarrow> (nat \<times> nat \<times> nat) list" where
  "acc_step start stop step =
     (if 0 < step \<and> int start + step < int stop
      then (start, start + nat step, nat step) # acc_step (start + nat step) stop step
      else if start \<noteq> stop then [(start, stop, stop - start)] else [])"
  by pat_completeness auto
termination
  by (relation "measure (\<lambda>(start, stop, step). stop - start)") auto

declare acc_step.simps [simp del]

text \<open>\<open>bytes_xor\<close> in the big-endian order that all callers use.\<close>

definition bytes_xor :: "bytes \<Rightarrow> bytes \<Rightarrow> nat \<Rightarrow> bytes res" where
  "bytes_xor v1 v2 n =
     (let (v1, v2, n) = (if n \<noteq> 0 then (take n v1, take n v2, n) else (v1, v2, length v1))
      in to_bytes_be n False (from_bytes_be False v1 XOR from_bytes_be False v2))"

text \<open>The head of \<open>len(src) mod 4\<close> bytes is combined with the beginning of the key, then the key
  starts over; \<open>range\<close> refuses an empty key.\<close>

definition xor_key :: "bytes \<Rightarrow> bytes \<Rightarrow> bytes res" where
  "xor_key src key =
     (if key = [] then Inl ValueError
      else let i = length src AND 3
           in bindR (if i \<noteq> 0 then bytes_xor src key i else Inr []) (\<lambda>secret.
              bindR (mapR (\<lambda>(i, j, s). bytes_xor (pyslice i j src) (take s key) 0)
                       (acc_step i (length src) (int (length key)))) (\<lambda>parts.
              Inr (secret @ concat parts))))"

definition G_kts :: bytes where
  "G_kts =
     [0xf0, 0xe5, 0x69, 0xae, 0xbf, 0xdc, 0xbf, 0x8a, 0x1a, 0x45, 0xe8, 0xbe, 0x7d, 0xa6, 0x73, 0xb8,
      0xde, 0x8f, 0xe7, 0xc4, 0x45, 0xda, 0x86, 0xc4, 0x9b, 0x64, 0x8b, 0x14, 0x6a, 0xb4, 0xf1, 0xaa,
      0x38, 0x01, 0x35, 0x9e, 0x26, 0x69, 0x2c, 0x86, 0x00, 0x6b, 0x4f, 0xa5, 0x36, 0x34, 0x62, 0xa6,
      0x2a, 0x96, 0x68, 0x18, 0xf2, 0x4a, 0xfd, 0xbd, 0x6b, 0x97, 0x8f, 0x4d, 0x8f, 0x89, 0x13, 0xb7,
      0x6c, 0x8e, 0x93, 0xed, 0x0e, 0x0d, 0x48, 0x3e, 0xd7, 0x2f, 0x88, 0xd8, 0xfe, 0xfe, 0x7e, 0x86,
      0x50, 0x95, 0x4f, 0xd1, 0xeb, 0x83, 0x26, 0x34, 0xdb, 0x66, 0x7b, 0x9c, 0x7e, 0x9d, 0x7a, 0x81,
      0x32, 0xea, 0xb6, 0x33, 0xde, 0x3a, 0xa9, 0x59, 0x34, 0x66, 0x3b, 0xaa, 0xba, 0x81, 0x60, 0x48,
      0xb9, 0xd5, 0x81, 0x9c, 0xf8, 0x6c, 0x84, 0x77, 0xff, 0x54, 0x78, 0x26, 0x5f, 0xbe, 0xe8, 0x1e,
      0x36, 0x9f, 0x34, 0x80, 0x5c, 0x45, 0x2c, 0x9b, 0x76, 0xd5, 0x1b, 0x8f, 0xcc, 0xc3, 0xb8, 0xf5]"

text \<open>The addition wraps at a byte.\<close>

definition gen_key_byte :: "bytes \<Rightarrow> nat \<Rightarrow> nat \<Rightarrow> byte res" where
  "gen_key_byte rand_key sk_len i =
     (let index = sk_len * i; start = sk_len * (sk_len - 1 - i)
      in if i < length rand_key \<and> index < length G_kts \<and> start < length G_kts
         then Inr (G_kts ! start XOR (rand_key ! i + G_kts ! index))
         else Inl IndexError)"

definition rsa_gen_key :: "bytes \<Rightarrow> nat \<Rightarrow> bytes res" where
  "rsa_gen_key rand_key sk_len = mapR (gen_key_byte rand_key sk_len) [0..<sk_len]"

section \<open>The RSA layer\<close>

record key_pair =
  block_size :: nat
  modulus_n :: int
  exponent_e :: int

definition RSA_PUBKEY_PAIR :: key_pair where
  "RSA_PUBKEY_PAIR =
     \<lparr>block_size = 128,
      modulus_n = 0x8686980c0f5a24c4b9d43020cd2c22703ff3f450756529058b1cf88f09b8602136477198a6e2683149659bd122c33592fdb5ad47944ad1ea4d36c6b172aad6338c3bb6ac6227502d010993ac967d1aef00f0c8e038de2e4d3bc2ec368af2e9f10a6f1eda4f7262f136420c07c331b871bf139f74f3010e3c4fe57df3afb71683,
      exponent_e = 0x10001\<rparr>"

definition pad_pkcs1_v1_5 :: "bytes \<Rightarrow> nat \<Rightarrow> int" where
  "pad_pkcs1_v1_5 message k = be_int ([0] @ replicate (k - 2 - length message) 2 @ [0] @ message)"

definition rsa_encrypt_with_pubkey :: "bytes \<Rightarrow> key_pair \<Rightarrow> bytes res" where
  "rsa_encrypt_with_pubkey data k =
     (if block_size k = 11 then Inl ValueError
      else bindR (mapR (\<lambda>(l, r, _).
                bindR (py_pow (pad_pkcs1_v1_5 (pyslice l r data) (block_size k)) (exponent_e k) (modulus_n k))
                  (to_bytes_be (block_size k) False))
              (acc_step 0 (length data) (int (block_size k) - 11)))
           (\<lambda>parts. Inr (concat parts)))"

function bit_length :: "nat \<Rightarrow> nat" where
  "bit_length n = (if n = 0 then 0 else Suc (bit_length (n div 2)))"
  by pat_completeness auto
termination
  by (relation "measure (\<lambda>n. n)") auto

declare bit_length.simps [simp del]

text \<open>\<open>memoryview(b)[b.index(0)+1:]\<close>.\<close>

definition after_zero :: "bytes \<Rightarrow> bytes res" where
  "after_zero b = (if 0 \<in> set b then Inr (tl (dropWhile (\<lambda>x. x \<noteq> 0) b)) else Inl ValueError)"

definition rsa_decrypt_with_pubkey :: "bytes \<Rightarrow> key_pair \<Rightarrow> bytes res" where
  "rsa_decrypt_with_pubkey cipher_data k =
     (if block_size k = 0 then Inl ValueError
      else bindR (mapR (\<lambda>(l, r, _).
                bindR (py_pow (be_int (pyslice l r cipher_data)) (exponent_e k) (modulus_n k)) (\<lambda>p.
                bindR (to_bytes_be ((bit_length (nat p) + 7) div 8) False p) after_zero))
              (acc_step 0 (length cipher_data) (int (block_size k))))
           (\<lambda>parts. Inr (concat parts)))"

section \<open>Requests and answers\<close>

definition G_key_l :: bytes where
  "G_key_l = [120, 6, 173, 76, 51, 134, 93, 24, 76, 1, 63, 70]"

definition RSA_RAND_KEY :: bytes where "RSA_RAND_KEY = replicate 16 0"

definition RSA_KEY :: bytes where "RSA_KEY = [0x8d, 0xa5, 0xa5, 0x8d]"

text \<open>\<open>None\<close> is the default, which the code tells by identity.\<close>

definition short_key :: "bytes option \<Rightarrow> bytes res" where
  "short_key rand_key = (case rand_key of None \<Rightarrow> Inr RSA_KEY | Some r \<Rightarrow> rsa_gen_key r 4)"

definition p115_rsa_encrypt :: "key_pair \<Rightarrow> bytes \<Rightarrow> bytes option \<Rightarrow> pystr res" where
  "p115_rsa_encrypt k data rand_key =
     bindR (short_key rand_key) (\<lambda>key.
     bindR (xor_key data key) (\<lambda>x.
     bindR (xor_key (rev x) G_key_l) (\<lambda>y.
     bindR (rsa_encrypt_with_pubkey ((case rand_key of None \<Rightarrow> RSA_RAND_KEY | Some r \<Rightarrow> r) @ y) k) (\<lambda>c.
     Inr (b64encode False c)))))"

text \<open>\<open>base64.b64decode\<close>.\<close>

definition b64decode :: "pystr \<Rightarrow> bytes res" where
  "b64decode s = a2b_base64 False s"

definition p115_rsa_decrypt :: "key_pair \<Rightarrow> pystr \<Rightarrow> bytes option \<Rightarrow> bytes res" where
  "p115_rsa_decrypt k cipher_data rand_key =
     bindR (short_key rand_key) (\<lambda>key.
     bindR (b64decode cipher_data) (\<lambda>c.
     bindR (rsa_decrypt_with_pubkey c k) (\<lambda>view.
     bindR (rsa_gen_key (take 16 view) 12) (\<lambda>key_l.
     bindR (xor_key (drop 16 view) key_l) (\<lambda>tmp.
     xor_key (rev tmp) key)))))"

section \<open>The upload token\<close>

definition TOKEN_SALT :: bytes where
  "TOKEN_SALT = [94, 106, 62, 87, 68, 51, 75, 114, 63, 74, 50, 103, 76, 70, 106, 68, 52, 87, 50, 121, 64]"

definition encode_token :: "(bytes \<Rightarrow> int) \<Rightarrow> int \<Rightarrow> bytes \<Rightarrow> pystr res" where
  "encode_token crc32 timestamp pubkey =
     bindR (to_bytes_le 4 False timestamp) (\<lambda>t.
       let token = take 15 pubkey @ [0, 115, 0, 0, 0] @ t @ drop 15 pubkey @ [0, 1, 0, 0, 0]
       in bindR (to_bytes_le 4 False (crc32 (TOKEN_SALT @ token))) (\<lambda>c. Inr (b64encode False (token @ c))))"

text \<open>\<open>b_xor\<close>, with the byte \<open>i\<close> for every byte.\<close>

definition mask_bytes :: "bytes \<Rightarrow> byte \<Rightarrow> bytes" where
  "mask_bytes b i = (if i \<noteq> 0 then map (\<lambda>c. c XOR i) b else b)"

definition decode_token :: "pystr \<Rightarrow> (int \<times> bytes) res" where
  "decode_token token =
     bindR (b64decode token) (\<lambda>data.
       if length data \<le> 39 then Inl IndexError
       else let r1 = data ! 15; r2 = data ! 39
            in Inr (from_bytes_le False (mask_bytes (pyslice 20 24 data) r1),
                    mask_bytes (take 15 data) r1 @ mask_bytes (pyslice 24 39 data) r2))"

end
