(* ===== verification/P115_Cipher_Laws.thy ===== *)
theory P115_Cipher_Laws
  imports P115_Cipher
begin

text \<open>
  What p115client's ciphers promise: the exclusive-or layer is its own inverse and equals a
  plain repeated key behind a short head; blocks survive the two halves of a key pair; requests
  open at the server and its answers at the client; tokens decode.
\<close>

section \<open>Exclusive or\<close>

lemma and_3: "n AND 3 = n mod (4 :: nat)"
  using take_bit_eq_mask [of 2 n] by (simp add: take_bit_eq_mod mask_eq_exp_minus_1)

lemma bytes_xor_whole: "length k = length s \<Longrightarrow> bytes_xor s k 0 = Inr (xor_bytes s k)"
  using py_xor_eq [of s k] by (simp add: bytes_xor_def py_xor_def)

lemma bytes_xor_head:
  "0 < i \<Longrightarrow> i \<le> length s \<Longrightarrow> i \<le> length k \<Longrightarrow> bytes_xor s k i = Inr (xor_bytes (take i s) (take i k))"
  using py_xor_eq [of "take i s" "take i k"] by (simp add: bytes_xor_def py_xor_def)

text \<open>The pieces of \<open>acc_step\<close> are the chunks of what lies behind its start.\<close>

lemma acc_step_chunks:
  assumes "0 < n" "start \<le> length xs"
  shows "map (\<lambda>(i, j, s). pyslice i j xs) (acc_step start (length xs) (int n)) = chunks n (drop start xs) \<and>
    (\<forall>(i, j, s) \<in> set (acc_step start (length xs) (int n)). s = length (pyslice i j xs))"
  using assms(2)
proof (induction "length xs - start" arbitrary: start rule: less_induct)
  case less
  show ?case
  proof (cases "start + n < length xs")
    case True
    then have "acc_step start (length xs) (int n) = (start, start + n, n) # acc_step (start + n) (length xs) (int n)"
      using assms(1) by (subst acc_step.simps) simp
    moreover have "length xs - (start + n) < length xs - start" using True assms(1) by simp
    ultimately show ?thesis
      using less.hyps [of "start + n"] True assms(1)
      by (simp add: chunks_step pyslice_def add.commute)
  next
    case False
    then have "acc_step start (length xs) (int n) = (if start \<noteq> length xs then [(start, length xs, length xs - start)] else [])"
      by (subst acc_step.simps) simp
    with False less.prems assms(1) show ?thesis
      by (cases "start = length xs") (simp_all add: chunks_step pyslice_def)
  qed
qed

lemma mapR_acc_step:
  assumes "0 < n" "start \<le> length xs"
  shows "mapR (\<lambda>(i, j, s). f (pyslice i j xs) s) (acc_step start (length xs) (int n)) =
    mapR (\<lambda>c. f c (length c)) (chunks n (drop start xs))"
proof -
  note a = acc_step_chunks [OF assms]
  have step: "mapR (\<lambda>(i, j, s). f (pyslice i j xs) s) ps = mapR (\<lambda>c. f c (length c)) (map (\<lambda>(i, j, s). pyslice i j xs) ps)"
    if "\<forall>(i, j, s) \<in> set ps. s = length (pyslice i j xs)" for ps
    using that by (induction ps) (auto simp: case_prod_unfold)
  show ?thesis unfolding conjunct1 [OF a, symmetric] by (rule step [OF conjunct2 [OF a]])
qed

text \<open>A key that repeats for ever.\<close>

definition repeat_xor :: "bytes \<Rightarrow> bytes \<Rightarrow> bytes" where
  "repeat_xor s k = map (\<lambda>i. s ! i XOR k ! (i mod length k)) [0..<length s]"

lemma length_repeat_xor [simp]: "length (repeat_xor s k) = length s"
  by (simp add: repeat_xor_def)

lemma repeat_xor_cancel [simp]: "repeat_xor (repeat_xor s k) k = s"
  by (rule nth_equalityI) (simp_all add: repeat_xor_def)

lemma xor_bytes_nth: "xor_bytes s k = map (\<lambda>i. s ! i XOR k ! i) [0..<min (length s) (length k)]"
  by (rule nth_equalityI) (simp_all add: xor_bytes_def)

lemma repeat_xor_chunks:
  "k \<noteq> [] \<Longrightarrow> concat (map (\<lambda>c. xor_bytes c (take (length c) k)) (chunks (length k) s)) = repeat_xor s k"
proof (induction "length k" s rule: chunks.induct)
  case (1 s)
  show ?case
  proof (cases "s = []")
    case True
    then show ?thesis by (simp add: repeat_xor_def)
  next
    case False
    let ?c = "take (length k) s"
    have "concat (map (\<lambda>c. xor_bytes c (take (length c) k)) (chunks (length k) s)) =
      xor_bytes ?c (take (length ?c) k) @ repeat_xor (drop (length k) s) k"
      using 1 False by (simp add: chunks_step)
    also have "\<dots> = repeat_xor s k"
      by (rule nth_equalityI)
        (auto simp: repeat_xor_def xor_bytes_def nth_append min_def le_mod_geq not_less)
    finally show ?thesis .
  qed
qed

definition head_xor :: "bytes \<Rightarrow> bytes \<Rightarrow> bytes" where
  "head_xor s k =
     (let i = length s mod 4 in xor_bytes (take i s) (take i k) @ repeat_xor (drop i s) k)"

lemma xor_key_eq:
  assumes "3 \<le> length k"
  shows "xor_key s k = Inr (head_xor s k)"
proof -
  let ?i = "length s mod 4"
  have i: "?i \<le> length s" "?i \<le> length k" "k \<noteq> []" using assms mod_less_divisor [of 4 "length s"] by (auto simp del: mod_less_divisor)
  have h: "(if ?i \<noteq> 0 then bytes_xor s k ?i else Inr []) = Inr (xor_bytes (take ?i s) (take ?i k))"
    using i by (simp add: bytes_xor_head)
  have "mapR (\<lambda>c. bytes_xor c (take (length c) k) 0) (chunks (length k) (drop ?i s)) =
    Inr (map (\<lambda>c. xor_bytes c (take (length c) k)) (chunks (length k) (drop ?i s)))"
    using i by (intro mapR_total bytes_xor_whole) (auto dest: chunks_lengths [rotated])
  moreover have "mapR (\<lambda>(i, j, t). bytes_xor (pyslice i j s) (take t k) 0) (acc_step ?i (length s) (int (length k))) =
    mapR (\<lambda>c. bytes_xor c (take (length c) k) 0) (chunks (length k) (drop ?i s))"
    using mapR_acc_step [of "length k" ?i s "\<lambda>c t. bytes_xor c (take t k) 0"] i by simp
  ultimately show ?thesis
    using h i by (simp add: xor_key_def and_3 Let_def head_xor_def repeat_xor_chunks)
qed

lemma length_head_xor [simp]: "3 \<le> length k \<Longrightarrow> length (head_xor s k) = length s"
  using mod_less_divisor [of 4 "length s"] by (simp add: head_xor_def Let_def)

lemma head_xor_cancel: "3 \<le> length k \<Longrightarrow> head_xor (head_xor s k) k = s"
proof -
  assume k: "3 \<le> length k"
  let ?i = "length s mod 4"
  have i: "?i \<le> length s" "?i \<le> length k" using k mod_less_divisor [of 4 "length s"] by linarith+
  have "head_xor (head_xor s k) k =
    xor_bytes (take ?i (head_xor s k)) (take ?i k) @ repeat_xor (drop ?i (head_xor s k)) k"
    using k by (simp add: head_xor_def [of "head_xor s k"] Let_def)
  also have "take ?i (head_xor s k) = xor_bytes (take ?i s) (take ?i k)"
    using i by (simp add: head_xor_def Let_def)
  also have "drop ?i (head_xor s k) = repeat_xor (drop ?i s) k"
    using i by (simp add: head_xor_def Let_def)
  finally show ?thesis using i by (simp add: xor_bytes_cancel)
qed

section \<open>Keys\<close>

lemma length_G_kts: "length G_kts = 144"
  by (simp add: G_kts_def)

lemma gen_key_total:
  assumes "n \<le> 12" "n \<le> length r"
  shows "\<exists>k. rsa_gen_key r n = Inr k \<and> length k = n"
proof -
  have b: "n * i < 144" "n * (n - 1 - i) < 144" if "i < n" for i
  proof -
    have "n * j \<le> 12 * 11" if "j < n" for j using that assms(1) by (intro mult_le_mono) auto
    from this [of i] this [of "n - 1 - i"] that show "n * i < 144" "n * (n - 1 - i) < 144" by auto
  qed
  have "rsa_gen_key r n = Inr (map (\<lambda>i. G_kts ! (n * (n - 1 - i)) XOR (r ! i + G_kts ! (n * i))) [0..<n])"
    unfolding rsa_gen_key_def using b assms(2)
    by (intro mapR_total) (simp add: gen_key_byte_def length_G_kts Let_def)
  then show ?thesis by simp
qed

lemma short_key_total:
  assumes "\<forall>r. rand_key = Some r \<longrightarrow> length r = 16"
  shows "\<exists>k. short_key rand_key = Inr k \<and> length k = 4"
  using assms gen_key_total [of 4] by (cases rand_key) (auto simp: short_key_def RSA_KEY_def)

text \<open>The default is not special for the short key.\<close>

lemma default_key: "short_key (Some RSA_RAND_KEY) = short_key None"
  by (simp add: short_key_def rsa_gen_key_def RSA_RAND_KEY_def RSA_KEY_def gen_key_byte_def G_kts_def eval_nat_numeral)

section \<open>Blocks\<close>

lemma bit_length_eq: "2 ^ k \<le> n \<Longrightarrow> n < 2 ^ Suc k \<Longrightarrow> bit_length n = Suc k"
proof (induction k arbitrary: n)
  case 0
  then have "n = 1" by simp
  then show ?case by (simp add: bit_length.simps)
next
  case (Suc k)
  then have "2 ^ k \<le> n div 2" "n div 2 < 2 ^ Suc k" by simp_all
  with Suc have "bit_length (n div 2) = Suc k" by blast
  moreover have "n \<noteq> 0" using Suc.prems(1) by (metis not_numeral_le_zero power_eq_0_iff le_zero_eq zero_neq_numeral)
  ultimately show ?case by (subst bit_length.simps) simp
qed

lemma le_int_append: "le_int (xs @ ys) = le_int xs + 256 ^ length xs * le_int ys"
  by (induction xs) (simp_all add: algebra_simps)

lemma be_int_Cons: "be_int (b # bs) = uint b * 256 ^ length bs + be_int bs"
  by (simp add: be_int_def le_int_append)

lemma be_int_bounds: "0 \<le> be_int bs" "be_int bs < 256 ^ length bs"
  using le_int_bounds [of "rev bs"] by (simp_all add: be_int_def)

lemma be_bytes_be_int: "length bs = k \<Longrightarrow> be_bytes k (be_int bs) = bs"
  by (simp add: be_bytes_def be_int_def le_bytes_le_int')

lemma padded_block:
  assumes "12 \<le> k" "length m \<le> k - 11"
  defines "x \<equiv> pad_pkcs1_v1_5 m k"
  shows "0 \<le> x" "x < 3 * 256 ^ (k - 2)"
    "bindR (to_bytes_be ((bit_length (nat x) + 7) div 8) False x) after_zero = Inr m"
proof -
  define j where "j = k - 3 - length m"
  define ys :: bytes where "ys = replicate j 2 @ 0 # m"
  have r: "replicate (k - 2 - length m) (2 :: byte) = 2 # replicate j 2"
    using assms(1,2) by (simp add: j_def flip: replicate_Suc)
  have l: "length ys = k - 2" using assms(1,2) by (simp add: ys_def j_def)
  have "x = be_int (0 # 2 # ys)" by (simp only: x_def pad_pkcs1_v1_5_def r ys_def append_Cons append_Nil)
  then have x: "x = be_int (2 # ys)" by (simp add: be_int_Cons)
  then have b: "2 * 256 ^ (k - 2) \<le> x" "x < 3 * 256 ^ (k - 2)"
    using be_int_bounds [of ys] by (simp_all add: be_int_Cons l)
  then show "x < 3 * 256 ^ (k - 2)" by simp
  have "0 \<le> 2 * (256 :: int) ^ (k - 2)" by simp
  then show p: "0 \<le> x" using b(1) by (rule order_trans)
  have "(256 :: int) ^ (k - 2) = 2 ^ (8 * (k - 2))" by (simp add: power_mult)
  then have "2 ^ Suc (8 * (k - 2)) \<le> x" "x < 2 ^ Suc (Suc (8 * (k - 2)))" using b by simp_all
  then have "2 ^ Suc (8 * (k - 2)) \<le> nat x" "nat x < 2 ^ Suc (Suc (8 * (k - 2)))"
    using p by (simp_all add: nat_less_iff le_nat_iff)
  then have "bit_length (nat x) = Suc (Suc (8 * (k - 2)))" by (rule bit_length_eq)
  moreover have "(Suc (Suc (8 * (k - 2))) + 7) div 8 = k - 1" using assms(1) by simp
  moreover have "to_bytes_be (k - 1) False x = Inr (2 # ys)"
  proof -
    have l2: "length (2 # ys) = k - 1" using assms(1) l by simp
    have "in_range False (k - 1) x" using be_int_bounds [of "2 # ys"] unfolding x in_range_def l2 by simp
    then show ?thesis using be_bytes_be_int [OF l2] unfolding to_bytes_be_def x by simp
  qed
  moreover have "dropWhile (\<lambda>x. x \<noteq> 0) ys = 0 # m"
    unfolding ys_def by (subst dropWhile_append2) auto
  ultimately show "bindR (to_bytes_be ((bit_length (nat x) + 7) div 8) False x) after_zero = Inr m"
    by (simp add: after_zero_def) (simp add: ys_def)
qed

text \<open>Two halves of a key pair: \<open>b\<close> undoes \<open>a\<close>, and the modulus fills its blocks.\<close>

definition halves :: "key_pair \<Rightarrow> key_pair \<Rightarrow> bool" where
  "halves a b \<longleftrightarrow>
     block_size b = block_size a \<and> modulus_n b = modulus_n a \<and> 12 \<le> block_size a \<and>
     3 * 256 ^ (block_size a - 2) \<le> modulus_n a \<and> modulus_n a \<le> 256 ^ block_size a \<and>
     (\<forall>x. 0 \<le> x \<longrightarrow> x < modulus_n a \<longrightarrow>
        (x ^ nat (exponent_e a) mod modulus_n a) ^ nat (exponent_e b) mod modulus_n a = x)"

lemma RSA_PUBKEY_size:
  "3 * 256 ^ (block_size RSA_PUBKEY_PAIR - 2) \<le> modulus_n RSA_PUBKEY_PAIR"
  "modulus_n RSA_PUBKEY_PAIR \<le> 256 ^ block_size RSA_PUBKEY_PAIR"
  by (simp_all add: RSA_PUBKEY_PAIR_def)

definition sealed_block :: "key_pair \<Rightarrow> bytes \<Rightarrow> bytes" where
  "sealed_block a m =
     be_bytes (block_size a) (pad_pkcs1_v1_5 m (block_size a) ^ nat (exponent_e a) mod modulus_n a)"

lemma sealed_block:
  assumes "halves a b" "length m \<le> block_size a - 11"
  shows "bindR (py_pow (pad_pkcs1_v1_5 m (block_size a)) (exponent_e a) (modulus_n a)) (to_bytes_be (block_size a) False) =
      Inr (sealed_block a m)"
    "bindR (py_pow (be_int (sealed_block a m)) (exponent_e b) (modulus_n b)) (\<lambda>p.
       bindR (to_bytes_be ((bit_length (nat p) + 7) div 8) False p) after_zero) = Inr m"
proof -
  let ?k = "block_size a" and ?n = "modulus_n a" and ?x = "pad_pkcs1_v1_5 m (block_size a)"
  let ?y = "?x ^ nat (exponent_e a) mod ?n"
  have h: "12 \<le> ?k" "3 * 256 ^ (?k - 2) \<le> ?n" "?n \<le> 256 ^ ?k" "modulus_n b = ?n"
    using assms(1) by (simp_all add: halves_def)
  note p = padded_block [OF h(1) assms(2)]
  have x: "?x < ?n" "0 < ?n" using p(1,2) h(2) by linarith+
  then have "0 \<le> ?y" "?y < 256 ^ ?k" using h(3) pos_mod_bound [of ?n] by (simp, meson less_le_trans pos_mod_bound)
  then have r: "in_range False ?k ?y" by (simp add: in_range_def)
  show "bindR (py_pow ?x (exponent_e a) ?n) (to_bytes_be ?k False) = Inr (sealed_block a m)"
    using x(2) r by (simp add: py_pow_def to_bytes_be_def sealed_block_def)
  have "?y ^ nat (exponent_e b) mod ?n = ?x" using assms(1) p(1) x(1) by (simp add: halves_def)
  then show "bindR (py_pow (be_int (sealed_block a m)) (exponent_e b) (modulus_n b)) (\<lambda>p.
       bindR (to_bytes_be ((bit_length (nat p) + 7) div 8) False p) after_zero) = Inr m"
    using x(2) p(3) by (simp add: h(4) py_pow_def sealed_block_def be_int_be_bytes [OF r])
qed

lemma blocks_round_trip:
  assumes "halves a b"
  shows "\<exists>c. rsa_encrypt_with_pubkey data a = Inr c \<and> rsa_decrypt_with_pubkey c b = Inr data"
proof -
  let ?k = "block_size a" and ?cs = "chunks (block_size a - 11) data"
  have h: "12 \<le> ?k" "block_size b = ?k" using assms by (simp_all add: halves_def)
  have i: "int ?k - 11 = int (?k - 11)" using h(1) by simp
  have l: "length c \<le> ?k - 11" if "c \<in> set ?cs" for c using chunks_lengths [OF _ that] h(1) by simp
  have "mapR (\<lambda>(l, r, _). bindR (py_pow (pad_pkcs1_v1_5 (pyslice l r data) ?k) (exponent_e a) (modulus_n a))
      (to_bytes_be ?k False)) (acc_step 0 (length data) (int ?k - 11)) = Inr (map (sealed_block a) ?cs)"
    unfolding i
    using mapR_acc_step [of "?k - 11" 0 data "\<lambda>c _. bindR (py_pow (pad_pkcs1_v1_5 c ?k) (exponent_e a) (modulus_n a))
        (to_bytes_be ?k False)"] h(1) sealed_block(1) [OF assms l]
    by (simp add: mapR_total)
  then have e: "rsa_encrypt_with_pubkey data a = Inr (concat (map (sealed_block a) ?cs))"
    using h(1) by (simp add: rsa_encrypt_with_pubkey_def)
  let ?c = "concat (map (sealed_block a) ?cs)"
  have s: "chunks ?k ?c = map (sealed_block a) ?cs"
    using h(1) by (intro chunks_concat) (auto simp: sealed_block_def)
  let ?d = "\<lambda>c. bindR (py_pow (be_int c) (exponent_e b) (modulus_n b)) (\<lambda>p.
       bindR (to_bytes_be ((bit_length (nat p) + 7) div 8) False p) after_zero)"
  have "mapR ?d (map (sealed_block a) ?cs) = Inr ?cs"
  proof -
    have "mapR ?d (map (sealed_block a) cs) = Inr cs" if "\<forall>c \<in> set cs. length c \<le> ?k - 11" for cs
      using that sealed_block(2) [OF assms] by (induction cs) simp_all
    with l show ?thesis by blast
  qed
  then have "rsa_decrypt_with_pubkey ?c b = Inr (concat ?cs)"
    using mapR_acc_step [of ?k 0 ?c "\<lambda>c _. ?d c"] h s by (simp add: rsa_decrypt_with_pubkey_def)
  with e h(1) show ?thesis by simp
qed

section \<open>Requests and answers\<close>

lemma b64_standard: "b64decode (b64encode False bs) = Inr bs"
proof -
  have "from_urlsafe (b64_char False d) = b64_char False d" for d
    by (auto simp: from_urlsafe_def b64_char_def)
  then have g: "map from_urlsafe (b64_groups u xs) = b64_groups u xs" if "\<not> u" for u xs
    using that by (induction u xs rule: b64_groups.induct) auto
  have "map from_urlsafe (b64encode False bs) = b64encode False bs"
    by (simp add: b64encode_def g)
  then show ?thesis using urlsafe_round_trip(1) [of False bs] by (simp add: b64decode_def urlsafe_b64decode_def)
qed

text \<open>The server, which holds the other half: opening a request, sealing an answer under a key
  it draws.\<close>

definition server_open :: "key_pair \<Rightarrow> bytes option \<Rightarrow> pystr \<Rightarrow> bytes res" where
  "server_open k rand_key c =
     bindR (short_key rand_key) (\<lambda>key.
     bindR (b64decode c) (\<lambda>c.
     bindR (rsa_decrypt_with_pubkey c k) (\<lambda>v.
     bindR (xor_key (drop 16 v) G_key_l) (\<lambda>x. xor_key (rev x) key))))"

definition server_seal :: "key_pair \<Rightarrow> bytes option \<Rightarrow> bytes \<Rightarrow> bytes \<Rightarrow> pystr res" where
  "server_seal k rand_key drawn data =
     bindR (short_key rand_key) (\<lambda>key.
     bindR (rsa_gen_key drawn 12) (\<lambda>key_l.
     bindR (xor_key data key) (\<lambda>x.
     bindR (xor_key (rev x) key_l) (\<lambda>y.
     bindR (rsa_encrypt_with_pubkey (drawn @ y) k) (\<lambda>c. Inr (b64encode False c))))))"

text \<open>
  C39. Requests and answers of the RSA cipher cross the wire unchanged.  For every key pair whose
  halves undo each other on numbers below a modulus that fills its blocks, and every short key:
  a request always encrypts, and the server that holds the private half gets the data; the
  answer that it seals under any 16 bytes it draws decrypts to its data.  Data of any length,
  the empty one included.
\<close>

theorem rsa_exchange:
  assumes "halves pub priv" "halves priv pub" "\<forall>r. rand_key = Some r \<longrightarrow> length r = 16" "length drawn = 16"
  shows "(\<exists>c. p115_rsa_encrypt pub data rand_key = Inr c \<and> server_open priv rand_key c = Inr data) \<and>
    (\<exists>c. server_seal priv rand_key drawn answer = Inr c \<and> p115_rsa_decrypt pub c rand_key = Inr answer)"
proof -
  obtain k where k: "short_key rand_key = Inr k" "length k = 4" using short_key_total [OF assms(3)] by blast
  obtain kl where kl: "rsa_gen_key drawn 12 = Inr kl" "length kl = 12" using gen_key_total [of 12 drawn] assms(4) by auto
  have g: "length G_key_l = 12" by (simp add: G_key_l_def)
  define r where "r = (case rand_key of None \<Rightarrow> RSA_RAND_KEY | Some r \<Rightarrow> r)"
  have r: "length r = 16" using assms(3) by (simp add: r_def RSA_RAND_KEY_def split: option.split)
  obtain c where c: "rsa_encrypt_with_pubkey (r @ head_xor (rev (head_xor data k)) G_key_l) pub = Inr c"
    "rsa_decrypt_with_pubkey c priv = Inr (r @ head_xor (rev (head_xor data k)) G_key_l)"
    using blocks_round_trip [OF assms(1)] by blast
  have "p115_rsa_encrypt pub data rand_key = Inr (b64encode False c)"
    using k g c(1) by (simp add: p115_rsa_encrypt_def xor_key_eq flip: r_def)
  moreover have "server_open priv rand_key (b64encode False c) = Inr data"
    using k g r c(2) by (simp add: server_open_def b64_standard xor_key_eq head_xor_cancel)
  moreover obtain a where a: "rsa_encrypt_with_pubkey (drawn @ head_xor (rev (head_xor answer k)) kl) priv = Inr a"
    "rsa_decrypt_with_pubkey a pub = Inr (drawn @ head_xor (rev (head_xor answer k)) kl)"
    using blocks_round_trip [OF assms(2)] by blast
  have "server_seal priv rand_key drawn answer = Inr (b64encode False a)"
    using k kl a(1) by (simp add: server_seal_def xor_key_eq)
  moreover have "p115_rsa_decrypt pub (b64encode False a) rand_key = Inr answer"
    using k kl a(2) assms(4) by (simp add: p115_rsa_decrypt_def b64_standard xor_key_eq head_xor_cancel)
  ultimately show ?thesis by blast
qed

text \<open>A pair of three-digit blocks whose halves are known: a modulus of small primes.\<close>

definition small_primes :: "int list" where
  "small_primes = [2, 3, 5, 7, 11, 13, 17, 19, 23, 29, 31, 37, 41, 43, 47, 53, 59, 61, 67, 71]"

definition small_pair :: "int \<Rightarrow> key_pair" where
  "small_pair e = \<lparr>block_size = 12, modulus_n = 557940830126698960967415390, exponent_e = e\<rparr>"

lemma fermat_lift:
  fixes x p :: int
  assumes "p dvd x * x ^ m - x"
  shows "p dvd x * (x ^ m) ^ k - x"
proof (induction k)
  case (Suc k)
  have "x * (x ^ m) ^ Suc k - x = (x * x ^ m - x) * (x ^ m) ^ k + (x * (x ^ m) ^ k - x)"
    by (simp add: algebra_simps)
  with Suc assms show ?case by (metis dvd_add dvd_mult2)
qed simp

lemma small_prime_coprime:
  fixes p k :: nat
  assumes "p < 81" "\<forall>d \<in> {2..8}. d dvd p \<longrightarrow> d = p" "0 < k" "k < p"
  shows "coprime p k"
proof (rule ccontr)
  define g where "g = gcd p k"
  assume "\<not> coprime p k"
  then have "g \<noteq> 1" by (simp add: g_def coprime_iff_gcd_eq_1)
  moreover have g: "0 < g" "g \<le> k" "g dvd p" using assms(3) by (simp_all add: g_def gcd_le2_nat)
  ultimately have g2: "2 \<le> g" by simp
  obtain h where h: "p = g * h" using g(3) by (rule dvdE)
  have "h \<noteq> 0" using h assms(4) by (intro notI) simp
  moreover have "h \<noteq> 1" using h g(2) assms(4) by (intro notI) simp
  ultimately have h2: "2 \<le> h" by simp
  have "g \<le> 8 \<or> h \<le> 8"
  proof (rule ccontr)
    assume "\<not> (g \<le> 8 \<or> h \<le> 8)"
    then have "9 * 9 \<le> g * h" by (intro mult_le_mono) auto
    with h assms(1) show False by simp
  qed
  then show False
  proof
    assume "g \<le> 8"
    then have "g = p" using assms(2) g2 g(3) by auto
    with g(2) assms(4) show False by simp
  next
    assume "h \<le> 8"
    then have "h = p" using assms(2) h2 h by (metis atLeastAtMost_iff dvd_triv_right)
    with h g2 h2 show False by simp
  qed
qed

lemma fermat_nat:
  fixes p x :: nat
  assumes "0 < p" "\<And>k. 0 < k \<Longrightarrow> k < p \<Longrightarrow> coprime p k"
  shows "x ^ p mod p = x mod p"
proof (induction x)
  case 0
  show ?case using assms(1) by (simp add: zero_power)
next
  case (Suc x)
  have d: "p dvd (p choose k) * x ^ k" if "k \<in> {1..<p}" for k
  proof -
    have k: "0 < k" "k < p" using that by auto
    have "p dvd k * (p choose k)" using times_binomial_minus1_eq [OF k(1), of p] by simp
    then show ?thesis using assms(2) [OF k] by (simp add: coprime_dvd_mult_right_iff)
  qed
  have s: "{..p} = insert 0 (insert p {1..<p})" using assms(1) by auto
  have "Suc x ^ p = (\<Sum>k\<le>p. (p choose k) * x ^ k)" using binomial_ring [of x 1 p] by simp
  also have "\<dots> = 1 + x ^ p + (\<Sum>k\<in>{1..<p}. (p choose k) * x ^ k)"
    unfolding s using assms(1) by simp
  finally have e: "Suc x ^ p = 1 + x ^ p + (\<Sum>k\<in>{1..<p}. (p choose k) * x ^ k)" .
  have "p dvd (\<Sum>k\<in>{1..<p}. (p choose k) * x ^ k)" using d by (rule dvd_sum)
  then obtain q where "(\<Sum>k\<in>{1..<p}. (p choose k) * x ^ k) = p * q" by (rule dvdE)
  then have "Suc x ^ p mod p = (1 + x ^ p) mod p" unfolding e by (simp only: mod_mult_self2)
  also have "\<dots> = Suc x mod p" using Suc by (metis mod_Suc_eq plus_1_eq_Suc)
  finally show ?case .
qed

definition trial_division :: "nat \<Rightarrow> bool" where
  "trial_division p \<longleftrightarrow> 0 < p \<and> p < 81 \<and> list_all (\<lambda>d. p mod d \<noteq> 0 \<or> d = p) [2, 3, 4, 5, 6, 7, 8]"

lemma small_primes_ok: "list_all (\<lambda>p. trial_division (nat p)) small_primes"
  by (simp add: small_primes_def trial_division_def)

lemma fermat_prime:
  assumes "p \<in> set small_primes"
  shows "p dvd x * x ^ nat (p - 1) - x"
proof -
  from assms have t: "trial_division (nat p)" using small_primes_ok by (simp add: list_all_iff)
  have "{2..8 :: nat} = set [2, 3, 4, 5, 6, 7, 8]" by (simp add: set_eq_iff) presburger
  with t have c: "nat p < 81" "\<forall>d \<in> {2..8}. d dvd nat p \<longrightarrow> d = nat p"
    unfolding trial_division_def list_all_iff by (auto simp only: dvd_eq_mod_eq_0)
  have p0: "0 < p" using t by (simp add: trial_division_def)
  have "nat (x mod p) ^ nat p mod nat p = nat (x mod p) mod nat p"
    using p0 small_prime_coprime [OF c] by (intro fermat_nat) auto
  then have "int (nat (x mod p) ^ nat p mod nat p) = int (nat (x mod p) mod nat p)" by simp
  then have "(x mod p) ^ nat p mod p = x mod p" using p0 by (simp add: of_nat_mod)
  then have "x ^ nat p mod p = x mod p" by (simp add: power_mod)
  moreover have "nat p = Suc (nat (p - 1))" using p0 by simp
  ultimately show ?thesis by (simp add: mod_eq_dvd_iff)
qed

lemma prod_dvd:
  fixes c :: int
  shows "sorted_wrt coprime ps \<Longrightarrow> \<forall>p \<in> set ps. p dvd c \<Longrightarrow> prod_list ps dvd c"
  by (induction ps) (auto intro!: divides_mult prod_list_coprime_right)

lemma small_primes_coprime: "sorted_wrt coprime small_primes"
  by (simp add: small_primes_def coprime_iff_gcd_eq_1 gcd_non_0_int)

lemma small_halves:
  assumes "list_all (\<lambda>p. (nat e * nat d - 1) mod nat (p - 1) = 0) small_primes" "0 < nat e * nat d"
  shows "halves (small_pair e) (small_pair d)"
proof -
  let ?n = "557940830126698960967415390 :: int"
  have n: "prod_list small_primes = ?n" by (simp add: small_primes_def)
  have "(x ^ nat e mod ?n) ^ nat d mod ?n = x" if "0 \<le> x" "x < ?n" for x
  proof -
    have "p dvd x ^ (nat e * nat d) - x" if p: "p \<in> set small_primes" for p
    proof -
      from assms(1) p have "nat (p - 1) dvd nat e * nat d - 1" by (auto simp: list_all_iff dvd_eq_mod_eq_0)
      then obtain k where "nat e * nat d - 1 = nat (p - 1) * k" by (rule dvdE)
      then have "nat e * nat d = Suc (nat (p - 1) * k)" using assms(2) by linarith
      then have "x ^ (nat e * nat d) = x * (x ^ nat (p - 1)) ^ k" by (simp add: power_mult)
      then show ?thesis using fermat_lift [OF fermat_prime [OF p]] by simp
    qed
    then have "?n dvd x ^ (nat e * nat d) - x" using prod_dvd [OF small_primes_coprime] n by metis
    then have "x ^ (nat e * nat d) mod ?n = x mod ?n" by (simp add: mod_eq_dvd_iff)
    then show ?thesis using that by (simp add: power_mod power_mult)
  qed
  then show ?thesis by (simp add: halves_def small_pair_def)
qed

lemma small_exponents: "halves (small_pair 17) (small_pair 311054273)" "halves (small_pair 311054273) (small_pair 17)"
  by (intro small_halves; simp add: small_primes_def)+

theorem rsa_exchange_witness:
  "\<exists>c a. p115_rsa_encrypt (small_pair 17) [104, 105] None = Inr c \<and>
     server_open (small_pair 311054273) None c = Inr [104, 105] \<and>
     server_seal (small_pair 311054273) None (replicate 16 7) [111, 107, 33] = Inr a \<and>
     p115_rsa_decrypt (small_pair 17) a None = Inr [111, 107, 33]"
  using rsa_exchange [OF small_exponents, of None "replicate 16 7" "[104, 105]" "[111, 107, 33]"] by auto

section \<open>Tokens\<close>

text \<open>The client's own tokens mask nothing.\<close>

lemma token_round_trip:
  assumes "0 \<le> t" "t < 2 ^ 32" "length pubkey = 30" "\<And>x. 0 \<le> crc32 x \<and> crc32 x < 2 ^ 32"
  shows "\<exists>s. encode_token crc32 t pubkey = Inr s \<and> decode_token s = Inr (t, pubkey)"
proof -
  have r: "in_range False 4 t" "in_range False 4 (crc32 x)" for x using assms(1,2,4) by (simp_all add: in_range_def)
  define c where "c = le_bytes 4 (crc32 (TOKEN_SALT @ take 15 pubkey @ [0, 115, 0, 0, 0] @ le_bytes 4 t @
    drop 15 pubkey @ [0, 1, 0, 0, 0]))"
  let ?d = "take 15 pubkey @ [0, 115, 0, 0, 0] @ le_bytes 4 t @ drop 15 pubkey @ [0, 1, 0, 0, 0] @ c"
  have "encode_token crc32 t pubkey = Inr (b64encode False ?d)"
    using r by (simp add: encode_token_def to_bytes_le_def c_def)
  moreover have "?d ! 15 = 0" "?d ! 39 = 0" "take 15 ?d = take 15 pubkey" "pyslice 20 24 ?d = le_bytes 4 t"
    "pyslice 24 39 ?d = drop 15 pubkey" "39 < length ?d"
    using assms(3) by (simp_all add: nth_append pyslice_def)
  then have "decode_token (b64encode False ?d) = Inr (t, pubkey)"
    using from_bytes_le_le_bytes [OF r(1)]
    unfolding decode_token_def b64_standard bindR_simps by (simp add: mask_bytes_def Let_def not_le)
  ultimately show ?thesis by blast
qed

end
