(* ===== verification/P115_Lz4.thy ===== *)
theory P115_Lz4
  imports Pan115_Cipher
begin

text \<open>
  The LZ4 decoder of p115client (\<open>p115cipher/util.py\<close>, the branch without a native library):
  lengths read under \<open>try\<close>, and matches copied in slices that double where a match overlaps
  what it writes.  It agrees with the byte-wise decoder of \<open>Pan115_Cipher\<close>, which is proved
  against the block format, wherever that one succeeds.
\<close>

section \<open>The decoder\<close>

text \<open>\<open>xs[i:j]\<close> for any integers.\<close>

definition slice_index :: "int \<Rightarrow> nat \<Rightarrow> nat" where
  "slice_index i n = (if i < 0 then nat (i + int n) else min (nat i) n)"

definition slice_int :: "int \<Rightarrow> int \<Rightarrow> 'a list \<Rightarrow> 'a list" where
  "slice_int i j xs = pyslice (slice_index i (length xs)) (slice_index j (length xs)) xs"

text \<open>The bytes of 255, then one more; at the end of the data the length stays what it was.\<close>

definition length_bytes :: "nat \<Rightarrow> bytes \<Rightarrow> nat \<times> bytes" where
  "length_bytes n src =
     (case dropWhile (\<lambda>b. b = 255) src of
        [] \<Rightarrow> (n, [])
      | b # src1 \<Rightarrow> (n + length (takeWhile (\<lambda>b. b = 255) src) * 255 + unat b, src1))"

text \<open>\<open>left\<close> is \<open>end_ptr - dest_ptr\<close>; \<open>None\<close> when the loop never ends.\<close>

partial_function (option) double_copy :: "int \<Rightarrow> int \<Rightarrow> int \<Rightarrow> bytes \<Rightarrow> bytes option" where
  "double_copy offset match_pos left dest =
     (if left \<le> 0 then Some dest
      else let copy_size = (if offset < left then offset else left)
           in double_copy (offset + offset) match_pos (left - copy_size)
                (dest @ slice_int match_pos (match_pos + copy_size) dest))"

definition fast_copy :: "nat \<Rightarrow> nat \<Rightarrow> bytes \<Rightarrow> bytes res option" where
  "fast_copy offset match_len dest =
     (let match_pos = int (length dest) - int offset
      in if offset \<ge> match_len then Some (Inr (dest @ slice_int match_pos (match_pos + int match_len) dest))
         else if offset = 1
         then (if dest = [] then Some (Inl IndexError) else Some (Inr (dest @ replicate match_len (dest ! nat match_pos))))
         else map_option Inr (double_copy (int offset) match_pos (int match_len) dest))"

lemma length_bytes_shorter: "src \<noteq> [] \<Longrightarrow> length_bytes n src = (m, rs) \<Longrightarrow> length rs < length src"
proof -
  assume "src \<noteq> []" "length_bytes n src = (m, rs)"
  moreover have "length (dropWhile (\<lambda>b. b = 255) src) \<le> length src" by (rule length_dropWhile_le)
  ultimately show ?thesis by (auto simp: length_bytes_def split: list.splits)
qed

lemma length_bytes_le: "length_bytes n src = (m, rs) \<Longrightarrow> length rs \<le> length src"
  using length_bytes_shorter [of src n m rs] by (cases "src = []") (auto simp: length_bytes_def)

function fast_block_loop :: "bytes \<Rightarrow> bytes \<Rightarrow> bytes res option" where
  "fast_block_loop [] dest = Some (Inr dest)"
| "fast_block_loop (token # src) dest =
     (let lit_len = unat (drop_bit 4 token);
          (lit_len, src) = (if lit_len = 15 then length_bytes lit_len src else (lit_len, src));
          dest = dest @ take lit_len src; src = drop lit_len src
      in case src of
           [] \<Rightarrow> Some (Inr dest)
         | [_] \<Rightarrow> Some (Inl IndexError)
         | lo # hi # src \<Rightarrow>
             let offset = unat lo + unat hi * 256; match_len = unat (token AND 0x0F);
                 (match_len, src) = (if match_len = 15 then length_bytes match_len src else (match_len, src))
             in case fast_copy offset (match_len + 4) dest of
                  None \<Rightarrow> None
                | Some (Inl e) \<Rightarrow> Some (Inl e)
                | Some (Inr dest) \<Rightarrow> fast_block_loop src dest)"
  by pat_completeness auto
termination
  by (relation "measure (\<lambda>(src, dest). length src)")
    (auto split: if_splits dest!: length_bytes_le [OF sym] drop_two_shorter)

declare fast_block_loop.simps [simp del]

definition fast_block_decompress :: "bytes \<Rightarrow> bytes res option" where
  "fast_block_decompress source = fast_block_loop source []"

function fast_frames :: "bytes \<Rightarrow> bytes \<Rightarrow> bytes res option" where
  "fast_frames src data =
     (if length src > 2
      then let src_len = unat (src ! 0) + unat (src ! 1) * 256
           in if src_len = 0 then Some (Inr data)
              else (case fast_block_decompress (take src_len (drop 2 src)) of
                      None \<Rightarrow> None
                    | Some (Inl e) \<Rightarrow> Some (Inl e)
                    | Some (Inr d) \<Rightarrow> fast_frames (drop (src_len + 2) src) (data @ d))
      else Some (Inr data))"
  by pat_completeness auto
termination
  by (relation "measure (\<lambda>(src, data). length src)") auto

declare fast_frames.simps [simp del]

definition p115_lz4_decompress :: "bytes \<Rightarrow> bytes res option" where
  "p115_lz4_decompress source = fast_frames source []"

section \<open>Copying\<close>

text \<open>A match repeats the last \<open>off\<close> bytes of \<open>out\<close>.\<close>

definition repeated :: "bytes \<Rightarrow> nat \<Rightarrow> nat \<Rightarrow> bytes" where
  "repeated out off n = map (\<lambda>i. drop (length out - off) out ! (i mod off)) [0..<n]"

lemma length_repeated [simp]: "length (repeated out off n) = n"
  by (simp add: repeated_def)

lemma copy_match_repeated:
  "0 < off \<Longrightarrow> off \<le> length out \<Longrightarrow> copy_match (length out - off) n out = Inr (out @ repeated out off n)"
  using copy_match_periodic [of off out 0 n] by (simp add: repeated_def)

lemma slice_int_nonneg: "0 \<le> i \<Longrightarrow> 0 \<le> n \<Longrightarrow> slice_int i (i + n) xs = take (nat n) (drop (nat i) xs)"
proof -
  assume "0 \<le> i" "0 \<le> n"
  then show ?thesis
    by (cases "nat i \<le> length xs")
      (auto simp: slice_int_def slice_index_def pyslice_def nat_add_distrib min_def)
qed

text \<open>What lies behind the start of the match, while it grows.\<close>

lemma repeated_from_start:
  assumes "0 < off" "off \<le> length out" "n \<le> off + k"
  shows "take n (drop (length out - off) (out @ repeated out off k)) = repeated out off n"
proof (rule nth_equalityI)
  fix i assume "i < length (take n (drop (length out - off) (out @ repeated out off k)))"
  then have i: "i < n" by simp
  have "(out @ repeated out off k) ! (length out - off + i) = drop (length out - off) out ! (i mod off)"
  proof (cases "i < off")
    case True
    then have "length out - off + i < length out" using assms(2) by linarith
    with True show ?thesis by (simp add: nth_append)
  next
    case False
    then have "length out - off + i - length out = i - off" using assms(2) by linarith
    moreover have "i - off < k" using False i assms(1,3) by linarith
    ultimately show ?thesis using False by (simp add: nth_append repeated_def le_mod_geq)
  qed
  moreover have "length out - off \<le> length (out @ repeated out off k)" by simp
  then have "take n (drop (length out - off) (out @ repeated out off k)) ! i = (out @ repeated out off k) ! (length out - off + i)"
    by (simp only: nth_take [OF i] nth_drop)
  ultimately show "take n (drop (length out - off) (out @ repeated out off k)) ! i = repeated out off n ! i"
    using i by (simp add: repeated_def)
qed (use assms in simp)

lemma repeated_append:
  "off dvd off + k \<Longrightarrow> repeated out off k @ repeated out off n = repeated out off (k + n)"
proof (rule nth_equalityI)
  fix i assume d: "off dvd off + k" and i: "i < length (repeated out off k @ repeated out off n)"
  then have "k mod off = 0" by simp
  then have "(i - k) mod off = i mod off" if "k \<le> i"
    using that by (metis add_0 le_add_diff_inverse mod_add_left_eq)
  with i show "(repeated out off k @ repeated out off n) ! i = repeated out off (k + n) ! i"
    by (auto simp: nth_append repeated_def)
qed simp

lemma double_copy_repeated:
  assumes "0 < off" "off \<le> length out" "off dvd off + k"
  shows "double_copy (int (off + k)) (int (length out) - int off) (int left) (out @ repeated out off k) =
    Some (out @ repeated out off (k + left))"
  using assms(3)
proof (induction left arbitrary: k rule: less_induct)
  case (less left)
  let ?o = "off + k" and ?p = "int (length out) - int off"
  show ?case
  proof (cases "left = 0")
    case True
    then show ?thesis by (subst double_copy.simps) simp
  next
    case False
    define n where "n = min ?o left"
    have n: "(if int ?o < int left then int ?o else int left) = int n" "n \<le> ?o" "0 < n" "n \<le> left"
      using False assms(1) by (auto simp: n_def)
    have p: "nat ?p = length out - off" "0 \<le> ?p" using assms(2) by simp_all
    have s: "slice_int ?p (?p + int n) (out @ repeated out off k) = repeated out off n"
      using slice_int_nonneg [OF p(2) of_nat_0_le_iff, of n "out @ repeated out off k"] repeated_from_start [OF assms(1,2) n(2)]
      by (simp only: p(1) nat_int)
    have "double_copy (int ?o) ?p (int left) (out @ repeated out off k) =
      double_copy (int ?o + int ?o) ?p (int (left - n)) (out @ repeated out off (k + n))"
      using False n s by (subst double_copy.simps) (simp add: Let_def repeated_append [OF less.prems] of_nat_diff)
    also have "\<dots> = Some (out @ repeated out off (k + left))"
    proof (cases "left \<le> ?o")
      case True
      then show ?thesis by (subst double_copy.simps) (simp add: n_def)
    next
      case False
      then have e: "int ?o + int ?o = int (off + (k + n))" "off dvd off + (k + n)" "k + n + (left - n) = k + left"
        using less.prems by (simp_all add: n_def)
      have "left - n < left" using n(3,4) by simp
      from less.IH [OF this e(2)] show ?thesis unfolding e(1,3) .
    qed
    finally show ?thesis .
  qed
qed

lemma fast_copy_same:
  assumes "copy_match (length dest - off) n dest = Inr out" "off \<le> length dest" "0 < n"
  shows "fast_copy off n dest = Some (Inr out)"
proof -
  have o: "0 < off" using assms(1,3) by (cases off) (auto simp: gr0_conv_Suc)
  then have out: "out = dest @ repeated dest off n" using copy_match_repeated [OF o assms(2), of n] assms(1) by simp
  let ?p = "int (length dest) - int off"
  have p: "nat ?p = length dest - off" "0 \<le> ?p" using assms(2) by simp_all
  consider "n \<le> off" | "off < n" "off = 1" | "off < n" "off \<noteq> 1" by linarith
  then show ?thesis
  proof cases
    case 1
    then show ?thesis
      using slice_int_nonneg [OF p(2), of "int n" dest] repeated_from_start [OF o assms(2), of n 0] p(1)
      by (simp add: fast_copy_def out repeated_def)
  next
    case 2
    then have "nat (int (length dest) - 1) = length dest - 1" by simp
    with 2 have "repeated dest off n = replicate n (dest ! nat ?p)"
      by (intro nth_equalityI) (simp_all add: repeated_def)
    with 2 assms(2) show ?thesis by (auto simp: fast_copy_def out)
  next
    case 3
    then show ?thesis
      using double_copy_repeated [OF o assms(2), of 0 n] by (simp add: fast_copy_def out) (simp add: repeated_def)
  qed
qed

section \<open>Agreement\<close>

lemma lz4_length_found:
  "lz4_length n src = Inr (m, rs) \<Longrightarrow>
   \<exists>b. dropWhile (\<lambda>b. b = 255) src = b # rs \<and> m = n + length (takeWhile (\<lambda>b. b = 255) src) * 255 + unat b"
proof (induction n src rule: lz4_length.induct)
  case (2 n b src)
  show ?case
  proof (cases "b = 255")
    case True
    with 2 obtain c where "dropWhile (\<lambda>b. b = 255) src = c # rs"
      "m = n + 255 + length (takeWhile (\<lambda>b. b = 255) src) * 255 + unat c" by (auto simp: unat_255)
    with True show ?thesis by simp
  next
    case False
    with 2 show ?thesis by simp
  qed
qed simp

lemma length_bytes_same: "lz4_length n src = Inr (m, rs) \<Longrightarrow> length_bytes n src = (m, rs)"
  using lz4_length_found [of n src m rs] by (auto simp: length_bytes_def)

lemma read_length_same:
  "(if n = 15 then lz4_length n src else Inr (n, src)) = Inr (m, rs) \<Longrightarrow>
   (if n = 15 then length_bytes n src else (n, src)) = (m, rs)"
  by (simp add: length_bytes_same split: if_splits)

lemma block_loop_same: "lz4_block_loop src out = Inr r \<Longrightarrow> fast_block_loop src out = Some (Inr r)"
proof (induction "length src" arbitrary: src out rule: less_induct)
  case less
  show ?case
  proof (cases src)
    case Nil
    with less.prems show ?thesis by (simp add: lz4_block_loop.simps fast_block_loop.simps)
  next
    case (Cons token src0)
    let ?l = "unat (drop_bit 4 token)" and ?m = "unat (token AND 0x0F)"
    obtain n src1 where n: "(if ?l = 15 then lz4_length ?l src0 else Inr (?l, src0)) = Inr (n, src1)"
      using less.prems unfolding Cons lz4_block_loop.simps(2) Let_def by (auto split: sum.splits)
    note n2 = read_length_same [OF n]
    have l1: "length src1 \<le> length src0" using n2 by (auto split: if_splits dest: length_bytes_le)
    consider "drop n src1 = []" | lo hi src2 where "drop n src1 = lo # hi # src2"
      using less.prems n unfolding Cons lz4_block_loop.simps(2) Let_def by (auto split: list.splits)
    then show ?thesis
    proof cases
      case 1
      with less.prems n n2 show ?thesis
        unfolding Cons lz4_block_loop.simps(2) fast_block_loop.simps(2) Let_def by simp
    next
      case 2
      let ?off = "unat lo + unat hi * 256" and ?d = "out @ take n src1"
      obtain m src3 where m: "(if ?m = 15 then lz4_length ?m src2 else Inr (?m, src2)) = Inr (m, src3)"
        using less.prems n 2 unfolding Cons lz4_block_loop.simps(2) Let_def by (auto split: sum.splits)
      note m2 = read_length_same [OF m]
      obtain d where d: "?off \<le> length ?d" "copy_match (length ?d - ?off) (m + 4) ?d = Inr d"
        "lz4_block_loop src3 d = Inr r"
        using less.prems n 2 m unfolding Cons lz4_block_loop.simps(2) Let_def
        by (auto split: sum.splits if_splits)
      have "length src3 \<le> length src2" using m2 by (auto split: if_splits dest: length_bytes_le)
      moreover have "length src2 < length src1" using 2 by (metis drop_two_shorter)
      ultimately have "fast_block_loop src3 d = Some (Inr r)" using less.hyps [OF _ d(3)] l1 Cons by simp
      moreover have "fast_copy ?off (m + 4) ?d = Some (Inr d)" using fast_copy_same [OF d(2,1)] by simp
      ultimately show ?thesis using n2 m2 2 unfolding Cons fast_block_loop.simps(2) Let_def by simp
    qed
  qed
qed

lemma frames_same: "lz4_frames src data = Inr r \<Longrightarrow> fast_frames src data = Some (Inr r)"
proof (induction "length src" arbitrary: src data rule: less_induct)
  case less
  show ?case
  proof (cases "length src > 2")
    case False
    then have "lz4_frames src data = Inr data"
      by (cases src rule: list.exhaust; cases "tl src") (auto simp: lz4_frames.simps [of "_ # _"] lz4_frames.simps [of "[]"]
          Let_def lz4_block_decompress_def lz4_block_loop.simps)
    with False less.prems show ?thesis by (subst fast_frames.simps) simp
  next
    case True
    then obtain lo hi t where src: "src = lo # hi # t" by (metis length_Cons list.exhaust list.size(3) not_less_zero less_Suc_eq_0_disj numeral_2_eq_2 not_less_eq)
    let ?n = "unat lo + unat hi * 256"
    show ?thesis
    proof (cases "?n = 0")
      case True
      with less.prems \<open>length src > 2\<close> show ?thesis
        unfolding src by (subst fast_frames.simps) (simp add: lz4_frames.simps)
    next
      case False
      then obtain d where d: "lz4_block_decompress (take ?n t) = Inr d" "lz4_frames (drop ?n t) (data @ d) = Inr r"
        using less.prems unfolding src by (subst (asm) lz4_frames.simps) (auto simp: Let_def split: sum.splits)
      have "fast_block_decompress (take ?n t) = Some (Inr d)"
        using d(1) by (simp add: fast_block_decompress_def lz4_block_decompress_def block_loop_same)
      moreover have "fast_frames (drop ?n t) (data @ d) = Some (Inr r)"
        using less.hyps [OF _ d(2)] False unfolding src by simp
      ultimately show ?thesis
        using False True unfolding src by (subst fast_frames.simps) (auto simp: Let_def)
    qed
  qed
qed

lemma double_copy_stuck:
  assumes "double_copy offset p left dest = Some r"
  shows "0 < offset \<or> left \<le> 0"
proof (rule double_copy.raw_induct [where P = "\<lambda>offset p left dest r. 0 < offset \<or> left \<le> 0", OF _ assms])
  fix f offset p left dest r
  assume "\<And>offset p left dest r. f offset p left dest = Some r \<Longrightarrow> 0 < offset \<or> left \<le> 0"
    and "(if left \<le> 0 then Some dest
      else let copy_size = if offset < left then offset else left
           in f (offset + offset) p (left - copy_size) (dest @ slice_int p (p + copy_size) dest)) = Some r"
  then show "0 < offset \<or> left \<le> 0" by (force simp: Let_def split: if_splits)
qed

text \<open>
  C40. The fast LZ4 decoder decodes what the format says.  Frames of valid blocks, with or
  without zeros behind them, decode to their meaning.  It gives what the byte-wise decoder
  gives for every input which that one accepts, so the doubling copies are right for every
  distance and length.  Beyond that they part: a match of distance 0 never ends, where the
  byte-wise decoder refuses it, and one that starts before the beginning is accepted.
\<close>

theorem fast_lz4_agrees:
  assumes "list_all frame_ok fs"
  shows "p115_lz4_decompress (concat (map lz4_frame fs) @ replicate k 0) = Some (Inr (concat (map frame_meaning fs))) \<and>
    (lz4_decompress src = Inr out \<longrightarrow> p115_lz4_decompress src = Some (Inr out)) \<and>
    (length lits < 15 \<longrightarrow> fast_block_decompress (lz4_token (length lits) 0 # lits @ [0, 0]) = None \<and>
       lz4_block_decompress (lz4_token (length lits) 0 # lits @ [0, 0]) = Inl IndexError) \<and>
    fast_block_decompress [0, 5, 0] = Some (Inr []) \<and> lz4_block_decompress [0, 5, 0] = Inl ValueError"
proof (intro conjI impI)
  show "p115_lz4_decompress (concat (map lz4_frame fs) @ replicate k 0) = Some (Inr (concat (map frame_meaning fs)))"
    using lz4_frames_back [OF assms, of k "[]"] by (simp add: p115_lz4_decompress_def frames_same)
  show "p115_lz4_decompress src = Some (Inr out)" if "lz4_decompress src = Inr out"
    using that by (simp add: p115_lz4_decompress_def lz4_decompress_def frames_same)
next
  assume l: "length lits < 15"
  have "double_copy 0 p 4 lits = None" for p
    using double_copy_stuck [of 0 p 4 lits] by (cases "double_copy 0 p 4 lits") auto
  then have "fast_copy 0 4 lits = None" by (simp add: fast_copy_def)
  with l show "fast_block_decompress (lz4_token (length lits) 0 # lits @ [0, 0]) = None"
    by (simp add: fast_block_decompress_def fast_block_loop.simps lz4_token_back Let_def)
  have "copy_match (length lits) 4 lits = Inl IndexError" by (simp add: eval_nat_numeral)
  with l show "lz4_block_decompress (lz4_token (length lits) 0 # lits @ [0, 0]) = Inl IndexError"
    by (simp add: lz4_block_decompress_def lz4_block_loop.simps lz4_token_back Let_def)
next
  show "fast_block_decompress [0, 5, 0] = Some (Inr [])" "lz4_block_decompress [0, 5, 0] = Inl ValueError"
    by (simp_all add: fast_block_decompress_def fast_block_loop.simps fast_copy_def slice_int_def slice_index_def
        pyslice_def lz4_block_decompress_def lz4_block_loop.simps Let_def)
qed

theorem fast_lz4_agrees_witness:
  "p115_lz4_decompress (lz4_frame ([Sequence [1, 2, 3] 2 9], [4]) @ [0, 0]) =
     Some (Inr [1, 2, 3, 2, 3, 2, 3, 2, 3, 2, 3, 2, 4])"
proof -
  let ?fs = "[([Sequence [1, 2, 3] 2 9], [4])]"
  have "list_all frame_ok ?fs" by (simp add: frame_ok_def lz4_extra_def)
  moreover have "concat (map frame_meaning ?fs) = [1, 2, 3, 2, 3, 2, 3, 2, 3, 2, 3, 2, 4]"
    by (simp add: frame_meaning_def upt_conv_Cons)
  ultimately show ?thesis using fast_lz4_agrees [of ?fs 2] by (simp add: numeral_2_eq_2)
qed

end
