(* ===== verification/Py_Str.thy ===== *)
theory Py_Str
  imports TL_Primitives
begin

text \<open>
  What pyTelegramBotAPI uses of Python's strings: \<open>find\<close> and \<open>in\<close>, \<open>split\<close> with and without a
  separator, \<open>join\<close>, \<open>replace\<close>, and \<open>str\<close> of an integer.  Strings are lists of code points.
  The program's own code is in the theories that import this one.
\<close>

named_theorems str_simps \<open>rewriting of Python string operations\<close>

section \<open>Searching\<close>

fun py_find :: "pystr \<Rightarrow> pystr \<Rightarrow> nat option" where
  "py_find p [] = (if p = [] then Some 0 else None)"
| "py_find p (c # s) = (if take (length p) (c # s) = p then Some 0 else map_option Suc (py_find p s))"

text \<open>\<open>p in s\<close>.\<close>

definition py_in :: "pystr \<Rightarrow> pystr \<Rightarrow> bool" where
  "py_in p s = (py_find p s \<noteq> None)"

lemma py_find_Some:
  "py_find p s = Some i \<Longrightarrow> i + length p \<le> length s \<and> take (length p) (drop i s) = p"
proof (induction p s arbitrary: i rule: py_find.induct)
  case (1 p)
  then show ?case by (auto split: if_splits)
next
  case (2 p c s)
  show ?case
  proof (cases "take (length p) (c # s) = p")
    case True
    then have "length p \<le> length (c # s)" by (metis length_take min.cobounded1)
    with 2(2) True show ?thesis by simp
  next
    case False
    with 2 show ?thesis by auto
  qed
qed

lemma py_find_app: "py_find p (xs @ p @ ys) \<noteq> None"
proof (induction xs)
  case Nil
  show ?case by (cases "p @ ys"; cases p) auto
next
  case (Cons x xs)
  then show ?case by auto
qed

lemma py_in_iff: "py_in p s \<longleftrightarrow> (\<exists>xs ys. s = xs @ p @ ys)"
proof
  assume "py_in p s"
  then obtain i where i: "py_find p s = Some i" unfolding py_in_def by auto
  have "drop i s = p @ drop (length p) (drop i s)"
    using py_find_Some [OF i] append_take_drop_id [of "length p" "drop i s"] by metis
  then show "\<exists>xs ys. s = xs @ p @ ys" by (metis append_take_drop_id)
next
  assume "\<exists>xs ys. s = xs @ p @ ys"
  then show "py_in p s" unfolding py_in_def using py_find_app by blast
qed

lemma py_find_char [str_simps]: "py_find [c] s = None \<longleftrightarrow> c \<notin> set s"
  by (induction s) auto

lemma py_in_char [str_simps]: "py_in [c] s \<longleftrightarrow> c \<in> set s"
  by (simp add: py_in_def py_find_char)

lemma py_find_char_app [str_simps]: "c \<notin> set xs \<Longrightarrow> py_find [c] (xs @ c # ys) = Some (length xs)"
  by (induction xs) auto

section \<open>Splitting and joining\<close>

text \<open>\<open>s.split(sep)\<close>; Python raises \<open>ValueError\<close> for an empty separator, which the callers
  rule out.\<close>

function py_split :: "pystr \<Rightarrow> pystr \<Rightarrow> pystr list" where
  "py_split sep s =
     (if sep = [] then [s]
      else case py_find sep s of
             None \<Rightarrow> [s]
           | Some i \<Rightarrow> take i s # py_split sep (drop (i + length sep) s))"
  by pat_completeness auto
termination
proof (relation "measure (length \<circ> snd)")
  fix sep s :: pystr and i
  assume "sep \<noteq> []" "py_find sep s = Some i"
  then have "0 < length sep" "i + length sep \<le> length s" using py_find_Some by auto
  then have "length (drop (i + length sep) s) < length s" unfolding length_drop by linarith
  then show "((sep, drop (i + length sep) s), sep, s) \<in> measure (length \<circ> snd)" by simp
qed simp

declare py_split.simps [simp del]

fun py_join :: "pystr \<Rightarrow> pystr list \<Rightarrow> pystr" where
  "py_join sep [] = []"
| "py_join sep [x] = x"
| "py_join sep (x # y # xs) = x @ sep @ py_join sep (y # xs)"

lemma py_join_Cons: "xs \<noteq> [] \<Longrightarrow> py_join sep (x # xs) = x @ sep @ py_join sep xs"
  by (cases xs) auto

lemma py_join_snoc: "xs \<noteq> [] \<Longrightarrow> py_join sep (xs @ [x]) = py_join sep xs @ sep @ x"
  by (induction sep xs rule: py_join.induct) (simp_all add: py_join_Cons)

text \<open>\<open>s.replace(old, new)\<close> for a non-empty \<open>old\<close>.\<close>

definition py_replace :: "pystr \<Rightarrow> pystr \<Rightarrow> pystr \<Rightarrow> pystr" where
  "py_replace old new s = py_join new (py_split old s)"

lemma py_split_ne [simp]: "py_split sep s \<noteq> []"
  by (subst py_split.simps) (simp split: option.split)

lemma py_join_split: "py_join sep (py_split sep s) = s"
proof (induction sep s rule: py_split.induct)
  case (1 sep s)
  show ?case
  proof (cases "sep = [] \<or> py_find sep s = None")
    case True
    then show ?thesis by (subst py_split.simps) auto
  next
    case False
    then obtain i where i: "sep \<noteq> []" "py_find sep s = Some i" by auto
    have "drop i s = sep @ drop (i + length sep) s"
      using py_find_Some [OF i(2)] append_take_drop_id [of "length sep" "drop i s"] by (simp add: add.commute)
    with i 1 show ?thesis
      by (subst py_split.simps) (simp add: py_join_Cons, metis append_take_drop_id)
  qed
qed

lemma py_split_char_Cons: "c \<notin> set x \<Longrightarrow> py_split [c] (x @ c # s) = x # py_split [c] s"
  by (subst py_split.simps) (simp add: str_simps)

lemma py_split_char_no: "c \<notin> set x \<Longrightarrow> py_split [c] x = [x]"
proof -
  assume "c \<notin> set x"
  then have "py_find [c] x = None" by (simp add: str_simps)
  then show ?thesis by (subst py_split.simps) simp
qed

lemma py_split_join:
  "xs \<noteq> [] \<Longrightarrow> \<forall>x \<in> set xs. c \<notin> set x \<Longrightarrow> py_split [c] (py_join [c] xs) = xs"
proof (induction xs)
  case (Cons x xs)
  then show ?case by (cases "xs = []") (simp_all add: py_join_Cons py_split_char_Cons py_split_char_no)
qed simp

lemma py_split_no_sep: "\<forall>x \<in> set (py_split [c] s). c \<notin> set x"
proof (induction "[c]" s rule: py_split.induct)
  case (1 s)
  show ?case
  proof (cases "c \<in> set s")
    case True
    then obtain xs ys where s: "s = xs @ c # ys" "c \<notin> set xs" by (metis split_list_first)
    with 1 show ?thesis by (simp add: py_split_char_Cons str_simps)
  next
    case False
    then show ?thesis by (simp add: py_split_char_no)
  qed
qed

lemma py_join_inj:
  assumes "py_join [c] xs = py_join [c] ys" "xs \<noteq> []" "ys \<noteq> []"
    and "\<forall>x \<in> set xs. c \<notin> set x" "\<forall>y \<in> set ys. c \<notin> set y"
  shows "xs = ys"
  by (metis assms py_split_join)

section \<open>White space\<close>

text \<open>The code points for which \<open>str.isspace\<close> holds, which are those \<open>split()\<close> cuts at.\<close>

definition is_space :: "nat \<Rightarrow> bool" where
  "is_space c \<longleftrightarrow> 9 \<le> c \<and> c \<le> 13 \<or> 28 \<le> c \<and> c \<le> 32 \<or> 8192 \<le> c \<and> c \<le> 8202 \<or>
     c \<in> set [133, 160, 5760, 8232, 8233, 8239, 8287, 12288]"

text \<open>\<open>s.split()[0]\<close>, \<open>None\<close> where it raises \<open>IndexError\<close>.\<close>

definition first_word :: "pystr \<Rightarrow> pystr option" where
  "first_word s =
     (case dropWhile is_space s of [] \<Rightarrow> None | t \<Rightarrow> Some (takeWhile (Not \<circ> is_space) t))"

section \<open>Numbers\<close>

function str_nat :: "nat \<Rightarrow> pystr" where
  "str_nat n = (if n < 10 then [48 + n] else str_nat (n div 10) @ [48 + n mod 10])"
  by pat_completeness auto
termination
  by (relation "measure id") auto

declare str_nat.simps [simp del]

definition str_int :: "int \<Rightarrow> pystr" where
  "str_int k = (if k < 0 then 45 # str_nat (nat (- k)) else str_nat (nat k))"

definition numeral_char :: "nat \<Rightarrow> bool" where
  "numeral_char c \<longleftrightarrow> c = 45 \<or> 48 \<le> c \<and> c \<le> 57"

lemma str_nat_digits: "\<forall>c \<in> set (str_nat n). 48 \<le> c \<and> c \<le> 57"
proof (induction n rule: str_nat.induct)
  case (1 n)
  then show ?case by (subst str_nat.simps) auto
qed

lemma str_nat_ne [simp]: "str_nat n \<noteq> []"
  by (subst str_nat.simps) simp

lemma str_nat_inj: "str_nat m = str_nat n \<Longrightarrow> m = n"
proof (induction m arbitrary: n rule: str_nat.induct)
  case (1 m)
  have e: "str_nat m = (if m < 10 then [48 + m] else str_nat (m div 10) @ [48 + m mod 10])"
    "str_nat n = (if n < 10 then [48 + n] else str_nat (n div 10) @ [48 + n mod 10])"
    by (subst str_nat.simps, rule refl)+
  show ?case
  proof (cases "m < 10")
    case True
    with 1(2) str_nat_ne [of "n div 10", symmetric] show ?thesis unfolding e by (auto split: if_splits)
  next
    case False
    have "length (str_nat m) > 1" unfolding e(1) using False str_nat_ne by simp
    then have n: "\<not> n < 10" using 1(2) e(2) by auto
    from 1(2) False n have d: "str_nat (m div 10) = str_nat (n div 10)" "m mod 10 = n mod 10"
      unfolding e by simp_all
    from 1(1) [OF False d(1)] d(2) show ?thesis by (metis div_mult_mod_eq)
  qed
qed

lemma str_int_chars: "\<forall>c \<in> set (str_int k). numeral_char c"
  using str_nat_digits by (auto simp: str_int_def numeral_char_def)

lemma str_int_inj: "str_int j = str_int k \<Longrightarrow> j = k"
proof -
  have h: "str_nat n \<noteq> 45 # s" for n s using str_nat_digits [of n] by auto
  assume "str_int j = str_int k"
  then show "j = k"
    using h by (cases "j < 0"; cases "k < 0") (auto simp: str_int_def dest!: str_nat_inj sym [of "45 # _"])
qed

lemma str_int_ne [simp]: "str_int k \<noteq> []"
  by (simp add: str_int_def)

end
