(* ===== verification/Bot_Storage.thy ===== *)
theory Bot_Storage
  imports Py_Str
begin

text \<open>
  The dialogue states of pyTelegramBotAPI: \<open>telebot/storage/base_storage.py\<close>,
  \<open>memory_storage.py\<close> and \<open>pickle_storage.py\<close>, with the methods of \<open>TeleBot\<close> that use them.
  The locale \<open>state_store\<close> is what the bot relies on; both storages are instances.

  A storage object is the record of its methods.  Dictionaries are maps; what \<open>get_data\<close>
  returns is the value at that moment (the memory storage hands out its own dictionary, so a
  caller that changes it without \<open>save\<close> or \<open>set_data\<close> leaves this model).  The pickle file is the
  dictionary it holds; a lock makes each of its operations atomic.
\<close>

section \<open>Dialogues and their keys\<close>

record dialogue =
  chat_id :: int
  user_id :: int
  business_connection_id :: "pystr option"
  message_thread_id :: "int option"
  bot_id :: "int option"

text \<open>\<open>if bot_id:\<close> also leaves out the number 0, and \<open>if business_connection_id:\<close> the empty
  string.\<close>

definition number_part :: "int option \<Rightarrow> pystr list" where
  "number_part v = (case v of None \<Rightarrow> [] | Some n \<Rightarrow> if n = 0 then [] else [str_int n])"

definition text_part :: "pystr option \<Rightarrow> pystr list" where
  "text_part v = (case v of None \<Rightarrow> [] | Some s \<Rightarrow> if s = [] then [] else [s])"

definition key_params :: "pystr \<Rightarrow> dialogue \<Rightarrow> pystr list" where
  "key_params prefix d =
     [prefix] @ number_part (bot_id d) @ text_part (business_connection_id d) @
     number_part (message_thread_id d) @ [str_int (chat_id d), str_int (user_id d)]"

definition get_key :: "pystr \<Rightarrow> pystr \<Rightarrow> dialogue \<Rightarrow> pystr" where
  "get_key prefix separator d = py_join separator (key_params prefix d)"

section \<open>The methods of a storage\<close>

text \<open>A state is a string or an object with a name.\<close>

datatype bot_state = Text pystr | StateObject pystr

datatype store_error = RuntimeErr | KeyErr pystr

record 'v entry =
  state :: bot_state
  data :: "pystr \<Rightarrow> 'v option"

type_synonym ('st, 'r) outcome = "store_error + 'r \<times> 'st"

record ('st, 'v) storage =
  set_state :: "'st \<Rightarrow> dialogue \<Rightarrow> bot_state \<Rightarrow> ('st, bool) outcome"
  get_state :: "'st \<Rightarrow> dialogue \<Rightarrow> bot_state option"
  delete_state :: "'st \<Rightarrow> dialogue \<Rightarrow> ('st, bool) outcome"
  set_data :: "'st \<Rightarrow> dialogue \<Rightarrow> pystr \<Rightarrow> 'v \<Rightarrow> ('st, bool) outcome"
  get_data :: "'st \<Rightarrow> dialogue \<Rightarrow> pystr \<Rightarrow> 'v option"
  reset_data :: "'st \<Rightarrow> dialogue \<Rightarrow> ('st, bool) outcome"
  save_data :: "'st \<Rightarrow> dialogue \<Rightarrow> (pystr \<Rightarrow> 'v option) \<Rightarrow> ('st, bool) outcome"

section \<open>The memory storage\<close>

record 'v memory =
  separator :: pystr
  prefix :: pystr
  held :: "pystr \<Rightarrow> 'v entry option"

definition memory_init :: "pystr \<Rightarrow> pystr \<Rightarrow> 'v memory res" where
  "memory_init sep pre =
     (if pre = [] then Inl ValueError else Inr \<lparr>separator = sep, prefix = pre, held = (\<lambda>_. None)\<rparr>)"

definition memory_key :: "'v memory \<Rightarrow> dialogue \<Rightarrow> pystr" where
  "memory_key st d = get_key (prefix st) (separator st) d"

definition put_entry :: "pystr \<Rightarrow> 'v entry \<Rightarrow> 'v memory \<Rightarrow> 'v memory" where
  "put_entry k e st = st\<lparr>held := (held st)(k \<mapsto> e)\<rparr>"

fun state_name :: "bot_state \<Rightarrow> bot_state" where
  "state_name (StateObject n) = Text n"
| "state_name (Text s) = Text s"

definition memory_set_state :: "'v memory \<Rightarrow> dialogue \<Rightarrow> bot_state \<Rightarrow> ('v memory, bool) outcome" where
  "memory_set_state st d s =
     (let k = memory_key st d
      in case held st k of
           None \<Rightarrow> Inr (True, put_entry k \<lparr>state = state_name s, data = (\<lambda>_. None)\<rparr> st)
         | Some e \<Rightarrow> Inr (True, put_entry k (e\<lparr>state := state_name s\<rparr>) st))"

definition memory_get_state :: "'v memory \<Rightarrow> dialogue \<Rightarrow> bot_state option" where
  "memory_get_state st d = (case held st (memory_key st d) of None \<Rightarrow> None | Some e \<Rightarrow> Some (state e))"

definition memory_delete_state :: "'v memory \<Rightarrow> dialogue \<Rightarrow> ('v memory, bool) outcome" where
  "memory_delete_state st d =
     (let k = memory_key st d
      in case held st k of None \<Rightarrow> Inr (False, st) | Some e \<Rightarrow> Inr (True, st\<lparr>held := (held st)(k := None)\<rparr>))"

definition memory_set_data :: "'v memory \<Rightarrow> dialogue \<Rightarrow> pystr \<Rightarrow> 'v \<Rightarrow> ('v memory, bool) outcome" where
  "memory_set_data st d key v =
     (let k = memory_key st d
      in case held st k of
           None \<Rightarrow> Inl RuntimeErr
         | Some e \<Rightarrow> Inr (True, put_entry k (e\<lparr>data := (data e)(key \<mapsto> v)\<rparr>) st))"

definition memory_get_data :: "'v memory \<Rightarrow> dialogue \<Rightarrow> pystr \<Rightarrow> 'v option" where
  "memory_get_data st d = (case held st (memory_key st d) of None \<Rightarrow> (\<lambda>_. None) | Some e \<Rightarrow> data e)"

definition memory_reset_data :: "'v memory \<Rightarrow> dialogue \<Rightarrow> ('v memory, bool) outcome" where
  "memory_reset_data st d =
     (let k = memory_key st d
      in case held st k of
           None \<Rightarrow> Inr (False, st)
         | Some e \<Rightarrow> Inr (True, put_entry k (e\<lparr>data := (\<lambda>_. None)\<rparr>) st))"

definition memory_save :: "'v memory \<Rightarrow> dialogue \<Rightarrow> (pystr \<Rightarrow> 'v option) \<Rightarrow> ('v memory, bool) outcome" where
  "memory_save st d m =
     (let k = memory_key st d
      in case held st k of
           None \<Rightarrow> Inr (False, st)
         | Some e \<Rightarrow> Inr (True, put_entry k (e\<lparr>data := m\<rparr>) st))"

definition memory_storage :: "('v memory, 'v) storage" where
  "memory_storage =
     \<lparr>set_state = memory_set_state, get_state = memory_get_state, delete_state = memory_delete_state,
      set_data = memory_set_data, get_data = memory_get_data, reset_data = memory_reset_data,
      save_data = memory_save\<rparr>"

section \<open>The pickle storage\<close>

text \<open>\<open>stored\<close> is the dictionary in the file; \<open>create_dir\<close> writes the empty one.\<close>

record 'v pickle =
  pickle_prefix :: pystr
  pickle_separator :: pystr
  stored :: "pystr \<Rightarrow> 'v entry option"

definition pickle_init :: "pystr \<Rightarrow> pystr \<Rightarrow> (pystr \<Rightarrow> 'v entry option) option \<Rightarrow> 'v pickle" where
  "pickle_init pre sep file =
     \<lparr>pickle_prefix = pre, pickle_separator = sep, stored = (case file of None \<Rightarrow> (\<lambda>_. None) | Some m \<Rightarrow> m)\<rparr>"

definition pickle_key :: "'v pickle \<Rightarrow> dialogue \<Rightarrow> pystr" where
  "pickle_key st d = get_key (pickle_prefix st) (pickle_separator st) d"

definition write_to_file :: "(pystr \<Rightarrow> 'v entry option) \<Rightarrow> 'v pickle \<Rightarrow> 'v pickle" where
  "write_to_file m st = st\<lparr>stored := m\<rparr>"

definition pickle_set_state :: "'v pickle \<Rightarrow> dialogue \<Rightarrow> bot_state \<Rightarrow> ('v pickle, bool) outcome" where
  "pickle_set_state st d s =
     (let k = pickle_key st d; m = stored st
      in Inr (True, write_to_file
           (case m k of
              None \<Rightarrow> m(k \<mapsto> \<lparr>state = s, data = (\<lambda>_. None)\<rparr>)
            | Some e \<Rightarrow> m(k \<mapsto> e\<lparr>state := s\<rparr>)) st))"

definition pickle_get_state :: "'v pickle \<Rightarrow> dialogue \<Rightarrow> bot_state option" where
  "pickle_get_state st d = map_option state (stored st (pickle_key st d))"

definition pickle_delete_state :: "'v pickle \<Rightarrow> dialogue \<Rightarrow> ('v pickle, bool) outcome" where
  "pickle_delete_state st d =
     (let k = pickle_key st d; m = stored st
      in if m k \<noteq> None then Inr (True, write_to_file (m(k := None)) st) else Inr (False, st))"

text \<open>\<open>data.get(_key, {})["data"]\<close> raises before the check for the key is reached.\<close>

definition pickle_set_data :: "'v pickle \<Rightarrow> dialogue \<Rightarrow> pystr \<Rightarrow> 'v \<Rightarrow> ('v pickle, bool) outcome" where
  "pickle_set_data st d key v =
     (let k = pickle_key st d; m = stored st
      in case m k of
           None \<Rightarrow> Inl (KeyErr (map of_char ''data''))
         | Some e \<Rightarrow> Inr (True, write_to_file (m(k \<mapsto> e\<lparr>data := (data e)(key \<mapsto> v)\<rparr>)) st))"

definition pickle_get_data :: "'v pickle \<Rightarrow> dialogue \<Rightarrow> pystr \<Rightarrow> 'v option" where
  "pickle_get_data st d = (case stored st (pickle_key st d) of None \<Rightarrow> (\<lambda>_. None) | Some e \<Rightarrow> data e)"

definition pickle_reset_data :: "'v pickle \<Rightarrow> dialogue \<Rightarrow> ('v pickle, bool) outcome" where
  "pickle_reset_data st d =
     (let k = pickle_key st d; m = stored st
      in case m k of
           None \<Rightarrow> Inr (False, st)
         | Some e \<Rightarrow> Inr (True, write_to_file (m(k \<mapsto> e\<lparr>data := (\<lambda>_. None)\<rparr>)) st))"

definition pickle_save :: "'v pickle \<Rightarrow> dialogue \<Rightarrow> (pystr \<Rightarrow> 'v option) \<Rightarrow> ('v pickle, bool) outcome" where
  "pickle_save st d new =
     (let k = pickle_key st d; m = stored st
      in case m k of
           None \<Rightarrow> Inl (KeyErr k)
         | Some e \<Rightarrow> Inr (True, write_to_file (m(k \<mapsto> e\<lparr>data := new\<rparr>)) st))"

definition pickle_storage :: "('v pickle, 'v) storage" where
  "pickle_storage =
     \<lparr>set_state = pickle_set_state, get_state = pickle_get_state, delete_state = pickle_delete_state,
      set_data = pickle_set_data, get_data = pickle_get_data, reset_data = pickle_reset_data,
      save_data = pickle_save\<rparr>"

section \<open>What the bot does with them\<close>

text \<open>The default of \<open>chat_id\<close> is the user, that of \<open>bot_id\<close> the bot's own id.\<close>

record 'st telebot =
  own_id :: "int option"
  current_states :: 'st

definition resolve :: "'st telebot \<Rightarrow> int \<Rightarrow> int option \<Rightarrow> pystr option \<Rightarrow> int option \<Rightarrow> int option \<Rightarrow> dialogue" where
  "resolve b user chat business thread bid =
     \<lparr>chat_id = (case chat of None \<Rightarrow> user | Some c \<Rightarrow> c), user_id = user,
      business_connection_id = business, message_thread_id = thread,
      bot_id = (case bid of None \<Rightarrow> own_id b | Some i \<Rightarrow> Some i)\<rparr>"

text \<open>\<open>TeleBot.add_data\<close>: one \<open>set_data\<close> per keyword; what was set before an exception stays.\<close>

fun add_data :: "('st, 'v) storage \<Rightarrow> 'st \<Rightarrow> dialogue \<Rightarrow> (pystr \<times> 'v) list \<Rightarrow> store_error option \<times> 'st" where
  "add_data S st d [] = (None, st)"
| "add_data S st d ((key, v) # kws) =
     (case set_data S st d key v of
        Inl e \<Rightarrow> (Some e, st)
      | Inr (_, st1) \<Rightarrow> add_data S st1 d kws)"

text \<open>\<open>with bot.retrieve_data(...) as data: body\<close>.  The context gives a copy of the data to the
  body and saves it on the way out, also when the body raises \<open>'e\<close>.  A true value of \<open>__exit__\<close>
  ends the exception of the body.\<close>

definition with_data ::
    "('st, 'v) storage \<Rightarrow> 'st \<Rightarrow> dialogue \<Rightarrow> ((pystr \<Rightarrow> 'v option) \<Rightarrow> 'e option \<times> (pystr \<Rightarrow> 'v option)) \<Rightarrow>
     (store_error + 'e) option \<times> 'st" where
  "with_data S st d body =
     (let (exc, new) = body (get_data S st d)
      in case save_data S st d new of
           Inl e \<Rightarrow> (Some (Inl e), st)
         | Inr (ok, st1) \<Rightarrow> (if ok then None else map_option Inr exc, st1))"

end
