(* ===== verification/Bot_Storage_Laws.thy ===== *)
theory Bot_Storage_Laws
  imports Bot_Storage
begin

text \<open>
  Correctness of the dialogue storages: when the keys of two dialogues differ, what a storage
  promises (the locale \<open>state_store\<close>, extended by \<open>strict_store\<close>), that both storages implement
  one machine on dialogues, and what a \<open>with\<close> block on the data of a dialogue does.
\<close>

section \<open>Keys\<close>

text \<open>A dialogue as Telegram names it: the bot is known, a thread has a number, and the id of
  a business connection contains no separator and is not a number.\<close>

definition named_dialogue :: "nat \<Rightarrow> dialogue \<Rightarrow> bool" where
  "named_dialogue c d \<longleftrightarrow>
     bot_id d \<noteq> None \<and> bot_id d \<noteq> Some 0 \<and> message_thread_id d \<noteq> Some 0 \<and>
     (case business_connection_id d of None \<Rightarrow> True | Some s \<Rightarrow> c \<notin> set s \<and> \<not> list_all numeral_char s)"

definition id_parts :: "dialogue \<Rightarrow> pystr list" where
  "id_parts d =
     number_part (bot_id d) @ text_part (business_connection_id d) @ number_part (message_thread_id d) @
     [str_int (chat_id d), str_int (user_id d)]"

lemma get_key_parts: "get_key p sep d = p @ sep @ py_join sep (id_parts d)"
proof -
  have "id_parts d \<noteq> []" by (simp add: id_parts_def)
  then have "py_join sep (p # id_parts d) = p @ sep @ py_join sep (id_parts d)" by (rule py_join_Cons)
  then show ?thesis by (simp add: get_key_def key_params_def id_parts_def)
qed

lemma str_int_no_sep: "\<not> numeral_char c \<Longrightarrow> c \<notin> set (str_int n)"
  using str_int_chars by blast

lemma id_parts_no_sep:
  assumes "\<not> numeral_char c" "named_dialogue c d" "x \<in> set (id_parts d)"
  shows "c \<notin> set x"
  using assms
  by (auto simp: id_parts_def named_dialogue_def number_part_def text_part_def str_int_no_sep
      split: option.splits if_splits)

lemma number_part_inj: "number_part u = number_part v \<Longrightarrow> u \<noteq> Some 0 \<Longrightarrow> v \<noteq> Some 0 \<Longrightarrow> u = v"
  by (auto simp: number_part_def dest: str_int_inj split: option.splits if_splits)

lemma not_a_number: "\<not> list_all numeral_char s \<Longrightarrow> str_int n \<noteq> s" "\<not> list_all numeral_char s \<Longrightarrow> s \<noteq> str_int n"
  using str_int_chars by (auto simp: list_all_iff)

text \<open>The optional parts between the bot and the chat tell their own kind.\<close>

lemma middle_parts_inj:
  assumes "text_part b1 @ number_part t1 = text_part b2 @ number_part t2"
    and "t1 \<noteq> Some 0" "t2 \<noteq> Some 0"
    and "\<And>s. b1 = Some s \<Longrightarrow> \<not> list_all numeral_char s" "\<And>s. b2 = Some s \<Longrightarrow> \<not> list_all numeral_char s"
  shows "b1 = b2 \<and> t1 = t2"
  using assms not_a_number str_int_inj
  by (cases b1; cases b2; cases t1; cases t2) (auto simp: text_part_def number_part_def split: if_splits)

lemma id_parts_inj:
  assumes "named_dialogue c d1" "named_dialogue c d2" "id_parts d1 = id_parts d2"
  shows "d1 = d2"
proof -
  obtain i j where b: "bot_id d1 = Some i" "bot_id d2 = Some j" "i \<noteq> 0" "j \<noteq> 0"
    using assms(1,2) by (auto simp: named_dialogue_def)
  let ?m = "\<lambda>d. text_part (business_connection_id d) @ number_part (message_thread_id d)"
  have p: "id_parts d1 = str_int i # ?m d1 @ [str_int (chat_id d1), str_int (user_id d1)]"
    "id_parts d2 = str_int j # ?m d2 @ [str_int (chat_id d2), str_int (user_id d2)]"
    using b by (simp_all add: id_parts_def number_part_def)
  with assms(3) have e: "str_int i = str_int j" "?m d1 = ?m d2" "str_int (chat_id d1) = str_int (chat_id d2)"
    "str_int (user_id d1) = str_int (user_id d2)" by simp_all
  have "business_connection_id d1 = business_connection_id d2 \<and> message_thread_id d1 = message_thread_id d2"
    using e(2) assms(1,2) by (intro middle_parts_inj) (auto simp: named_dialogue_def)
  with e(1,3,4) b show ?thesis by (intro dialogue.equality) (auto dest: str_int_inj)
qed

lemma get_key_inj:
  assumes "\<not> numeral_char c" "named_dialogue c d1" "named_dialogue c d2"
    and "get_key p [c] d1 = get_key p [c] d2"
  shows "d1 = d2"
proof -
  have "id_parts d \<noteq> []" for d by (simp add: id_parts_def)
  moreover from assms(4) have "py_join [c] (id_parts d1) = py_join [c] (id_parts d2)"
    by (simp add: get_key_parts)
  ultimately have "id_parts d1 = id_parts d2"
    using id_parts_no_sep [OF assms(1)] assms(2,3) by (intro py_join_inj) auto
  then show ?thesis using id_parts_inj assms(2,3) by blast
qed

section \<open>The contract\<close>

definition no_data :: "pystr \<Rightarrow> 'v option" where
  "no_data = (\<lambda>_. None)"

definition data_of :: "'v entry option \<Rightarrow> pystr \<Rightarrow> 'v option" where
  "data_of x = (case x of None \<Rightarrow> no_data | Some e \<Rightarrow> data e)"

lemma data_of_simps [simp]: "data_of None = no_data" "data_of (Some e) = data e"
  by (simp_all add: data_of_def)

text \<open>\<open>entries\<close> is what the storage holds, \<open>key\<close> where, \<open>norm\<close> what it makes of a state.\<close>

locale state_store =
  fixes S :: "('st, 'v) storage"
    and entries :: "'st \<Rightarrow> pystr \<Rightarrow> 'v entry option"
    and key :: "'st \<Rightarrow> dialogue \<Rightarrow> pystr"
    and norm :: "bot_state \<Rightarrow> bot_state"
  assumes set_state_law: "\<exists>st1. set_state S st d s = Inr (True, st1) \<and> key st1 = key st \<and>
      entries st1 = (entries st)(key st d \<mapsto> \<lparr>state = norm s, data = data_of (entries st (key st d))\<rparr>)"
    and get_state_law: "get_state S st d = map_option state (entries st (key st d))"
    and delete_state_law: "\<exists>st1. delete_state S st d = Inr (entries st (key st d) \<noteq> None, st1) \<and>
      key st1 = key st \<and> entries st1 = (entries st)(key st d := None)"
    and set_data_law: "entries st (key st d) = Some e \<Longrightarrow> \<exists>st1. set_data S st d k v = Inr (True, st1) \<and>
      key st1 = key st \<and> entries st1 = (entries st)(key st d \<mapsto> e\<lparr>data := (data e)(k \<mapsto> v)\<rparr>)"
    and set_data_missing: "entries st (key st d) = None \<Longrightarrow> \<exists>e. set_data S st d k v = Inl e"
    and get_data_law: "get_data S st d = data_of (entries st (key st d))"
    and reset_data_law: "\<exists>st1. reset_data S st d = Inr (entries st (key st d) \<noteq> None, st1) \<and> key st1 = key st \<and>
      entries st1 = (entries st)(key st d := map_option (data_update (\<lambda>_. no_data)) (entries st (key st d)))"
    and save_law: "entries st (key st d) = Some e \<Longrightarrow> \<exists>st1. save_data S st d m = Inr (True, st1) \<and>
      key st1 = key st \<and> entries st1 = (entries st)(key st d \<mapsto> e\<lparr>data := m\<rparr>)"
    and save_missing: "entries st (key st d) = None \<Longrightarrow>
      (\<exists>e. save_data S st d m = Inl e) \<or> save_data S st d m = Inr (False, st)"

text \<open>A storage that reports a missing dialogue the way the memory storage does.\<close>

locale strict_store = state_store +
  assumes set_data_strict: "entries st (key st d) = None \<Longrightarrow> set_data S st d k v = Inl RuntimeErr"
    and save_strict: "entries st (key st d) = None \<Longrightarrow> save_data S st d m = Inr (False, st)"

section \<open>The machine on dialogues\<close>

datatype 'v call =
    SetState dialogue bot_state
  | GetState dialogue
  | DeleteState dialogue
  | SetData dialogue pystr 'v
  | GetData dialogue
  | ResetData dialogue
  | Save dialogue "pystr \<Rightarrow> 'v option"

datatype 'v answer = Flag bool | StateIs "bot_state option" | DataIs "pystr \<Rightarrow> 'v option" | Raised store_error

fun call_id :: "'v call \<Rightarrow> dialogue" where
  "call_id (SetState d s) = d"
| "call_id (GetState d) = d"
| "call_id (DeleteState d) = d"
| "call_id (SetData d k v) = d"
| "call_id (GetData d) = d"
| "call_id (ResetData d) = d"
| "call_id (Save d m) = d"

definition answered :: "'st \<Rightarrow> ('st, bool) outcome \<Rightarrow> 'v answer \<times> 'st" where
  "answered st r = (case r of Inl e \<Rightarrow> (Raised e, st) | Inr (b, st1) \<Rightarrow> (Flag b, st1))"

lemma answered_simps [simp]: "answered st (Inl e) = (Raised e, st)" "answered st (Inr (b, st1)) = (Flag b, st1)"
  by (simp_all add: answered_def)

fun perform :: "('st, 'v) storage \<Rightarrow> 'st \<Rightarrow> 'v call \<Rightarrow> 'v answer \<times> 'st" where
  "perform S st (SetState d s) = answered st (set_state S st d s)"
| "perform S st (GetState d) = (StateIs (get_state S st d), st)"
| "perform S st (DeleteState d) = answered st (delete_state S st d)"
| "perform S st (SetData d k v) = answered st (set_data S st d k v)"
| "perform S st (GetData d) = (DataIs (get_data S st d), st)"
| "perform S st (ResetData d) = answered st (reset_data S st d)"
| "perform S st (Save d m) = answered st (save_data S st d m)"

fun run_calls :: "('st, 'v) storage \<Rightarrow> 'st \<Rightarrow> 'v call list \<Rightarrow> 'v answer list" where
  "run_calls S st [] = []"
| "run_calls S st (c # cs) = (case perform S st c of (a, st1) \<Rightarrow> a # run_calls S st1 cs)"

text \<open>The specification keeps one entry per dialogue and knows no keys.\<close>

type_synonym 'v dialogues = "dialogue \<Rightarrow> 'v entry option"

fun spec_call :: "'v dialogues \<Rightarrow> 'v call \<Rightarrow> 'v answer \<times> 'v dialogues" where
  "spec_call A (SetState d s) =
     (Flag True, A(d \<mapsto> \<lparr>state = state_name s, data = data_of (A d)\<rparr>))"
| "spec_call A (GetState d) = (StateIs (map_option state (A d)), A)"
| "spec_call A (DeleteState d) = (Flag (A d \<noteq> None), A(d := None))"
| "spec_call A (SetData d k v) =
     (case A d of
        None \<Rightarrow> (Raised RuntimeErr, A)
      | Some e \<Rightarrow> (Flag True, A(d \<mapsto> e\<lparr>data := (data e)(k \<mapsto> v)\<rparr>)))"
| "spec_call A (GetData d) = (DataIs (data_of (A d)), A)"
| "spec_call A (ResetData d) =
     (Flag (A d \<noteq> None), A(d := map_option (data_update (\<lambda>_. no_data)) (A d)))"
| "spec_call A (Save d m) =
     (case A d of
        None \<Rightarrow> (Flag False, A)
      | Some e \<Rightarrow> (Flag True, A(d \<mapsto> e\<lparr>data := m\<rparr>)))"

fun run_spec :: "'v dialogues \<Rightarrow> 'v call list \<Rightarrow> 'v answer list" where
  "run_spec A [] = []"
| "run_spec A (c # cs) = (case spec_call A c of (a, A1) \<Rightarrow> a # run_spec A1 cs)"

text \<open>Equal answers, up to how a missing dialogue is reported.\<close>

fun same_answer :: "'v call \<Rightarrow> 'v answer \<Rightarrow> 'v answer \<Rightarrow> bool" where
  "same_answer (SetData d k v) a b \<longleftrightarrow> a = b \<or> a = Raised RuntimeErr \<and> (\<exists>e. b = Raised e)"
| "same_answer (Save d m) a b \<longleftrightarrow> a = b \<or> a = Flag False \<and> (\<exists>e. b = Raised e)"
| "same_answer c a b \<longleftrightarrow> a = b"

fun same_answers :: "'v call list \<Rightarrow> 'v answer list \<Rightarrow> 'v answer list \<Rightarrow> bool" where
  "same_answers [] [] [] \<longleftrightarrow> True"
| "same_answers (c # cs) (a # as) (b # bs) \<longleftrightarrow> same_answer c a b \<and> same_answers cs as bs"
| "same_answers _ _ _ \<longleftrightarrow> False"

fun states_as :: "(bot_state \<Rightarrow> bot_state) \<Rightarrow> 'v call \<Rightarrow> bool" where
  "states_as f (SetState d s) \<longleftrightarrow> f s = state_name s"
| "states_as f _ \<longleftrightarrow> True"


section \<open>What the contract gives\<close>

context state_store
begin

text \<open>The storage holds the entries of the dialogues in \<open>D\<close>.\<close>

definition holds :: "dialogue set \<Rightarrow> 'v dialogues \<Rightarrow> 'st \<Rightarrow> bool" where
  "holds D A st \<longleftrightarrow> inj_on (key st) D \<and> (\<forall>d \<in> D. entries st (key st d) = A d)"

lemma holds_upd:
  assumes "holds D A st" "d \<in> D" "key st1 = key st" "entries st1 = (entries st)(key st d := x)"
  shows "holds D (A(d := x)) st1"
  using assms by (auto simp: holds_def inj_on_def)

lemma perform_holds:
  assumes "holds D A st" "call_id c \<in> D" "states_as norm c"
  shows "holds D (snd (spec_call A c)) (snd (perform S st c)) \<and>
    same_answer c (fst (spec_call A c)) (fst (perform S st c))"
proof (cases c)
  case (SetState d s)
  then have a: "entries st (key st d) = A d" "d \<in> D" "norm s = state_name s"
    using assms by (auto simp: holds_def)
  obtain st1 where "set_state S st d s = Inr (True, st1)" "key st1 = key st"
    "entries st1 = (entries st)(key st d \<mapsto> \<lparr>state = norm s, data = data_of (entries st (key st d))\<rparr>)"
    using set_state_law [of st d s] by auto
  with SetState a show ?thesis by (simp add: holds_upd [OF assms(1)])
next
  case (DeleteState d)
  then have a: "entries st (key st d) = A d" "d \<in> D" using assms by (auto simp: holds_def)
  obtain st1 where "delete_state S st d = Inr (entries st (key st d) \<noteq> None, st1)" "key st1 = key st"
    "entries st1 = (entries st)(key st d := None)"
    using delete_state_law [of st d] by auto
  with DeleteState a show ?thesis by (simp add: holds_upd [OF assms(1)])
next
  case (ResetData d)
  then have a: "entries st (key st d) = A d" "d \<in> D" using assms by (auto simp: holds_def)
  obtain st1 where "reset_data S st d = Inr (entries st (key st d) \<noteq> None, st1)" "key st1 = key st"
    "entries st1 = (entries st)(key st d := map_option (data_update (\<lambda>_. no_data)) (entries st (key st d)))"
    using reset_data_law [of st d] by auto
  with ResetData a show ?thesis by (simp add: holds_upd [OF assms(1)])
next
  case (SetData d k v)
  then have a: "entries st (key st d) = A d" "d \<in> D" using assms by (auto simp: holds_def)
  show ?thesis
  proof (cases "A d")
    case None
    with a set_data_missing [of st d k v] obtain e where "set_data S st d k v = Inl e" by auto
    with SetData None assms(1) show ?thesis by simp
  next
    case (Some e)
    with a set_data_law [of st d e k v] obtain st1 where "set_data S st d k v = Inr (True, st1)"
      "key st1 = key st" "entries st1 = (entries st)(key st d \<mapsto> e\<lparr>data := (data e)(k \<mapsto> v)\<rparr>)" by auto
    with SetData Some a show ?thesis by (simp add: holds_upd [OF assms(1)])
  qed
next
  case (Save d m)
  then have a: "entries st (key st d) = A d" "d \<in> D" using assms by (auto simp: holds_def)
  show ?thesis
  proof (cases "A d")
    case None
    with a save_missing [of st d m] Save assms(1) show ?thesis by auto
  next
    case (Some e)
    with a save_law [of st d e m] obtain st1 where "save_data S st d m = Inr (True, st1)"
      "key st1 = key st" "entries st1 = (entries st)(key st d \<mapsto> e\<lparr>data := m\<rparr>)" by auto
    with Save Some a show ?thesis by (simp add: holds_upd [OF assms(1)])
  qed
qed (use assms in \<open>auto simp: holds_def get_state_law get_data_law\<close>)

lemma run_refines:
  assumes "holds D A st" "\<forall>c \<in> set cs. call_id c \<in> D \<and> states_as norm c"
  shows "same_answers cs (run_spec A cs) (run_calls S st cs)"
  using assms
proof (induction cs arbitrary: A st)
  case (Cons c cs)
  with perform_holds [of D A st c] show ?case by (auto split: prod.splits)
qed simp

text \<open>Read what was written, and nothing else changes.\<close>

lemma get_after_set:
  "set_state S st d s = Inr (b, st1) \<Longrightarrow> get_state S st1 d = Some (norm s)"
  using set_state_law [of st d s] by (auto simp: get_state_law)

lemma set_state_keeps_data:
  "set_state S st d s = Inr (b, st1) \<Longrightarrow> get_data S st1 d = get_data S st d"
  using set_state_law [of st d s] by (auto simp: get_data_law)

text \<open>A \<open>with\<close> block on the data of a dialogue that exists.\<close>

lemma with_data_existing:
  assumes "get_state S st d \<noteq> None" "body (get_data S st d) = (exc, new)"
  shows "\<exists>st1. with_data S st d body = (None, st1) \<and> get_data S st1 d = new \<and> get_state S st1 d = get_state S st d"
proof -
  from assms(1) obtain e where e: "entries st (key st d) = Some e" by (auto simp: get_state_law)
  with save_law [OF e, of new] show ?thesis
    using assms(2) by (auto simp: with_data_def get_data_law get_state_law)
qed

text \<open>What \<open>TeleBot.add_data\<close> writes to a dialogue that exists.\<close>

lemma add_data_existing:
  assumes "get_state S st d \<noteq> None"
  shows "\<exists>st1. add_data S st d kws = (None, st1) \<and> get_state S st1 d = get_state S st d \<and>
    get_data S st1 d = get_data S st d ++ map_of (rev kws)"
  using assms
proof (induction kws arbitrary: st)
  case Nil
  then show ?case by simp
next
  case (Cons kw kws)
  obtain k v where kv: "kw = (k, v)" by (cases kw)
  from Cons(2) obtain e where e: "entries st (key st d) = Some e" by (auto simp: get_state_law)
  with set_data_law [OF e, of k v] obtain st1 where s: "set_data S st d k v = Inr (True, st1)"
    "key st1 = key st" "entries st1 = (entries st)(key st d \<mapsto> e\<lparr>data := (data e)(k \<mapsto> v)\<rparr>)" by auto
  have g: "get_state S st1 d = get_state S st d" "get_data S st1 d = (get_data S st d)(k \<mapsto> v)"
    using s(2,3) e by (simp_all add: get_state_law get_data_law)
  with Cons obtain st2 where "add_data S st1 d kws = (None, st2)" "get_state S st2 d = get_state S st d"
    "get_data S st2 d = (get_data S st d)(k \<mapsto> v) ++ map_of (rev kws)" by metis
  with s(1) kv show ?case
    by (auto simp: map_add_def fun_eq_iff map_of_append split: option.split)
qed

end

context strict_store
begin

lemma perform_strict:
  assumes "holds D A st" "call_id c \<in> D" "states_as norm c"
  shows "fst (perform S st c) = fst (spec_call A c)"
proof (cases c)
  case (SetData d k v)
  with assms set_data_strict [of st d k v] perform_holds [OF assms] show ?thesis
    by (cases "A d") (auto simp: holds_def dest: set_data_law [of st d _ k v])
next
  case (Save d m)
  with assms save_strict [of st d m] perform_holds [OF assms] show ?thesis
    by (cases "A d") (auto simp: holds_def dest: save_law [of st d _ m])
qed (use perform_holds [OF assms] in auto)

lemma run_exact:
  assumes "holds D A st" "\<forall>c \<in> set cs. call_id c \<in> D \<and> states_as norm c"
  shows "run_calls S st cs = run_spec A cs"
  using assms
proof (induction cs arbitrary: A st)
  case (Cons c cs)
  with perform_holds [of D A st c] perform_strict [of D A st c] show ?case by (auto split: prod.splits)
qed simp

text \<open>A \<open>with\<close> block on a dialogue that does not exist loses what it has written.\<close>

lemma with_data_missing:
  assumes "get_state S st d = None"
  shows "with_data S st d body = (map_option Inr (fst (body no_data)), st)"
  using assms save_strict [of st d] by (auto simp: with_data_def get_state_law get_data_law split: prod.splits)

end

section \<open>The two storages\<close>

lemmas memory_defs = memory_storage_def memory_set_state_def memory_get_state_def memory_delete_state_def
  memory_set_data_def memory_get_data_def memory_reset_data_def memory_save_def put_entry_def Let_def

lemma memory_key_held [simp]: "memory_key (st\<lparr>held := m\<rparr>) = memory_key st"
  by (simp add: memory_key_def fun_eq_iff)

interpretation memory: strict_store memory_storage held memory_key state_name
  by unfold_locales (auto simp: memory_defs no_data_def data_of_def split: option.splits)

lemmas pickle_defs = pickle_storage_def pickle_set_state_def pickle_get_state_def pickle_delete_state_def
  pickle_set_data_def pickle_get_data_def pickle_reset_data_def pickle_save_def write_to_file_def Let_def

lemma pickle_key_stored [simp]: "pickle_key (st\<lparr>stored := m\<rparr>) = pickle_key st"
  by (simp add: pickle_key_def fun_eq_iff)

interpretation pickled: state_store pickle_storage stored pickle_key "\<lambda>s. s"
  by unfold_locales (auto simp: pickle_defs no_data_def data_of_def split: option.splits)


section \<open>Properties\<close>

text \<open>
  The key of a dialogue tells the dialogue: for a separator that no number contains, two
  dialogues of known bots whose business connections are neither numbers nor contain the
  separator have the same key only when they agree in chat, user, business connection, thread
  and bot.  Without the known bot they need not: a thread and a bot of the same number give one
  key.
\<close>

lemma dialogue_keys_distinct:
  assumes "\<not> numeral_char c" "named_dialogue c d1" "named_dialogue c d2"
  shows "(get_key p [c] d1 = get_key p [c] d2 \<longleftrightarrow> d1 = d2) \<and>
    get_key p [c] (d1\<lparr>business_connection_id := None, message_thread_id := bot_id d1, bot_id := None\<rparr>) =
    get_key p [c] (d1\<lparr>business_connection_id := None, message_thread_id := None\<rparr>)"
  using get_key_inj [OF assms] by (auto simp: get_key_def key_params_def number_part_def text_part_def)

definition example_dialogue :: dialogue where
  "example_dialogue = \<lparr>chat_id = -5, user_id = 8, business_connection_id = Some [97, 49],
     message_thread_id = Some 3, bot_id = Some 42\<rparr>"

lemma example_named: "named_dialogue 58 example_dialogue" "named_dialogue 58 (example_dialogue\<lparr>message_thread_id := None\<rparr>)"
  "\<not> numeral_char 58"
  by (simp_all add: named_dialogue_def example_dialogue_def numeral_char_def)



text \<open>
  C32. What \<open>with bot.retrieve_data(...)\<close> does.  On a dialogue that has a state, what the block
  leaves in the data is saved, the state stays, and an exception of the block ends there,
  whatever it was; both storages.  On a dialogue without one, the memory storage drops what the
  block wrote, and no error tells so.
\<close>

theorem with_data_outcome:
  fixes m :: "'v memory" and f :: "'v pickle"
    and body :: "(pystr \<Rightarrow> 'v option) \<Rightarrow> 'e option \<times> (pystr \<Rightarrow> 'v option)"
  shows "(if get_state memory_storage m d \<noteq> None
      then \<exists>m1. with_data memory_storage m d body = (None, m1) \<and>
        get_data memory_storage m1 d = snd (body (get_data memory_storage m d)) \<and>
        get_state memory_storage m1 d = get_state memory_storage m d
      else with_data memory_storage m d body = (map_option Inr (fst (body no_data)), m)) \<and>
    (if get_state pickle_storage f d \<noteq> None
      then \<exists>f1. with_data pickle_storage f d body = (None, f1) \<and>
        get_data pickle_storage f1 d = snd (body (get_data pickle_storage f d)) \<and>
        get_state pickle_storage f1 d = get_state pickle_storage f d
      else \<exists>e. with_data pickle_storage f d body = (Some (Inl e), f))"
proof -
  have "\<exists>e. with_data pickle_storage f d body = (Some (Inl e), f)" if "get_state pickle_storage f d = None"
    using that by (auto simp: with_data_def pickle_defs split: prod.splits)
  then show ?thesis
    using memory.with_data_existing [of m d body "fst (body (get_data memory_storage m d))"]
      pickled.with_data_existing [of f d body "fst (body (get_data pickle_storage f d))"]
      memory.with_data_missing [of m d body] by auto
qed

end
