(* ===== verification/Bot_Updates.thy ===== *)
theory Bot_Updates
  imports Py_Str "HOL-Library.AList"
begin

text \<open>
  How pyTelegramBotAPI's \<open>TeleBot\<close> (\<open>telebot/__init__.py\<close>) turns the updates it polls into
  calls of the user's handlers: polling with an offset, function middlewares, the split of a
  batch by kind, next-step and reply handlers (\<open>handler_backends.py\<close>, the memory backend), the
  filters of a handler, class middlewares, and the task queue of the worker pool (\<open>util.py\<close>).

  User code and the generated types are arguments: the record \<open>env\<close>.  A callback is a function
  on the bot, since it may register handlers; a list of command handlers is what it was when
  the task was made.  In threaded mode a task waits in \<open>tasks\<close> until a worker takes it.
\<close>

section \<open>Updates\<close>

datatype update_type =
    NewMessage | EditedMessage | ChannelPost | EditedChannelPost | InlineQuery | ChosenInlineResult
  | CallbackQuery | ShippingQuery | PreCheckoutQuery | Poll | PollAnswer | MyChatMember | ChatMember
  | ChatJoinRequest | MessageReaction | MessageReactionCount | ChatBoost | RemovedChatBoost
  | BusinessConnection | BusinessMessage | EditedBusinessMessage | DeletedBusinessMessages
  | PurchasedPaidMedia | ManagedBot | GuestMessage | Subscription | StoppedMessageGeneration

text \<open>\<open>part u t\<close> is the field of the update for the kind \<open>t\<close>.\<close>

record 'p update =
  update_id :: int
  part :: "update_type \<Rightarrow> 'p option"

text \<open>The name under which a kind is given to its handlers and middlewares.\<close>

primrec handler_name :: "update_type \<Rightarrow> string" where
  "handler_name NewMessage = ''message''"
| "handler_name EditedMessage = ''edited_message''"
| "handler_name ChannelPost = ''channel_post''"
| "handler_name EditedChannelPost = ''edited_channel_post''"
| "handler_name MessageReaction = ''message_reaction''"
| "handler_name MessageReactionCount = ''message_reaction_count''"
| "handler_name InlineQuery = ''inline_query''"
| "handler_name ChosenInlineResult = ''chosen_inline_query''"
| "handler_name CallbackQuery = ''callback_query''"
| "handler_name ShippingQuery = ''shipping_query''"
| "handler_name PreCheckoutQuery = ''pre_checkout_query''"
| "handler_name Poll = ''poll''"
| "handler_name PollAnswer = ''poll_answer''"
| "handler_name MyChatMember = ''my_chat_member''"
| "handler_name ChatMember = ''chat_member''"
| "handler_name ChatJoinRequest = ''chat_join_request''"
| "handler_name ChatBoost = ''chat_boost''"
| "handler_name RemovedChatBoost = ''removed_chat_boost''"
| "handler_name BusinessConnection = ''business_connection''"
| "handler_name BusinessMessage = ''business_message''"
| "handler_name EditedBusinessMessage = ''edited_business_message''"
| "handler_name DeletedBusinessMessages = ''deleted_business_messages''"
| "handler_name PurchasedPaidMedia = ''purchased_paid_media''"
| "handler_name ManagedBot = ''managed_bot''"
| "handler_name GuestMessage = ''guest_message''"
| "handler_name Subscription = ''subscription''"
| "handler_name StoppedMessageGeneration = ''stopped_message_generation''"

text \<open>The order in which the kinds of a batch are processed after the messages.\<close>

definition process_order :: "update_type list" where
  "process_order =
     [EditedMessage, ChannelPost, EditedChannelPost, InlineQuery, ChosenInlineResult, CallbackQuery,
      ShippingQuery, PreCheckoutQuery, Poll, PollAnswer, MyChatMember, ChatMember, Subscription,
      StoppedMessageGeneration, ChatJoinRequest, MessageReaction, MessageReactionCount, ChatBoost,
      RemovedChatBoost, BusinessConnection, BusinessMessage, EditedBusinessMessage,
      DeletedBusinessMessages, PurchasedPaidMedia, ManagedBot, GuestMessage]"

section \<open>Handlers and the bot\<close>

text \<open>The filters of a handler; \<open>None\<close> values are dropped by \<open>_build_handler_dict\<close>.\<close>

datatype 'h flt =
    ContentTypes "pystr list"
  | Regexp 'h
  | Commands "pystr list"
  | ChatTypes "pystr list"
  | Func 'h
  | Custom string 'h

record 'h handler =
  callback :: 'h
  pass_bot :: bool
  flts :: "'h flt list"

datatype 'h custom_filter = SimpleCustom 'h | AdvancedCustom 'h | WrongType

record 'h middleware =
  object :: 'h
  update_sensitive :: bool
  update_types :: "string list"

text \<open>What is put on the queue of the worker pool.\<close>

datatype ('p, 'h) task =
    CallStep 'h 'p
  | CallReply 'h 'p
  | CallListener 'h "'p list"
  | RunHandlers 'p "'h handler list" "'h middleware list option" update_type

record ('p, 'h, 'x) bot =
  threaded :: bool
  skip_pending :: bool
  last_update_id :: int
  suppress_middleware :: bool
  use_class_middlewares :: bool
  next_steps :: "int \<Rightarrow> 'h list option"
  replies :: "int \<Rightarrow> 'h list option"
  update_listener :: "'h list"
  handlers :: "update_type \<Rightarrow> 'h handler list"
  custom_filters :: "string \<Rightarrow> 'h custom_filter option"
  typed_middlewares :: "(update_type \<times> 'h list) list"
  default_middlewares :: "'h list"
  middlewares :: "'h middleware list"
  tasks :: "('p, 'h) task list"
  world :: 'x

datatype result = ContinueHandling | Done

datatype mw_result = CancelUpdate | SkipHandler | Proceed

datatype ('p, 'u) subject = OnePart 'p | WholeUpdate 'u

text \<open>The arguments a handler is called with beside the message.\<close>

datatype 'v argument = Value 'v | TheBot

datatype 'v arguments = NoArguments | DataArgument | DataAndBot | Keywords "(string \<times> 'v argument) list"

type_synonym 'v data_dict = "(string \<times> 'v) list"

text \<open>
  The code outside: attributes of the generated message types, the user's callbacks with how
  they end (an exception is a value of \<open>'e\<close>), \<open>inspect.signature\<close>, and the exception handler,
  \<open>None\<close> when there is none.  \<open>pre\<close> and \<open>post\<close> are a middleware's methods, \<open>None\<close> for a method
  that the object does not have.
\<close>

record ('p, 'h, 'x, 'v, 'e) env =
  chat_of :: "'p \<Rightarrow> int"
  reply_of :: "'p \<Rightarrow> int option"
  content_type_of :: "'p \<Rightarrow> pystr"
  text_of :: "'p \<Rightarrow> pystr"
  chat_type_of :: "'p \<Rightarrow> pystr"
  search :: "'h \<Rightarrow> pystr \<Rightarrow> bool"
  call_func :: "'h \<Rightarrow> 'p \<Rightarrow> bool"
  check_simple :: "'h \<Rightarrow> 'p \<Rightarrow> 'h"
  check_advanced :: "'h \<Rightarrow> 'p \<Rightarrow> 'h \<Rightarrow> bool"
  call_step :: "'h \<Rightarrow> 'p \<Rightarrow> ('p, 'h, 'x) bot \<Rightarrow> 'e option \<times> ('p, 'h, 'x) bot"
  call_listener :: "'h \<Rightarrow> 'p list \<Rightarrow> ('p, 'h, 'x) bot \<Rightarrow> 'e option \<times> ('p, 'h, 'x) bot"
  call_handler :: "'h \<Rightarrow> 'p \<Rightarrow> 'v arguments \<Rightarrow> 'v data_dict \<times> ('p, 'h, 'x) bot \<Rightarrow>
    ('e + result) \<times> 'v data_dict \<times> ('p, 'h, 'x) bot"
  signature :: "'h \<Rightarrow> string list"
  call_middleware :: "'h \<Rightarrow> ('p, 'p update) subject \<Rightarrow> 'x \<Rightarrow> 'e option \<times> 'x"
  pre :: "'h \<Rightarrow> string option \<Rightarrow> ('p \<Rightarrow> 'v data_dict \<times> ('p, 'h, 'x) bot \<Rightarrow>
    ('e + mw_result) \<times> 'v data_dict \<times> ('p, 'h, 'x) bot) option"
  post :: "'h \<Rightarrow> string option \<Rightarrow> ('p \<Rightarrow> 'e option \<Rightarrow> 'v data_dict \<times> ('p, 'h, 'x) bot \<Rightarrow>
    'e option \<times> 'v data_dict \<times> ('p, 'h, 'x) bot) option"
  exception_handler :: "('e \<Rightarrow> bool) option"

definition handle_exception :: "('p, 'h, 'x, 'v, 'e) env \<Rightarrow> 'e \<Rightarrow> bool" where
  "handle_exception env e = (case exception_handler env of None \<Rightarrow> False | Some h \<Rightarrow> h e)"

section \<open>Filters\<close>

text \<open>\<open>util.extract_command\<close>; \<open>None\<close> when the text is no command.\<close>

definition is_command :: "pystr \<Rightarrow> bool" where
  "is_command t \<longleftrightarrow> take 1 t = [47]"

definition extract_command :: "pystr \<Rightarrow> pystr option" where
  "extract_command t =
     (if is_command t then map_option (\<lambda>w. drop 1 (hd (py_split [64] w))) (first_word t) else None)"

definition check_filter :: "('p, 'h, 'x, 'v, 'e) env \<Rightarrow> 'h custom_filter \<Rightarrow> 'h \<Rightarrow> 'p \<Rightarrow> bool" where
  "check_filter env f v m =
     (case f of
        SimpleCustom c \<Rightarrow> v = check_simple env c m
      | AdvancedCustom c \<Rightarrow> check_advanced env c m v
      | WrongType \<Rightarrow> False)"

fun test_filter ::
    "('p, 'h, 'x, 'v, 'e) env \<Rightarrow> (string \<Rightarrow> 'h custom_filter option) \<Rightarrow> 'h flt \<Rightarrow> 'p \<Rightarrow> bool" where
  "test_filter env cf (ContentTypes ts) m \<longleftrightarrow> content_type_of env m \<in> set ts"
| "test_filter env cf (Regexp r) m \<longleftrightarrow> content_type_of env m = map of_char ''text'' \<and> search env r (text_of env m)"
| "test_filter env cf (Commands cs) m \<longleftrightarrow>
     content_type_of env m = map of_char ''text'' \<and>
     (case extract_command (text_of env m) of None \<Rightarrow> False | Some c \<Rightarrow> c \<in> set cs)"
| "test_filter env cf (ChatTypes ts) m \<longleftrightarrow> chat_type_of env m \<in> set ts"
| "test_filter env cf (Func f) m \<longleftrightarrow> call_func env f m"
| "test_filter env cf (Custom k v) m \<longleftrightarrow> (case cf k of None \<Rightarrow> False | Some f \<Rightarrow> check_filter env f v m)"

definition test_message_handler ::
    "('p, 'h, 'x, 'v, 'e) env \<Rightarrow> (string \<Rightarrow> 'h custom_filter option) \<Rightarrow> 'h handler \<Rightarrow> 'p \<Rightarrow> bool" where
  "test_message_handler env cf h m = list_all (\<lambda>f. test_filter env cf f m) (flts h)"


section \<open>Running the handlers of one message\<close>

text \<open>Without class middlewares: the handlers in order until one that passes the filters does
  not return \<open>ContinueHandling\<close>.\<close>

fun run_handlers ::
    "('p, 'h, 'x, 'v, 'e) env \<Rightarrow> (string \<Rightarrow> 'h custom_filter option) \<Rightarrow> 'p \<Rightarrow> 'h handler list \<Rightarrow>
     ('p, 'h, 'x) bot \<Rightarrow> 'e option \<times> ('p, 'h, 'x) bot" where
  "run_handlers env cf m [] b = (None, b)"
| "run_handlers env cf m (h # hs) b =
     (if \<not> test_message_handler env cf h m then run_handlers env cf m hs b
      else case call_handler env (callback h) m (if pass_bot h then Keywords [(''bot'', TheBot)] else NoArguments) ([], b) of
             (Inl e, _, b1) \<Rightarrow> (Some e, b1)
           | (Inr r, _, b1) \<Rightarrow> if r = ContinueHandling then run_handlers env cf m hs b1 else (None, b1))"

text \<open>The arguments of a handler under class middlewares, by its signature; \<open>None\<close> where the
  method logs an error and returns.\<close>

definition handler_arguments :: "string list \<Rightarrow> bool \<Rightarrow> 'v data_dict \<Rightarrow> 'v arguments option" where
  "handler_arguments params wants_bot dict =
     (if length params = 1 then Some NoArguments
      else if ''data'' \<in> set params
           then (if length params = 2 then Some DataArgument
                 else if length params = 3 then Some DataAndBot
                 else None)
      else let kept = map (\<lambda>(k, v). (k, Value v)) (filter (\<lambda>(k, v). k \<in> set params) dict);
               kw = (if wants_bot then AList.update ''bot'' TheBot kept else kept)
           in if int (length kw) > int (length params) - 1 then None else Some (Keywords kw))"

text \<open>How the loop over the handlers ends: with the error it caught, or by the early \<open>return\<close>.\<close>

datatype 'e handled = Finished "'e option" | Misconfigured

fun run_handlers_data ::
    "('p, 'h, 'x, 'v, 'e) env \<Rightarrow> (string \<Rightarrow> 'h custom_filter option) \<Rightarrow> 'p \<Rightarrow> 'h handler list \<Rightarrow>
     'v data_dict \<times> ('p, 'h, 'x) bot \<Rightarrow> 'e handled \<times> 'v data_dict \<times> ('p, 'h, 'x) bot" where
  "run_handlers_data env cf m [] s = (Finished None, s)"
| "run_handlers_data env cf m (h # hs) s =
     (if \<not> test_message_handler env cf h m then run_handlers_data env cf m hs s
      else case handler_arguments (signature env (callback h)) (pass_bot h) (fst s) of
             None \<Rightarrow> (Misconfigured, s)
           | Some args \<Rightarrow>
               (case call_handler env (callback h) m args s of
                  (Inl e, s1) \<Rightarrow> (Finished (Some e), s1)
                | (Inr r, s1) \<Rightarrow> if r = ContinueHandling then run_handlers_data env cf m hs s1 else (Finished None, s1)))"

text \<open>\<open>pre_process\<close> of the middlewares: \<open>None\<close> when one cancels the update, else whether the
  handlers are skipped.\<close>

definition method_name :: "'h middleware \<Rightarrow> update_type \<Rightarrow> string option" where
  "method_name w t = (if update_sensitive w then Some (handler_name t) else None)"

fun pre_process ::
    "('p, 'h, 'x, 'v, 'e) env \<Rightarrow> update_type \<Rightarrow> 'p \<Rightarrow> 'h middleware list \<Rightarrow> bool \<Rightarrow>
     'v data_dict \<times> ('p, 'h, 'x) bot \<Rightarrow> ('e + bool option) \<times> 'v data_dict \<times> ('p, 'h, 'x) bot" where
  "pre_process env t m [] skipping s = (Inr (Some skipping), s)"
| "pre_process env t m (w # ws) skipping s =
     (case pre env (object w) (method_name w t) of
        None \<Rightarrow> pre_process env t m ws skipping s
      | Some f \<Rightarrow>
          (case f m s of
             (Inl e, s1) \<Rightarrow> (Inl e, s1)
           | (Inr CancelUpdate, s1) \<Rightarrow> (Inr None, s1)
           | (Inr SkipHandler, s1) \<Rightarrow> pre_process env t m ws True s1
           | (Inr Proceed, s1) \<Rightarrow> pre_process env t m ws skipping s1))"

fun post_process ::
    "('p, 'h, 'x, 'v, 'e) env \<Rightarrow> update_type \<Rightarrow> 'p \<Rightarrow> 'e option \<Rightarrow> 'h middleware list \<Rightarrow>
     'v data_dict \<times> ('p, 'h, 'x) bot \<Rightarrow> 'e option \<times> 'v data_dict \<times> ('p, 'h, 'x) bot" where
  "post_process env t m err [] s = (None, s)"
| "post_process env t m err (w # ws) s =
     (case post env (object w) (method_name w t) of
        None \<Rightarrow> post_process env t m err ws s
      | Some f \<Rightarrow>
          (case f m err s of
             (Some e, s1) \<Rightarrow> (Some e, s1)
           | (None, s1) \<Rightarrow> post_process env t m err ws s1))"

definition run_middlewares_and_handler ::
    "('p, 'h, 'x, 'v, 'e) env \<Rightarrow> 'p \<Rightarrow> 'h handler list \<Rightarrow> 'h middleware list option \<Rightarrow> update_type \<Rightarrow>
     ('p, 'h, 'x) bot \<Rightarrow> 'e option \<times> ('p, 'h, 'x) bot" where
  "run_middlewares_and_handler env m hs mws t b =
     (let cf = custom_filters b; ws = (case mws of None \<Rightarrow> [] | Some ws \<Rightarrow> ws)
      in if \<not> use_class_middlewares b then run_handlers env cf m hs b
         else case pre_process env t m ws False ([], b) of
                (Inl e, _, b1) \<Rightarrow> (Some e, b1)
              | (Inr None, _, b1) \<Rightarrow> (None, b1)
              | (Inr (Some skipping), s1) \<Rightarrow>
                  (case (if skipping then (Finished None, s1) else run_handlers_data env cf m hs s1) of
                     (Misconfigured, _, b2) \<Rightarrow> (None, b2)
                   | (Finished err, s2) \<Rightarrow>
                       (case post_process env t m err ws s2 of (r, _, b3) \<Rightarrow> (r, b3))))"

section \<open>Tasks\<close>

fun run_task ::
    "('p, 'h, 'x, 'v, 'e) env \<Rightarrow> ('p, 'h) task \<Rightarrow> ('p, 'h, 'x) bot \<Rightarrow> 'e option \<times> ('p, 'h, 'x) bot" where
  "run_task env (CallStep h m) b = call_step env h m b"
| "run_task env (CallReply h m) b = call_step env h m b"
| "run_task env (CallListener l ms) b = call_listener env l ms b"
| "run_task env (RunHandlers m hs mws t) b = run_middlewares_and_handler env m hs mws t b"

definition put_task :: "('p, 'h) task \<Rightarrow> ('p, 'h, 'x) bot \<Rightarrow> ('p, 'h, 'x) bot" where
  "put_task t b = b\<lparr>tasks := tasks b @ [t]\<rparr>"

definition exec_task ::
    "('p, 'h, 'x, 'v, 'e) env \<Rightarrow> ('p, 'h) task \<Rightarrow> ('p, 'h, 'x) bot \<Rightarrow> 'e option \<times> ('p, 'h, 'x) bot" where
  "exec_task env t b =
     (if threaded b then (None, put_task t b)
      else case run_task env t b of
             (None, b1) \<Rightarrow> (None, b1)
           | (Some e, b1) \<Rightarrow> (if handle_exception env e then None else Some e, b1))"

fun exec_tasks ::
    "('p, 'h, 'x, 'v, 'e) env \<Rightarrow> ('p, 'h) task list \<Rightarrow> ('p, 'h, 'x) bot \<Rightarrow> 'e option \<times> ('p, 'h, 'x) bot" where
  "exec_tasks env [] b = (None, b)"
| "exec_tasks env (t # ts) b =
     (case exec_task env t b of (Some e, b1) \<Rightarrow> (Some e, b1) | (None, b1) \<Rightarrow> exec_tasks env ts b1)"

text \<open>One turn of a worker: the next task and how it ends, \<open>Some e\<close> when the pool's
  \<open>exception_event\<close> is set with \<open>e\<close>.\<close>

definition worker_turn ::
    "('p, 'h, 'x, 'v, 'e) env \<Rightarrow> ('p, 'h, 'x) bot \<Rightarrow> 'e option \<times> ('p, 'h, 'x) bot" where
  "worker_turn env b =
     (case tasks b of
        [] \<Rightarrow> (None, b)
      | t # ts \<Rightarrow>
          (case run_task env t (b\<lparr>tasks := ts\<rparr>) of
             (None, b1) \<Rightarrow> (None, b1)
           | (Some e, b1) \<Rightarrow> (if handle_exception env e then None else Some e, b1)))"

section \<open>Next-step and reply handlers\<close>

text \<open>The memory backend: \<open>register_handler\<close>, \<open>get_handlers\<close>, \<open>clear_handlers\<close>.\<close>

definition register_handler :: "int \<Rightarrow> 'h \<Rightarrow> (int \<Rightarrow> 'h list option) \<Rightarrow> int \<Rightarrow> 'h list option" where
  "register_handler g h d = (case d g of Some hs \<Rightarrow> d(g \<mapsto> hs @ [h]) | None \<Rightarrow> d(g \<mapsto> [h]))"

definition get_handlers :: "int \<Rightarrow> (int \<Rightarrow> 'h list option) \<Rightarrow> 'h list option \<times> (int \<Rightarrow> 'h list option)" where
  "get_handlers g d = (d g, d(g := None))"

definition clear_handlers :: "int \<Rightarrow> (int \<Rightarrow> 'h list option) \<Rightarrow> int \<Rightarrow> 'h list option" where
  "clear_handlers g d = d(g := None)"

definition register_next_step_handler_by_chat_id :: "int \<Rightarrow> 'h \<Rightarrow> ('p, 'h, 'x) bot \<Rightarrow> ('p, 'h, 'x) bot" where
  "register_next_step_handler_by_chat_id c h b = b\<lparr>next_steps := register_handler c h (next_steps b)\<rparr>"

definition clear_step_handler_by_chat_id :: "int \<Rightarrow> ('p, 'h, 'x) bot \<Rightarrow> ('p, 'h, 'x) bot" where
  "clear_step_handler_by_chat_id c b = b\<lparr>next_steps := clear_handlers c (next_steps b)\<rparr>"

definition register_for_reply_by_message_id :: "int \<Rightarrow> 'h \<Rightarrow> ('p, 'h, 'x) bot \<Rightarrow> ('p, 'h, 'x) bot" where
  "register_for_reply_by_message_id i h b = b\<lparr>replies := register_handler i h (replies b)\<rparr>"

definition clear_reply_handlers_by_message_id :: "int \<Rightarrow> ('p, 'h, 'x) bot \<Rightarrow> ('p, 'h, 'x) bot" where
  "clear_reply_handlers_by_message_id i b = b\<lparr>replies := clear_handlers i (replies b)\<rparr>"

text \<open>
  \<open>_notify_next_handlers\<close>: \<open>enumerate\<close> walks the list by its index while the body pops from it.
  The result has the list as it is left, which the caller goes on with.
\<close>

function notify_next_handlers ::
    "('p, 'h, 'x, 'v, 'e) env \<Rightarrow> nat \<Rightarrow> 'p list \<Rightarrow> ('p, 'h, 'x) bot \<Rightarrow> 'e option \<times> 'p list \<times> ('p, 'h, 'x) bot" where
  "notify_next_handlers env i ms b =
     (if i < length ms
      then (let m = ms ! i;
                (hs, d) = get_handlers (chat_of env m) (next_steps b);
                found = (case hs of None \<Rightarrow> [] | Some hs \<Rightarrow> hs)
            in case exec_tasks env (map (\<lambda>h. CallStep h m) found) (b\<lparr>next_steps := d\<rparr>) of
                 (Some e, b1) \<Rightarrow> (Some e, ms, b1)
               | (None, b1) \<Rightarrow>
                   notify_next_handlers env (Suc i) (if found \<noteq> [] then take i ms @ drop (Suc i) ms else ms) b1)
      else (None, ms, b))"
  by pat_completeness auto
termination
  by (relation "measure (\<lambda>(env, i, ms, b). length ms - i)") auto

declare notify_next_handlers.simps [simp del]

fun notify_reply_handlers ::
    "('p, 'h, 'x, 'v, 'e) env \<Rightarrow> 'p list \<Rightarrow> ('p, 'h, 'x) bot \<Rightarrow> 'e option \<times> ('p, 'h, 'x) bot" where
  "notify_reply_handlers env [] b = (None, b)"
| "notify_reply_handlers env (m # ms) b =
     (case reply_of env m of
        None \<Rightarrow> notify_reply_handlers env ms b
      | Some i \<Rightarrow>
          (let (hs, d) = get_handlers i (replies b); found = (case hs of None \<Rightarrow> [] | Some hs \<Rightarrow> hs)
           in case exec_tasks env (map (\<lambda>h. CallReply h m) found) (b\<lparr>replies := d\<rparr>) of
                (Some e, b1) \<Rightarrow> (Some e, b1)
              | (None, b1) \<Rightarrow> notify_reply_handlers env ms b1))"

definition notify_update ::
    "('p, 'h, 'x, 'v, 'e) env \<Rightarrow> 'p list \<Rightarrow> ('p, 'h, 'x) bot \<Rightarrow> 'e option \<times> ('p, 'h, 'x) bot" where
  "notify_update env ms b = exec_tasks env (map (\<lambda>l. CallListener l ms) (update_listener b)) b"

definition get_middlewares :: "update_type \<Rightarrow> ('p, 'h, 'x) bot \<Rightarrow> 'h middleware list option" where
  "get_middlewares t b =
     (if middlewares b = [] then None else Some (filter (\<lambda>w. handler_name t \<in> set (update_types w)) (middlewares b)))"

definition notify_command_handlers ::
    "('p, 'h, 'x, 'v, 'e) env \<Rightarrow> update_type \<Rightarrow> 'p list \<Rightarrow> ('p, 'h, 'x) bot \<Rightarrow> 'e option \<times> ('p, 'h, 'x) bot" where
  "notify_command_handlers env t ms b =
     (if handlers b t = [] \<and> \<not> use_class_middlewares b then (None, b)
      else let ws = (if use_class_middlewares b then get_middlewares t b else None)
           in exec_tasks env (map (\<lambda>m. RunHandlers m (handlers b t) ws t) ms) b)"

definition process_new_messages ::
    "('p, 'h, 'x, 'v, 'e) env \<Rightarrow> 'p list \<Rightarrow> ('p, 'h, 'x) bot \<Rightarrow> 'e option \<times> ('p, 'h, 'x) bot" where
  "process_new_messages env ms b =
     (case notify_next_handlers env 0 ms b of
        (Some e, _, b1) \<Rightarrow> (Some e, b1)
      | (None, ms1, b1) \<Rightarrow>
          (case notify_reply_handlers env ms1 b1 of
             (Some e, b2) \<Rightarrow> (Some e, b2)
           | (None, b2) \<Rightarrow>
               (case notify_update env ms1 b2 of
                  (Some e, b3) \<Rightarrow> (Some e, b3)
                | (None, b3) \<Rightarrow> notify_command_handlers env NewMessage ms1 b3)))"


section \<open>A batch of updates\<close>

text \<open>The function middlewares, in their order; the first exception ends them.\<close>

fun run_each :: "('a \<Rightarrow> 'x \<Rightarrow> 'e option \<times> 'x) \<Rightarrow> 'a list \<Rightarrow> 'x \<Rightarrow> 'e option \<times> 'x" where
  "run_each f [] x = (None, x)"
| "run_each f (a # as) x = (case f a x of (Some e, x1) \<Rightarrow> (Some e, x1) | (None, x1) \<Rightarrow> run_each f as x1)"

definition typed_calls :: "(update_type \<times> 'h list) list \<Rightarrow> 'p update \<Rightarrow> ('h \<times> ('p, 'p update) subject) list" where
  "typed_calls typed u =
     concat (map (\<lambda>(t, hs). case part u t of None \<Rightarrow> [] | Some p \<Rightarrow> map (\<lambda>h. (h, OnePart p)) hs) typed)"

definition process_middlewares ::
    "('p, 'h, 'x, 'v, 'e) env \<Rightarrow> 'p update \<Rightarrow> ('p, 'h, 'x) bot \<Rightarrow> 'e option \<times> ('p, 'h, 'x) bot" where
  "process_middlewares env u b =
     (case run_each (\<lambda>(h, s). call_middleware env h s)
             (typed_calls (typed_middlewares b) u @ map (\<lambda>h. (h, WholeUpdate u)) (default_middlewares b)) (world b) of
        (r, x) \<Rightarrow> (r, b\<lparr>world := x\<rparr>))"

definition see_update :: "'p update \<Rightarrow> ('p, 'h, 'x) bot \<Rightarrow> ('p, 'h, 'x) bot" where
  "see_update u b = (if update_id u > last_update_id b then b\<lparr>last_update_id := update_id u\<rparr> else b)"

text \<open>The loop over the updates: those that are to be split by kind, in order.  \<open>enabled\<close> is
  \<open>apihelper.ENABLE_MIDDLEWARE\<close>.\<close>

fun sort_updates ::
    "bool \<Rightarrow> ('p, 'h, 'x, 'v, 'e) env \<Rightarrow> 'p update list \<Rightarrow> ('p, 'h, 'x) bot \<Rightarrow>
     ('e + 'p update list) \<times> ('p, 'h, 'x) bot" where
  "sort_updates enabled env [] b = (Inr [], b)"
| "sort_updates enabled env (u # us) b =
     (case (if enabled \<and> \<not> use_class_middlewares b then process_middlewares env u b else (None, b)) of
        (Some e, b1) \<Rightarrow>
          (if \<not> suppress_middleware b1 then (Inl e, b1) else sort_updates enabled env us (see_update u b1))
      | (None, b1) \<Rightarrow>
          (case sort_updates enabled env us (see_update u b1) of
             (Inl e, b2) \<Rightarrow> (Inl e, b2)
           | (Inr kept, b2) \<Rightarrow> (Inr (u # kept), b2)))"

text \<open>The list collected for one kind.\<close>

definition parts_of :: "update_type \<Rightarrow> 'p update list \<Rightarrow> 'p list" where
  "parts_of t us = List.map_filter (\<lambda>u. part u t) us"

text \<open>One \<open>process_new_...\<close> method for a kind other than the messages; an empty list skips it.\<close>

definition process_kind ::
    "('p, 'h, 'x, 'v, 'e) env \<Rightarrow> 'p update list \<Rightarrow> update_type \<Rightarrow> ('p, 'h, 'x) bot \<Rightarrow>
     'e option \<times> ('p, 'h, 'x) bot" where
  "process_kind env us t b =
     (if parts_of t us = [] then (None, b) else notify_command_handlers env t (parts_of t us) b)"

definition process_new_updates ::
    "bool \<Rightarrow> ('p, 'h, 'x, 'v, 'e) env \<Rightarrow> 'p update list \<Rightarrow> ('p, 'h, 'x) bot \<Rightarrow> 'e option \<times> ('p, 'h, 'x) bot" where
  "process_new_updates enabled env us b =
     (case sort_updates enabled env us b of
        (Inl e, b1) \<Rightarrow> (Some e, b1)
      | (Inr kept, b1) \<Rightarrow>
          (case (if parts_of NewMessage kept = [] then (None, b1)
                 else process_new_messages env (parts_of NewMessage kept) b1) of
             (Some e, b2) \<Rightarrow> (Some e, b2)
           | (None, b2) \<Rightarrow> run_each (process_kind env kept) process_order b2))"

section \<open>Polling\<close>

text \<open>\<open>get offset srv\<close> is the API call \<open>getUpdates\<close>: an error or a batch, and the server after
  it.\<close>

definition retrieve_updates ::
    "bool \<Rightarrow> ('p, 'h, 'x, 'v, 'e) env \<Rightarrow> (int \<Rightarrow> 's \<Rightarrow> ('e + 'p update list) \<times> 's) \<Rightarrow>
     ('p, 'h, 'x) bot \<times> 's \<Rightarrow> 'e option \<times> ('p, 'h, 'x) bot \<times> 's" where
  "retrieve_updates enabled env get = (\<lambda>(b, srv).
     (let (skipped, srv1) = (if skip_pending b then get (-1) srv else (Inr [], srv))
      in case skipped of
           Inl e \<Rightarrow> (Some e, b, srv1)
         | Inr _ \<Rightarrow>
             (let b1 = b\<lparr>skip_pending := False\<rparr>; (r, srv2) = get (last_update_id b1 + 1) srv1
              in case r of
                   Inl e \<Rightarrow> (Some e, b1, srv2)
                 | Inr us \<Rightarrow> (case process_new_updates enabled env us b1 of (e, b2) \<Rightarrow> (e, b2, srv2)))))"

text \<open>The pause after an \<open>ApiException\<close>, in quarters of a second: the two polling loops.\<close>

definition next_interval_threaded :: "nat \<Rightarrow> nat" where
  "next_interval_threaded q = (if q * 2 < 240 then q * 2 else 240)"

definition next_interval :: "nat \<Rightarrow> nat" where
  "next_interval q = q * 2"

text \<open>What a polling loop does with the outcome of one retrieval.\<close>

datatype 'e poll_step = GoOn nat | SleepThen nat nat | StopPolling | RaisePolling 'e

definition poll_outcome ::
    "('p, 'h, 'x, 'v, 'e) env \<Rightarrow> ('e \<Rightarrow> bool) \<Rightarrow> bool \<Rightarrow> (nat \<Rightarrow> nat) \<Rightarrow> nat \<Rightarrow> 'e option \<Rightarrow> 'e poll_step" where
  "poll_outcome env is_api_exception non_stop bump q r =
     (case r of
        None \<Rightarrow> GoOn 1
      | Some e \<Rightarrow>
          if is_api_exception e
          then (if handle_exception env e then SleepThen q q
                else if \<not> non_stop then StopPolling
                else SleepThen q (bump q))
          else (if handle_exception env e then SleepThen q q else RaisePolling e))"

end
