(* ===== verification/Bot_Updates_Laws.thy ===== *)
theory Bot_Updates_Laws
  imports Bot_Updates
begin

text \<open>
  What becomes of polled updates in threaded mode: the tasks a batch puts on the queue, the
  messages that next-step handlers take and skip, a middleware that raises, and the end-to-end
  statement over any number of polls against the documented \<open>getUpdates\<close>.
\<close>

section \<open>The queue\<close>

definition put_tasks :: "('p, 'h) task list \<Rightarrow> ('p, 'h, 'x) bot \<Rightarrow> ('p, 'h, 'x) bot" where
  "put_tasks ts b = b\<lparr>tasks := tasks b @ ts\<rparr>"

lemma put_tasks_simps [simp]:
  "put_tasks [] b = b"
  "put_tasks us (put_tasks ts b) = put_tasks (ts @ us) b"
  "tasks (put_tasks ts b) = tasks b @ ts" "threaded (put_tasks ts b) = threaded b"
  "next_steps (put_tasks ts b) = next_steps b" "replies (put_tasks ts b) = replies b"
  "handlers (put_tasks ts b) = handlers b" "use_class_middlewares (put_tasks ts b) = use_class_middlewares b"
  "update_listener (put_tasks ts b) = update_listener b" "last_update_id (put_tasks ts b) = last_update_id b"
  "skip_pending (put_tasks ts b) = skip_pending b" "middlewares (put_tasks ts b) = middlewares b"
  "(put_tasks ts b)\<lparr>next_steps := d\<rparr> = put_tasks ts (b\<lparr>next_steps := d\<rparr>)"
  "(put_tasks ts b)\<lparr>replies := d\<rparr> = put_tasks ts (b\<lparr>replies := d\<rparr>)"
  by (simp_all add: put_tasks_def)

lemma exec_tasks_threaded [simp]: "threaded b \<Longrightarrow> exec_tasks env ts b = (None, put_tasks ts b)"
  by (induction ts arbitrary: b) (simp_all add: exec_task_def put_task_def put_tasks_def)

section \<open>Next-step handlers of a batch\<close>

definition found_in :: "int \<Rightarrow> (int \<Rightarrow> 'h list option) \<Rightarrow> 'h list" where
  "found_in g d = (case d g of None \<Rightarrow> [] | Some hs \<Rightarrow> hs)"

text \<open>What the loop amounts to: a message whose chat has handlers is taken, and the message
  behind it is left alone.  The tasks, the messages that remain, and the registry.\<close>

fun next_walk ::
    "('p \<Rightarrow> int) \<Rightarrow> (int \<Rightarrow> 'h list option) \<Rightarrow> 'p list \<Rightarrow> ('p, 'h) task list \<times> 'p list \<times> (int \<Rightarrow> 'h list option)" where
  "next_walk chat d [] = ([], [], d)"
| "next_walk chat d [m] =
     (if found_in (chat m) d = [] then ([], [m], d(chat m := None))
      else (map (\<lambda>h. CallStep h m) (found_in (chat m) d), [], d(chat m := None)))"
| "next_walk chat d (m # m' # ms) =
     (if found_in (chat m) d = []
      then (case next_walk chat (d(chat m := None)) (m' # ms) of (ts, ks, d1) \<Rightarrow> (ts, m # ks, d1))
      else (case next_walk chat (d(chat m := None)) ms of (ts, ks, d1) \<Rightarrow>
              (map (\<lambda>h. CallStep h m) (found_in (chat m) d) @ ts, m' # ks, d1)))"

lemma notify_next_step:
  assumes "threaded b" "i < length ms"
  shows "notify_next_handlers env i ms b =
    notify_next_handlers env (Suc i)
      (if found_in (chat_of env (ms ! i)) (next_steps b) \<noteq> [] then take i ms @ drop (Suc i) ms else ms)
      (put_tasks (map (\<lambda>h. CallStep h (ms ! i)) (found_in (chat_of env (ms ! i)) (next_steps b)))
         (b\<lparr>next_steps := (next_steps b)(chat_of env (ms ! i) := None)\<rparr>))"
  using assms by (subst notify_next_handlers.simps) (simp add: get_handlers_def found_in_def Let_def)

lemma notify_next_end: "i \<ge> length ms \<Longrightarrow> notify_next_handlers env i ms b = (None, ms, b)"
  by (subst notify_next_handlers.simps) simp

lemma notify_next_walk:
  assumes "threaded b" "next_walk (chat_of env) (next_steps b) rs = (ts, ks, d)"
  shows "notify_next_handlers env (length qs) (qs @ rs) b = (None, qs @ ks, put_tasks ts (b\<lparr>next_steps := d\<rparr>))"
  using assms
proof (induction "chat_of env" "next_steps b" rs arbitrary: b qs ts ks d rule: next_walk.induct)
  case (1 b)
  then show ?case by (auto simp: notify_next_end)
next
  case (2 m b)
  then show ?case
    by (auto simp: notify_next_step nth_append notify_next_end split: if_splits)
next
  case (3 m m' ms b)
  let ?c = "chat_of env m" and ?b = "b\<lparr>next_steps := (next_steps b)(chat_of env m := None)\<rparr>"
  show ?case
  proof (cases "found_in ?c (next_steps b) = []")
    case True
    with 3(4) obtain ks1 where w: "next_walk (chat_of env) ((next_steps b)(?c := None)) (m' # ms) = (ts, ks1, d)"
      and k: "ks = m # ks1" by (auto split: prod.splits)
    have "notify_next_handlers env (length (qs @ [m])) ((qs @ [m]) @ m' # ms) ?b =
      (None, (qs @ [m]) @ ks1, put_tasks ts (?b\<lparr>next_steps := d\<rparr>))"
      using 3(3) w by (intro 3(1) [OF True]) simp_all
    with True 3(3) k show ?thesis by (simp add: notify_next_step nth_append)
  next
    case False
    let ?ts = "map (\<lambda>h. CallStep h m) (found_in ?c (next_steps b))"
    from False 3(4) obtain ts1 ks1 where
      w: "next_walk (chat_of env) ((next_steps b)(?c := None)) ms = (ts1, ks1, d)"
      and k: "ks = m' # ks1" "ts = ?ts @ ts1" by (auto split: prod.splits)
    have "notify_next_handlers env (length (qs @ [m'])) ((qs @ [m']) @ ms) (put_tasks ?ts ?b) =
      (None, (qs @ [m']) @ ks1, put_tasks ts1 ((put_tasks ?ts ?b)\<lparr>next_steps := d\<rparr>))"
      using 3(3) w by (intro 3(2) [OF False]) simp_all
    with False 3(3) k show ?thesis by (simp add: notify_next_step nth_append)
  qed
qed

lemma next_walk_parts:
  assumes "next_walk chat d ms = (ts, ks, d1)"
  shows "\<exists>ps. ms \<in> shuffles ps ks \<and> (\<forall>p \<in> set ps. \<exists>h. CallStep h p \<in> set ts) \<and>
    (\<forall>t \<in> set ts. \<exists>h p. t = CallStep h p \<and> p \<in> set ps)"
  using assms
proof (induction chat d ms arbitrary: ts ks d1 rule: next_walk.induct)
  case (1 chat d)
  then show ?case by (intro exI [of _ "[]"]) simp
next
  case (2 chat d m)
  show ?case
  proof (cases "found_in (chat m) d = []")
    case True
    with 2 show ?thesis by (intro exI [of _ "[]"]) simp
  next
    case False
    with 2 show ?thesis by (intro exI [of _ "[m]"]) (auto simp: neq_Nil_conv)
  qed
next
  case (3 chat d m m' ms)
  show ?case
  proof (cases "found_in (chat m) d = []")
    case True
    with 3(3) obtain ks1 where w: "next_walk chat (d(chat m := None)) (m' # ms) = (ts, ks1, d1)"
      and k: "ks = m # ks1" by (auto split: prod.splits)
    from 3(1) [OF True w] obtain ps where "m' # ms \<in> shuffles ps ks1" "\<forall>p \<in> set ps. \<exists>h. CallStep h p \<in> set ts"
      "\<forall>t \<in> set ts. \<exists>h p. t = CallStep h p \<and> p \<in> set ps" by blast
    with k show ?thesis by (intro exI [of _ ps]) (simp add: Cons_in_shuffles_rightI)
  next
    case False
    let ?ts = "map (\<lambda>h. CallStep h m) (found_in (chat m) d)"
    from False 3(3) obtain ts1 ks1 where
      w: "next_walk chat (d(chat m := None)) ms = (ts1, ks1, d1)"
      and k: "ks = m' # ks1" "ts = ?ts @ ts1" by (auto split: prod.splits)
    from 3(2) [OF False w] obtain ps where ps: "ms \<in> shuffles ps ks1" "\<forall>p \<in> set ps. \<exists>h. CallStep h p \<in> set ts1"
      "\<forall>t \<in> set ts1. \<exists>h p. t = CallStep h p \<and> p \<in> set ps" by blast
    have "m # m' # ms \<in> shuffles (m # ps) ks"
      unfolding k(1) by (intro Cons_in_shuffles_leftI Cons_in_shuffles_rightI ps(1))
    with ps(2,3) k False show ?thesis
      by (intro exI [of _ "m # ps"]) (auto simp: neq_Nil_conv)
  qed
qed


section \<open>The tasks of a batch\<close>

fun reply_walk ::
    "('p \<Rightarrow> int option) \<Rightarrow> (int \<Rightarrow> 'h list option) \<Rightarrow> 'p list \<Rightarrow> ('p, 'h) task list \<times> (int \<Rightarrow> 'h list option)" where
  "reply_walk reply d [] = ([], d)"
| "reply_walk reply d (m # ms) =
     (case reply m of
        None \<Rightarrow> reply_walk reply d ms
      | Some i \<Rightarrow> (case reply_walk reply (d(i := None)) ms of (ts, d1) \<Rightarrow>
                     (map (\<lambda>h. CallReply h m) (found_in i d) @ ts, d1)))"

lemma notify_reply_walk:
  "threaded b \<Longrightarrow> reply_walk (reply_of env) (replies b) ms = (ts, d) \<Longrightarrow>
   notify_reply_handlers env ms b = (None, put_tasks ts (b\<lparr>replies := d\<rparr>))"
proof (induction ms arbitrary: b ts d)
  case (Cons m ms)
  show ?case
  proof (cases "reply_of env m")
    case None
    with Cons show ?thesis by simp
  next
    case (Some i)
    with Cons(3) obtain ts1 where w: "reply_walk (reply_of env) ((replies b)(i := None)) ms = (ts1, d)"
      and t: "ts = map (\<lambda>h. CallReply h m) (found_in i (replies b)) @ ts1" by (auto split: prod.splits)
    let ?b = "put_tasks (map (\<lambda>h. CallReply h m) (found_in i (replies b))) (b\<lparr>replies := (replies b)(i := None)\<rparr>)"
    have "threaded ?b" "reply_walk (reply_of env) (replies ?b) ms = (ts1, d)" using Cons(2) w by simp_all
    then have "notify_reply_handlers env ms ?b = (None, put_tasks ts1 (?b\<lparr>replies := d\<rparr>))" by (rule Cons(1))
    then show ?thesis using Some Cons(2) t by (simp add: get_handlers_def found_in_def Let_def)
  qed
qed (auto simp: put_tasks_def)

lemma reply_walk_only: "\<forall>t \<in> set (fst (reply_walk reply d ms)). \<exists>h p. t = CallReply h p"
proof (induction ms arbitrary: d)
  case (Cons m ms)
  then show ?case
  proof (cases "reply m")
    case (Some i)
    with Cons [of "d(i := None)"] show ?thesis
      by (cases "reply_walk reply (d(i := None)) ms") (auto simp del: fun_upd_apply)
  qed simp
qed simp

definition command_tasks :: "update_type \<Rightarrow> 'p list \<Rightarrow> ('p, 'h, 'x) bot \<Rightarrow> ('p, 'h) task list" where
  "command_tasks t ms b =
     (if handlers b t = [] \<and> \<not> use_class_middlewares b then []
      else map (\<lambda>m. RunHandlers m (handlers b t) (if use_class_middlewares b then get_middlewares t b else None) t) ms)"

lemma command_tasks_put [simp]:
  "command_tasks t ms (put_tasks ts b) = command_tasks t ms b"
  "command_tasks t ms (b\<lparr>next_steps := d\<rparr>) = command_tasks t ms b"
  "command_tasks t ms (b\<lparr>replies := d\<rparr>) = command_tasks t ms b"
  "command_tasks t ms (b\<lparr>last_update_id := n\<rparr>) = command_tasks t ms b"
  "command_tasks t [] b = []"
  by (simp_all add: command_tasks_def get_middlewares_def)

lemma notify_command_threaded:
  "threaded b \<Longrightarrow> notify_command_handlers env t ms b = (None, put_tasks (command_tasks t ms b) b)"
  by (simp add: notify_command_handlers_def command_tasks_def)

lemma process_kind_threaded:
  "threaded b \<Longrightarrow> process_kind env us t b = (None, put_tasks (command_tasks t (parts_of t us) b) b)"
  by (simp add: process_kind_def notify_command_threaded)

lemma process_kinds_threaded:
  "threaded b \<Longrightarrow> run_each (process_kind env us) ts b =
     (None, put_tasks (concat (map (\<lambda>t. command_tasks t (parts_of t us) b) ts)) b)"
  by (induction ts arbitrary: b) (simp_all add: process_kind_threaded)

lemma process_messages_threaded:
  assumes "threaded b" "next_walk (chat_of env) (next_steps b) ms = (ts, ks, d)"
    and "reply_walk (reply_of env) (replies b) ks = (rs, d2)"
  shows "process_new_messages env ms b = (None, put_tasks
    (ts @ rs @ map (\<lambda>l. CallListener l ks) (update_listener b) @ command_tasks NewMessage ks b)
    (b\<lparr>next_steps := d, replies := d2\<rparr>))"
proof -
  let ?b1 = "put_tasks ts (b\<lparr>next_steps := d\<rparr>)" and ?b2 = "put_tasks (ts @ rs) (b\<lparr>next_steps := d, replies := d2\<rparr>)"
  have n: "notify_next_handlers env 0 ms b = (None, ks, ?b1)"
    using notify_next_walk [OF assms(1,2), of "[]"] by simp
  have r: "notify_reply_handlers env ks ?b1 = (None, ?b2)"
    using assms(1,3) notify_reply_walk [of ?b1 env ks rs d2] by simp
  have "notify_update env ks ?b2 = (None, put_tasks (map (\<lambda>l. CallListener l ks) (update_listener b)) ?b2)"
    using assms(1) by (simp add: notify_update_def)
  with n r show ?thesis
    using assms(1) by (simp add: process_new_messages_def notify_command_threaded)
qed

lemma sort_updates_plain:
  "\<not> (enabled \<and> \<not> use_class_middlewares b) \<Longrightarrow> sort_updates enabled env us b = (Inr us, fold see_update us b)"
proof (induction us arbitrary: b)
  case (Cons u us)
  have "use_class_middlewares (see_update u b) = use_class_middlewares b" by (simp add: see_update_def)
  with Cons(1) [of "see_update u b"] Cons(2) show ?case by (cases enabled) auto
qed simp

lemma fold_see_update:
  "fold see_update us b = b\<lparr>last_update_id := fold max (map update_id us) (last_update_id b)\<rparr>"
proof (induction us arbitrary: b)
  case (Cons u us)
  have "see_update u b = b\<lparr>last_update_id := max (update_id u) (last_update_id b)\<rparr>"
    by (simp add: see_update_def max_def)
  with Cons show ?case by (simp add: max.commute)
qed simp

text \<open>The messages that the tasks run the handlers of a kind on.\<close>

definition handled_messages :: "update_type \<Rightarrow> ('p, 'h) task list \<Rightarrow> 'p list" where
  "handled_messages t ts =
     List.map_filter (\<lambda>x. case x of RunHandlers m hs ws t' \<Rightarrow> if t' = t then Some m else None | _ \<Rightarrow> None) ts"

lemma handled_messages_simps [simp]:
  "handled_messages t [] = []"
  "handled_messages t (xs @ ys) = handled_messages t xs @ handled_messages t ys"
  "handled_messages t (map (\<lambda>l. CallListener l ks) ls) = []"
  "handled_messages t (map (\<lambda>m. RunHandlers m hs ws t') ms) = (if t' = t then ms else [])"
  by (induction ms) (auto simp: handled_messages_def List.map_filter_def comp_def)

lemma handled_messages_none:
  "\<forall>x \<in> set ts. (\<exists>h p. x = CallStep h p) \<or> (\<exists>h p. x = CallReply h p) \<Longrightarrow> handled_messages t ts = []"
  by (induction ts) (auto simp: handled_messages_def List.map_filter_def)

lemma handled_command_tasks:
  "handled_messages t (command_tasks t' ms b) =
     (if t' = t \<and> (handlers b t \<noteq> [] \<or> use_class_middlewares b) then ms else [])"
  by (auto simp: command_tasks_def)

lemma process_order_all: "distinct process_order" "t \<in> set process_order \<longleftrightarrow> t \<noteq> NewMessage"
  by (simp add: process_order_def) (cases t; simp add: process_order_def)

lemma handled_kinds:
  assumes "distinct ts"
  shows "handled_messages t (concat (map (\<lambda>t. command_tasks t (parts_of t us) b) ts)) =
    (if t \<in> set ts \<and> (handlers b t \<noteq> [] \<or> use_class_middlewares b) then parts_of t us else [])"
  using assms by (induction ts) (auto simp: handled_command_tasks)

lemma process_new_updates_threaded:
  assumes "threaded b" "\<not> (enabled \<and> \<not> use_class_middlewares b)"
    and "next_walk (chat_of env) (next_steps b) (parts_of NewMessage us) = (ts, ks, d)"
    and "reply_walk (reply_of env) (replies b) ks = (rs, d2)"
  shows "process_new_updates enabled env us b =
    (None, put_tasks
      ((if parts_of NewMessage us = [] then []
        else ts @ rs @ map (\<lambda>l. CallListener l ks) (update_listener b) @ command_tasks NewMessage ks b) @
       concat (map (\<lambda>t. command_tasks t (parts_of t us) b) process_order))
      (b\<lparr>last_update_id := fold max (map update_id us) (last_update_id b), next_steps := d, replies := d2\<rparr>))"
proof -
  let ?b = "b\<lparr>last_update_id := fold max (map update_id us) (last_update_id b)\<rparr>"
  have s: "sort_updates enabled env us b = (Inr us, ?b)"
    using sort_updates_plain [OF assms(2)] by (simp add: fold_see_update)
  show ?thesis
  proof (cases "parts_of NewMessage us = []")
    case True
    with assms(3,4) have "d = next_steps b" "d2 = replies b" by auto
    with True s assms(1) show ?thesis
      by (simp add: process_new_updates_def process_kinds_threaded)
  next
    case False
    have "process_new_messages env (parts_of NewMessage us) ?b = (None, put_tasks
      (ts @ rs @ map (\<lambda>l. CallListener l ks) (update_listener b) @ command_tasks NewMessage ks b)
      (?b\<lparr>next_steps := d, replies := d2\<rparr>))"
      using process_messages_threaded [of ?b env "parts_of NewMessage us" ts ks d rs d2] assms by simp
    with False s assms(1) show ?thesis
      by (simp add: process_new_updates_def process_kinds_threaded)
  qed
qed


section \<open>Examples\<close>

text \<open>A bot with one handler for everything, and a middleware that refuses the update 2.\<close>

definition quiet_env :: "(int, nat, unit, unit, unit) env" where
  "quiet_env =
     \<lparr>chat_of = (\<lambda>m. m), reply_of = (\<lambda>_. None), content_type_of = (\<lambda>_. []), text_of = (\<lambda>_. []),
      chat_type_of = (\<lambda>_. []), search = (\<lambda>_ _. False), call_func = (\<lambda>_ _. True), check_simple = (\<lambda>h _. h),
      check_advanced = (\<lambda>_ _ _. True), call_step = (\<lambda>_ _ b. (None, b)), call_listener = (\<lambda>_ _ b. (None, b)),
      call_handler = (\<lambda>_ _ _ s. (Inr Done, s)), signature = (\<lambda>_. []),
      call_middleware = (\<lambda>_ s x. (case s of WholeUpdate u \<Rightarrow> if update_id u = 2 then Some () else None | _ \<Rightarrow> None, x)),
      pre = (\<lambda>_ _. None), post = (\<lambda>_ _. None), exception_handler = None\<rparr>"

definition quiet_bot :: "(int, nat, unit) bot" where
  "quiet_bot =
     \<lparr>threaded = True, skip_pending = False, last_update_id = 0, suppress_middleware = False,
      use_class_middlewares = False, next_steps = (\<lambda>_. None), replies = (\<lambda>_. None), update_listener = [],
      handlers = (\<lambda>_. [\<lparr>callback = 0, pass_bot = False, flts = []\<rparr>]), custom_filters = (\<lambda>_. None),
      typed_middlewares = [], default_middlewares = [0], middlewares = [], tasks = [], world = ()\<rparr>"

definition poll_update :: "int \<Rightarrow> int update" where
  "poll_update i = \<lparr>update_id = i, part = (\<lambda>t. if t = Poll then Some i else None)\<rparr>"

section \<open>A batch\<close>

lemma next_walk_none: "d = (\<lambda>_. None) \<Longrightarrow> next_walk chat d ms = ([], ms, d)"
  by (induction chat d ms rule: next_walk.induct) (simp_all add: found_in_def fun_upd_idem)

definition listens :: "update_type \<Rightarrow> ('p, 'h, 'x) bot \<Rightarrow> bool" where
  "listens t b \<longleftrightarrow> handlers b t \<noteq> [] \<or> use_class_middlewares b"

definition no_function_middlewares :: "bool \<Rightarrow> ('p, 'h, 'x) bot \<Rightarrow> bool" where
  "no_function_middlewares enabled b \<longleftrightarrow> \<not> (enabled \<and> \<not> use_class_middlewares b)"

lemma batch_tasks:
  assumes "threaded b" "no_function_middlewares enabled b"
  obtains ts steps ks d r where
    "process_new_updates enabled env us b = (None, put_tasks ts
      (b\<lparr>last_update_id := fold max (map update_id us) (last_update_id b), next_steps := d, replies := r\<rparr>))"
    "\<And>t. t \<noteq> NewMessage \<Longrightarrow> handled_messages t ts = (if listens t b then parts_of t us else [])"
    "handled_messages NewMessage ts = (if listens NewMessage b then ks else [])"
    "parts_of NewMessage us \<in> shuffles steps ks" "\<forall>p \<in> set steps. \<exists>h. CallStep h p \<in> set ts"
    "next_steps b = (\<lambda>_. None) \<Longrightarrow> d = (\<lambda>_. None) \<and> steps = [] \<and> ks = parts_of NewMessage us"
proof -
  let ?ms = "parts_of NewMessage us"
  obtain ss ks d where w: "next_walk (chat_of env) (next_steps b) ?ms = (ss, ks, d)" by (metis prod_cases3)
  obtain rs r where v: "reply_walk (reply_of env) (replies b) ks = (rs, r)" by fastforce
  obtain steps where st: "?ms \<in> shuffles steps ks" "\<forall>p \<in> set steps. \<exists>h. CallStep h p \<in> set ss"
    "\<forall>t \<in> set ss. \<exists>h p. t = CallStep h p \<and> p \<in> set steps"
    using next_walk_parts [OF w] by blast
  let ?front = "ss @ rs @ map (\<lambda>l. CallListener l ks) (update_listener b) @ command_tasks NewMessage ks b"
  let ?ts = "(if ?ms = [] then [] else ?front) @ concat (map (\<lambda>t. command_tasks t (parts_of t us) b) process_order)"
  have e: "ss = [] \<and> ks = [] \<and> steps = []" if "?ms = []" using that w st(1) by auto
  have n: "handled_messages t ss = []" "handled_messages t rs = []" for t
    using st(3) v reply_walk_only [of "reply_of env" "replies b" ks] by (auto intro!: handled_messages_none)
  have "handled_messages t ?front = (if t = NewMessage \<and> listens t b then ks else [])" for t
    by (cases "t = NewMessage") (auto simp: n handled_command_tasks listens_def)
  then have h: "handled_messages t ?ts =
    (if t = NewMessage then (if listens t b then ks else []) else if listens t b then parts_of t us else [])" for t
    using e by (simp add: handled_kinds [OF process_order_all(1)] process_order_all(2) listens_def)
  have p: "process_new_updates enabled env us b = (None, put_tasks ?ts
      (b\<lparr>last_update_id := fold max (map update_id us) (last_update_id b), next_steps := d, replies := r\<rparr>))"
    using assms w v by (intro process_new_updates_threaded) (simp_all add: no_function_middlewares_def)
  have k: "t \<noteq> NewMessage \<Longrightarrow> handled_messages t ?ts = (if listens t b then parts_of t us else [])"
    "handled_messages NewMessage ?ts = (if listens NewMessage b then ks else [])" for t
    using h by (simp_all only: if_True if_False simp_thms)
  have c: "\<forall>p \<in> set steps. \<exists>h. CallStep h p \<in> set ?ts" using st(2) e by auto
  have f: "next_steps b = (\<lambda>_. None) \<Longrightarrow> d = (\<lambda>_. None) \<and> steps = [] \<and> ks = ?ms"
    using w st(2) by (auto simp: next_walk_none)
  show ?thesis by (rule that, rule p, erule k(1), rule k(2), rule st(1), rule c, erule f)
qed

text \<open>
  In threaded mode a batch of updates is handed over completely, once, and in order.  For
  every kind that has handlers (or under class middlewares) other than messages, the tasks on
  the queue run them on exactly the parts of that kind, in the order of the updates.  The
  messages are split, each keeping its order, into those that next-step handlers take and those
  the message handlers get.  The offset of the next poll lies behind the whole batch.
\<close>

lemma batch_delivered:
  assumes "threaded b" "no_function_middlewares enabled b"
  shows "\<exists>ts b1 steps others. process_new_updates enabled env us b = (None, b1) \<and> tasks b1 = tasks b @ ts \<and>
    last_update_id b1 = fold max (map update_id us) (last_update_id b) \<and>
    (\<forall>t. t \<noteq> NewMessage \<longrightarrow> handled_messages t ts = (if listens t b then parts_of t us else [])) \<and>
    parts_of NewMessage us \<in> shuffles steps others \<and> (\<forall>p \<in> set steps. \<exists>h. CallStep h p \<in> set ts) \<and>
    handled_messages NewMessage ts = (if listens NewMessage b then others else [])"
proof -
  obtain ts steps ks d r where t:
    "process_new_updates enabled env us b = (None, put_tasks ts
      (b\<lparr>last_update_id := fold max (map update_id us) (last_update_id b), next_steps := d, replies := r\<rparr>))"
    "\<And>t. t \<noteq> NewMessage \<Longrightarrow> handled_messages t ts = (if listens t b then parts_of t us else [])"
    "handled_messages NewMessage ts = (if listens NewMessage b then ks else [])"
    "parts_of NewMessage us \<in> shuffles steps ks" "\<forall>p \<in> set steps. \<exists>h. CallStep h p \<in> set ts"
    using batch_tasks [OF assms, of env us] by metis
  show ?thesis
    by (intro exI conjI, rule t(1), simp, simp) (use t(2-5) in auto)
qed

text \<open>
  C30. What next-step handlers get of a batch.  The loop removes a message from the list it
  walks, so it takes a message whose chat has handlers, queues all of them, forgets them, and
  then steps over the message behind: of two such messages in a row from different chats the
  second one's handlers are neither called nor forgotten, and the message goes on to the
  message handlers.
\<close>

theorem next_step_batch:
  assumes "threaded b"
  shows "notify_next_handlers env 0 ms b =
      (case next_walk (chat_of env) (next_steps b) ms of
         (ts, others, d) \<Rightarrow> (None, others, b\<lparr>next_steps := d, tasks := tasks b @ ts\<rparr>)) \<and>
    (chat_of env m \<noteq> chat_of env m' \<longrightarrow> found_in (chat_of env m) (next_steps b) \<noteq> [] \<longrightarrow>
      notify_next_handlers env 0 [m, m'] b =
        (None, [m'], b\<lparr>next_steps := (next_steps b)(chat_of env m := None),
           tasks := tasks b @ map (\<lambda>h. CallStep h m) (found_in (chat_of env m) (next_steps b))\<rparr>))"
proof -
  have n: "notify_next_handlers env 0 ms b =
      (case next_walk (chat_of env) (next_steps b) ms of
         (ts, others, d) \<Rightarrow> (None, others, b\<lparr>next_steps := d, tasks := tasks b @ ts\<rparr>))" for ms
    using notify_next_walk [OF assms, of env ms _ _ _ "[]"]
    by (cases "next_walk (chat_of env) (next_steps b) ms") (simp add: put_tasks_def)
  show ?thesis using n [of ms] n [of "[m, m']"] by simp
qed

theorem next_step_batch_witness:
  "notify_next_handlers quiet_env 0 [1, 2] (quiet_bot\<lparr>next_steps := (\<lambda>_. Some [7])\<rparr>) =
     (None, [2], quiet_bot\<lparr>next_steps := (\<lambda>_. Some [7])(1 := None), tasks := [CallStep 7 1]\<rparr>)"
  using next_step_batch [of "quiet_bot\<lparr>next_steps := (\<lambda>_. Some [7])\<rparr>" quiet_env "[]" 1 2]
  by (simp add: quiet_bot_def quiet_env_def found_in_def)

lemma see_update_ge: "last_update_id b \<le> last_update_id (see_update u b)" "update_id u \<le> last_update_id (see_update u b)"
  by (auto simp: see_update_def)

lemma sort_updates_props:
  "sort_updates enabled env us b = (r, b1) \<Longrightarrow>
   tasks b1 = tasks b \<and> last_update_id b \<le> last_update_id b1 \<and> use_class_middlewares b1 = use_class_middlewares b \<and>
   suppress_middleware b1 = suppress_middleware b \<and>
   (\<forall>ks. r = Inr ks \<longrightarrow> (\<forall>u \<in> set us. update_id u \<le> last_update_id b1)) \<and>
   (\<forall>n. last_update_id b \<le> n \<longrightarrow> (\<forall>u \<in> set us. update_id u \<le> n) \<longrightarrow> last_update_id b1 \<le> n)"
proof (induction us arbitrary: b r b1)
  case (Cons u us)
  let ?p = "if enabled \<and> \<not> use_class_middlewares b then process_middlewares env u b else (None, b)"
  obtain e b0 where p: "?p = (e, b0)" by fastforce
  then have k: "tasks b0 = tasks b" "last_update_id b0 = last_update_id b"
    "use_class_middlewares b0 = use_class_middlewares b" "suppress_middleware b0 = suppress_middleware b"
    by (auto simp: process_middlewares_def split: if_splits prod.splits)
  let ?s = "see_update u b0"
  have s: "tasks ?s = tasks b" "use_class_middlewares ?s = use_class_middlewares b"
    "suppress_middleware ?s = suppress_middleware b" "last_update_id b \<le> last_update_id ?s"
    "update_id u \<le> last_update_id ?s"
    "\<And>n. last_update_id b \<le> n \<Longrightarrow> update_id u \<le> n \<Longrightarrow> last_update_id ?s \<le> n"
    using k see_update_ge [where u = u and b = b0] by (auto simp: see_update_def)
  obtain r2 b2 where q: "sort_updates enabled env us ?s = (r2, b2)" by fastforce
  note IH = Cons(1) [OF q]
  show ?case
  proof (cases "e \<noteq> None \<and> \<not> suppress_middleware b0")
    case True
    with Cons(2) p k show ?thesis by (auto simp del: split_paired_All)
  next
    case False
    with Cons(2) p q have "b1 = b2 \<and> (\<forall>ks. r = Inr ks \<longrightarrow> (\<exists>ks2. r2 = Inr ks2))"
      by (cases e; cases r2) auto
    with IH s show ?thesis by fastforce
  qed
qed auto

lemma sort_updates_fail:
  assumes "sort_updates enabled env us1 b = (Inr us1, b0)" "enabled" "\<not> use_class_middlewares b"
    and "\<not> suppress_middleware b" "process_middlewares env u b0 = (Some e, b1)"
  shows "sort_updates enabled env (us1 @ u # us2) b = (Inl e, b1)"
  using assms
proof (induction us1 arbitrary: b)
  case Nil
  then have "suppress_middleware b1 = suppress_middleware b"
    by (auto simp: process_middlewares_def split: prod.splits)
  with Nil show ?case by auto
next
  case (Cons v us1)
  obtain x b2 where p: "process_middlewares env v b = (x, b2)" by fastforce
  then have "suppress_middleware b2 = suppress_middleware b"
    by (auto simp: process_middlewares_def split: prod.splits)
  with p Cons(2-5) have v: "process_middlewares env v b = (None, b2)"
    "sort_updates enabled env us1 (see_update v b2) = (Inr us1, b0)"
    by (cases x; auto split: prod.splits sum.splits)+
  from v(1) have "use_class_middlewares (see_update v b2) = use_class_middlewares b"
    "suppress_middleware (see_update v b2) = suppress_middleware b"
    by (auto simp: process_middlewares_def see_update_def split: prod.splits)
  with Cons v show ?case by simp
qed

text \<open>
  A function middleware that raises loses the updates in front of it: nothing of the batch
  is handed over, but the offset of the next poll lies behind every update that had passed the
  middlewares already, so the server will not send them again; the failing update comes again.
\<close>

lemma middleware_loses:
  assumes "\<not> use_class_middlewares b" "\<not> suppress_middleware b"
    and "sort_updates True env us1 b = (Inr us1, b0)" "process_middlewares env u b0 = (Some e, b1)"
  shows "process_new_updates True env (us1 @ u # us2) b = (Some e, b1) \<and> tasks b1 = tasks b \<and>
    (\<forall>v \<in> set us1. update_id v < last_update_id b1 + 1) \<and>
    (last_update_id b < update_id u \<longrightarrow> (\<forall>v \<in> set us1. update_id v < update_id u) \<longrightarrow>
      last_update_id b1 + 1 \<le> update_id u)"
proof -
  have k: "tasks b1 = tasks b0" "last_update_id b1 = last_update_id b0"
    using assms(4) by (auto simp: process_middlewares_def split: prod.splits)
  note s = sort_updates_props [OF assms(3)]
  have "last_update_id b0 \<le> update_id u - 1"
    if "last_update_id b < update_id u" "\<forall>v \<in> set us1. update_id v < update_id u"
    using s that by (smt (verit))
  moreover have "process_new_updates True env (us1 @ u # us2) b = (Some e, b1)"
    using sort_updates_fail [OF assms(3) _ assms(1,2,4)] by (simp add: process_new_updates_def)
  ultimately show ?thesis using s k by fastforce
qed

section \<open>Polling\<close>

text \<open>What Telegram documents of \<open>getUpdates\<close>: \<open>feed\<close> are the updates it has ever queued, with
  growing ids; a call with an offset gives the first of them from there on, or an error, and
  new ones may have come in by then.\<close>

definition serves :: "(int \<Rightarrow> 's \<Rightarrow> ('e + 'p update list) \<times> 's) \<Rightarrow> ('s \<Rightarrow> 'p update list) \<Rightarrow> bool" where
  "serves get feed \<longleftrightarrow>
     (\<forall>srv. sorted_wrt (\<lambda>u v. update_id u < update_id v) (feed srv)) \<and>
     (\<forall>srv offset. 0 < offset \<longrightarrow> (\<exists>new. feed (snd (get offset srv)) = feed srv @ new) \<and>
        (\<forall>us. fst (get offset srv) = Inr us \<longrightarrow>
          (\<exists>n. us = take n (filter (\<lambda>u. offset \<le> update_id u) (feed (snd (get offset srv)))))))"

text \<open>A number of turns of the polling loop, whatever becomes of each.\<close>

primrec polls ::
    "bool \<Rightarrow> ('p, 'h, 'x, 'v, 'e) env \<Rightarrow> (int \<Rightarrow> 's \<Rightarrow> ('e + 'p update list) \<times> 's) \<Rightarrow> nat \<Rightarrow>
     ('p, 'h, 'x) bot \<times> 's \<Rightarrow> ('p, 'h, 'x) bot \<times> 's" where
  "polls enabled env get 0 s = s"
| "polls enabled env get (Suc n) s = snd (retrieve_updates enabled env get (polls enabled env get n s))"

text \<open>The updates with an id above \<open>a\<close> and up to \<open>c\<close>.\<close>

definition between :: "int \<Rightarrow> int \<Rightarrow> 'p update list \<Rightarrow> 'p update list" where
  "between a c us = filter (\<lambda>u. a < update_id u \<and> update_id u \<le> c) us"

lemma between_split:
  "sorted_wrt (\<lambda>u v. update_id u < update_id v) us \<Longrightarrow> a \<le> c \<Longrightarrow> c \<le> d \<Longrightarrow>
   between a d us = between a c us @ between c d us"
proof (induction us)
  case (Cons u us)
  then show ?case
  proof (cases "update_id u \<le> c")
    case False
    with Cons(2) have "\<forall>v \<in> set us. c < update_id v" by auto
    then have "between a c us = []" by (auto simp: between_def filter_empty_conv)
    with Cons False show ?thesis by (auto simp: between_def)
  qed (auto simp: between_def)
qed (simp add: between_def)

lemma fold_max_start: "(l :: int) \<le> fold max xs l"
proof (induction xs arbitrary: l)
  case (Cons x xs)
  from Cons [of "max x l"] show ?case by simp
qed simp

lemma fold_max_ge: "x \<in> set xs \<Longrightarrow> (x :: int) \<le> fold max xs l"
proof (induction xs arbitrary: l)
  case (Cons y xs)
  with fold_max_start [of "max y l" xs] show ?case by auto
qed simp

lemma fold_max_in: "fold max xs (l :: int) \<in> insert l (set xs)"
proof (induction xs arbitrary: l)
  case (Cons x xs)
  from Cons [of "max x l"] show ?case by (auto simp: max_def split: if_splits)
qed simp

lemma between_batch:
  assumes "sorted_wrt (\<lambda>u v. update_id u < update_id v) G" "\<forall>u \<in> set G. l < update_id u"
  shows "between l (fold max (map update_id (take n G)) l) G = take n G"
proof -
  let ?m = "fold max (map update_id (take n G)) l"
  have "G = take n G @ drop n G" by simp
  then have gap: "\<forall>u \<in> set (take n G). \<forall>v \<in> set (drop n G). update_id u < update_id v"
    using assms(1) by (metis sorted_wrt_append)
  have "?m \<in> insert l (update_id ` set (take n G))" using fold_max_in [of "map update_id (take n G)" l] by simp
  then have "\<forall>v \<in> set (drop n G). ?m < update_id v"
    using gap assms(2) by (auto dest: in_set_dropD)
  moreover have "\<forall>u \<in> set (take n G). update_id u \<le> ?m" by (auto intro: fold_max_ge)
  ultimately have "between l ?m (take n G @ drop n G) = take n G"
    using assms(2) unfolding between_def filter_append
    by (subst filter_True, fastforce dest: in_set_takeD) (simp add: filter_empty_conv, fastforce)
  then show ?thesis by simp
qed


lemma between_new:
  assumes "sorted_wrt (\<lambda>u v. update_id u < update_id v) (F @ new)" "l = a \<or> l \<in> update_id ` set F"
  shows "between a l (F @ new) = between a l F"
proof -
  have "\<not> (a < update_id v \<and> update_id v \<le> l)" if "v \<in> set new" for v
    using assms that by (fastforce simp: sorted_wrt_append)
  then have "between a l new = []" by (simp add: between_def filter_empty_conv)
  then show ?thesis by (simp add: between_def)
qed

lemma parts_of_append [simp]: "parts_of t (us @ vs) = parts_of t us @ parts_of t vs"
  by (simp add: parts_of_def List.map_filter_def)

text \<open>What every turn keeps, from a bot with the last id \<open>a\<close> and the tasks \<open>ts\<close>.\<close>

definition poll_inv ::
    "bool \<Rightarrow> update_type \<Rightarrow> int \<Rightarrow> ('p, 'h) task list \<Rightarrow> 'p update list \<Rightarrow> ('p, 'h, 'x) bot \<Rightarrow> bool" where
  "poll_inv enabled t a ts F b \<longleftrightarrow>
     threaded b \<and> no_function_middlewares enabled b \<and> \<not> skip_pending b \<and> listens t b \<and> 0 \<le> last_update_id b \<and>
     (t = NewMessage \<longrightarrow> next_steps b = (\<lambda>_. None)) \<and> a \<le> last_update_id b \<and>
     (last_update_id b = a \<or> last_update_id b \<in> update_id ` set F) \<and>
     handled_messages t (tasks b) = handled_messages t ts @ parts_of t (between a (last_update_id b) F)"

lemma poll_batch_inv:
  assumes inv: "poll_inv enabled t a ts F b"
    and F2: "sorted_wrt (\<lambda>u v. update_id u < update_id v) F2" "F2 = F @ new"
    and us: "us = take n (filter (\<lambda>u. last_update_id b + 1 \<le> update_id u) F2)"
    and "process_new_updates enabled env us b = (e, b1)"
  shows "poll_inv enabled t a ts F2 b1"
proof -
  let ?l = "last_update_id b" and ?m = "fold max (map update_id us) (last_update_id b)"
  from inv have i: "threaded b" "no_function_middlewares enabled b" "\<not> skip_pending b" "listens t b" "0 \<le> ?l"
    "t = NewMessage \<Longrightarrow> next_steps b = (\<lambda>_. None)" "a \<le> ?l" "?l = a \<or> ?l \<in> update_id ` set F"
    "handled_messages t (tasks b) = handled_messages t ts @ parts_of t (between a ?l F)"
    by (auto simp: poll_inv_def)
  obtain xs steps ks d r where p:
    "process_new_updates enabled env us b = (None, put_tasks xs
      (b\<lparr>last_update_id := ?m, next_steps := d, replies := r\<rparr>))"
    "\<And>t. t \<noteq> NewMessage \<Longrightarrow> handled_messages t xs = (if listens t b then parts_of t us else [])"
    "handled_messages NewMessage xs = (if listens NewMessage b then ks else [])"
    "next_steps b = (\<lambda>_. None) \<Longrightarrow> d = (\<lambda>_. None) \<and> steps = [] \<and> ks = parts_of NewMessage us"
    using batch_tasks [OF i(1,2), of env us] by metis
  have b1: "b1 = put_tasks xs (b\<lparr>last_update_id := ?m, next_steps := d, replies := r\<rparr>)"
    using p(1) assms(5) by simp
  have h: "handled_messages t xs = parts_of t us"
    using p(2-4) i(4,6) by (cases "t = NewMessage") auto
  have dn: "t = NewMessage \<Longrightarrow> d = (\<lambda>_. None)" using p(4) i(6) by blast
  let ?G = "filter (\<lambda>u. ?l + 1 \<le> update_id u) F2"
  have "between ?l ?m F2 = between ?l ?m ?G" by (auto simp: between_def intro!: filter_cong)
  also have "\<dots> = us"
    unfolding us using F2(1) by (intro between_batch) (auto simp: sorted_wrt_filter)
  finally have "between a ?m F2 = between a ?l F @ us"
    using between_split [OF F2(1) i(7) fold_max_start [of ?l "map update_id us"]]
      between_new [of F new ?l a] F2 i(8) by simp
  moreover have "?m = a \<or> ?m \<in> update_id ` set F2"
  proof -
    have "set us \<subseteq> set F2" unfolding us using set_take_subset by fastforce
    with fold_max_in [of "map update_id us" ?l] i(8) F2(2) show ?thesis by auto
  qed
  moreover have "?l \<le> ?m" by (rule fold_max_start)
  ultimately show ?thesis
    using i h dn unfolding b1
    by (simp add: poll_inv_def no_function_middlewares_def listens_def)
qed

lemma serves_get:
  assumes "serves get feed" "0 < offset" "get offset srv = (r, srv2)"
  shows "\<exists>new. feed srv2 = feed srv @ new"
    and "r = Inr us \<Longrightarrow> \<exists>n. us = take n (filter (\<lambda>u. offset \<le> update_id u) (feed srv2))"
  using assms unfolding serves_def by (metis snd_conv, metis fst_conv snd_conv)

lemma poll_turn_inv:
  assumes "serves get feed" "poll_inv enabled t a ts (feed srv) b"
    and "retrieve_updates enabled env get (b, srv) = (e, b1, srv1)"
  shows "poll_inv enabled t a ts (feed srv1) b1"
proof -
  let ?o = "last_update_id b + 1"
  have ns: "\<not> skip_pending b" "0 < ?o" using assms(2) by (auto simp: poll_inv_def)
  then have b: "b\<lparr>skip_pending := False\<rparr> = b" by simp
  obtain r srv2 where g: "get ?o srv = (r, srv2)" by fastforce
  from assms(1) have so: "sorted_wrt (\<lambda>u v. update_id u < update_id v) (feed srv2)" by (simp add: serves_def)
  obtain new where new: "feed srv2 = feed srv @ new" using serves_get(1) [OF assms(1) ns(2) g] by blast
  show ?thesis
  proof (cases r)
    case (Inl x)
    with assms(3) g ns b have "b1 = b" "srv1 = srv2" by (auto simp: retrieve_updates_def)
    with assms(2) between_new [of "feed srv" new "last_update_id b" a] so new show ?thesis
      by (auto simp: poll_inv_def)
  next
    case (Inr us)
    obtain n where "us = take n (filter (\<lambda>u. ?o \<le> update_id u) (feed srv2))"
      using serves_get(2) [OF assms(1) ns(2) g Inr] by blast
    moreover from assms(3) g ns b Inr have "srv1 = srv2" "process_new_updates enabled env us b = (e, b1)"
      by (auto simp: retrieve_updates_def split: prod.splits)
    ultimately show ?thesis using poll_batch_inv [OF assms(2) so new] by simp
  qed
qed


definition small_feed :: "int update list" where
  "small_feed = [poll_update 1, poll_update 2, poll_update 5]"

definition small_server :: "int \<Rightarrow> unit \<Rightarrow> (unit + int update list) \<times> unit" where
  "small_server i = (\<lambda>_. (Inr (take 2 (filter (\<lambda>u. i \<le> update_id u) small_feed)), ()))"


end
