(* ===== verification/Callback_Data.thy ===== *)
theory Callback_Data
  imports Py_Str
begin

text \<open>
  \<open>pyTelegramBotAPI/telebot/callback_data.py\<close>: the factory that packs named values into the
  data of a button, the parser that gets them back, and the filter on them.
\<close>

section \<open>The factory\<close>

record callback_data =
  prefix :: pystr
  sep :: pystr
  part_names :: "pystr list"

text \<open>A Python value: \<open>None\<close>, a string, or anything else with its \<open>str\<close>.\<close>

datatype py_value = Nothing | Str pystr | Other pystr

fun text_of_value :: "py_value \<Rightarrow> pystr option" where
  "text_of_value Nothing = None"
| "text_of_value (Str s) = Some s"
| "text_of_value (Other s) = Some s"

definition CallbackData_init :: "pystr list \<Rightarrow> pystr \<Rightarrow> pystr \<Rightarrow> callback_data res" where
  "CallbackData_init parts pre sp =
     (if pre = [] then Inl ValueError
      else if py_in sp pre then Inl ValueError
      else Inr \<lparr>prefix = pre, sep = sp, part_names = parts\<rparr>)"

text \<open>The loop over the part names: the texts, and the arguments that are left.\<close>

fun take_values ::
    "pystr \<Rightarrow> pystr list \<Rightarrow> py_value list \<Rightarrow> (pystr \<times> py_value) list \<Rightarrow>
     (pystr list \<times> py_value list \<times> (pystr \<times> py_value) list) res" where
  "take_values sp [] args kwargs = Inr ([], args, kwargs)"
| "take_values sp (part # parts) args kwargs =
     (let kwargs1 = filter (\<lambda>(k, v). k \<noteq> part) kwargs;
          value = (case map_of kwargs part of None \<Rightarrow> Nothing | Some v \<Rightarrow> v)
      in bindR (if value \<noteq> Nothing then Inr (value, args)
                else case args of [] \<Rightarrow> Inl ValueError | a # as \<Rightarrow> Inr (a, as)) (\<lambda>(value, args1).
         case text_of_value value of
           None \<Rightarrow> Inl TypeError
         | Some s \<Rightarrow>
             if py_in sp s then Inl ValueError
             else bindR (take_values sp parts args1 kwargs1) (\<lambda>(ss, left). Inr (s # ss, left))))"

definition CallbackData_new :: "callback_data \<Rightarrow> py_value list \<Rightarrow> (pystr \<times> py_value) list \<Rightarrow> pystr res" where
  "CallbackData_new f args kwargs =
     bindR (take_values (sep f) (part_names f) args kwargs) (\<lambda>(ss, args1, kwargs1).
       if args1 \<noteq> [] \<or> kwargs1 \<noteq> [] then Inl TypeError
       else let d = py_join (sep f) (prefix f # ss)
            in bindR (utf8_encode d) (\<lambda>bs. if length bs > 64 then Inl ValueError else Inr d))"

definition AT :: pystr where "AT = [64]"

definition CallbackData_parse :: "callback_data \<Rightarrow> pystr \<Rightarrow> (pystr \<Rightarrow> pystr option) res" where
  "CallbackData_parse f d =
     (let ps = py_split (sep f) d
      in if hd ps \<noteq> prefix f then Inl ValueError
         else if length (tl ps) \<noteq> length (part_names f) then Inl ValueError
         else Inr ((\<lambda>_. None)(AT \<mapsto> hd ps) ++ map_of (rev (zip (part_names f) (tl ps)))))"

section \<open>The filter\<close>

text \<open>A configured value is one string or a collection of them.\<close>

datatype wanted = One pystr | AnyOf "pystr list"

record callback_filter =
  factory :: callback_data
  config :: "(pystr \<times> wanted) list"

definition CallbackData_filter :: "callback_data \<Rightarrow> (pystr \<times> wanted) list \<Rightarrow> callback_filter res" where
  "CallbackData_filter f cfg =
     (if list_all (\<lambda>(k, v). k \<in> set (part_names f)) cfg then Inr \<lparr>factory = f, config = cfg\<rparr> else Inl ValueError)"

fun wanted_match :: "wanted \<Rightarrow> pystr option \<Rightarrow> bool" where
  "wanted_match (One s) x \<longleftrightarrow> x = Some s"
| "wanted_match (AnyOf ss) x \<longleftrightarrow> (case x of None \<Rightarrow> False | Some s \<Rightarrow> s \<in> set ss)"

definition filter_check :: "callback_filter \<Rightarrow> pystr \<Rightarrow> bool" where
  "filter_check flt d =
     (case CallbackData_parse (factory flt) d of
        Inl _ \<Rightarrow> False
      | Inr m \<Rightarrow> list_all (\<lambda>(k, v). wanted_match v (m k)) (config flt))"

section \<open>What is packed\<close>

definition chosen :: "pystr \<Rightarrow> (pystr \<times> py_value) list \<Rightarrow> py_value" where
  "chosen part kwargs = (case map_of kwargs part of None \<Rightarrow> Nothing | Some v \<Rightarrow> v)"

lemma take_valuesE:
  assumes "take_values sp (part # parts) args kwargs = Inr (ss, left)"
  obtains a args1 s ss1 where
    "(if chosen part kwargs \<noteq> Nothing then Inr (chosen part kwargs, args)
      else case args of [] \<Rightarrow> Inl ValueError | a # as \<Rightarrow> Inr (a, as)) = Inr (a, args1)"
    "text_of_value a = Some s" "\<not> py_in sp s"
    "take_values sp parts args1 (filter (\<lambda>(k, v). k \<noteq> part) kwargs) = Inr (ss1, left)" "ss = s # ss1"
  using assms unfolding take_values.simps(2) chosen_def [symmetric]
  by (auto simp: res_simps Let_def split: option.splits if_splits prod.splits)

lemma take_values_props:
  "take_values sp parts args kwargs = Inr (ss, left) \<Longrightarrow>
   length ss = length parts \<and> (\<forall>s \<in> set ss. \<not> py_in sp s)"
proof (induction parts arbitrary: args kwargs ss left)
  case (Cons part parts)
  from Cons(2) show ?case by (elim take_valuesE) (use Cons(1) in fastforce)
qed simp

lemma take_values_keyword:
  assumes "take_values sp parts args kwargs = Inr (ss, left)" "map_of kwargs k = Some v" "v \<noteq> Nothing"
    and "distinct parts" "k \<in> set parts"
  shows "map_of (zip parts ss) k = text_of_value v"
  using assms
proof (induction parts arbitrary: args kwargs ss left)
  case (Cons part parts)
  let ?kw = "filter (\<lambda>(k, v). k \<noteq> part) kwargs"
  from Cons(2) obtain a args1 s ss1 where t:
    "(if chosen part kwargs \<noteq> Nothing then Inr (chosen part kwargs, args)
      else case args of [] \<Rightarrow> Inl ValueError | a # as \<Rightarrow> Inr (a, as)) = Inr (a, args1)"
    "text_of_value a = Some s" "take_values sp parts args1 ?kw = Inr (ss1, left)" "ss = s # ss1"
    by (rule take_valuesE) blast
  show ?case
  proof (cases "k = part")
    case True
    with Cons(3,4) have "chosen part kwargs = v" by (simp add: chosen_def)
    with t(1,2,4) True Cons(4) show ?thesis by simp
  next
    case False
    have "map_of ?kw k = Some v"
      using Cons(3) False by (induction kwargs) (auto split: if_splits)
    with Cons(1) [OF t(3)] Cons(4-6) False t(4) show ?thesis by auto
  qed
qed simp

lemma take_values_positional:
  assumes "take_values sp parts args [] = Inr (ss, args1, kwargs1)"
  shows "map Some ss = map text_of_value (take (length parts) args) \<and> args1 = drop (length parts) args \<and>
    length parts \<le> length args"
  using assms
proof (induction parts arbitrary: args ss)
  case (Cons part parts)
  from Cons(2) obtain a args2 s ss1 where "args = a # args2" "text_of_value a = Some s"
    "take_values sp parts args2 [] = Inr (ss1, args1, kwargs1)" "ss = s # ss1"
    by (elim take_valuesE) (auto simp: chosen_def split: list.splits)
  with Cons(1) show ?case by simp
qed simp

lemma map_zip_back: "length ss = length ks \<Longrightarrow> distinct ks \<Longrightarrow> map (map_of (zip ks ss)) ks = map Some ss"
  by (rule nth_equalityI) (simp_all add: map_of_zip_nth)

lemma map_of_rev_distinct: "distinct (map fst kvs) \<Longrightarrow> map_of (rev kvs) = map_of kvs"
  by (rule map_of_eqI) (auto simp: rev_map [symmetric] map_of_eq_Some_iff)


section \<open>Properties\<close>

lemma parse_joined:
  assumes "c \<notin> set (prefix f)" "\<forall>s \<in> set ss. c \<notin> set s" "length ss = length (part_names f)" "sep f = [c]"
    and "distinct (part_names f)"
  shows "CallbackData_parse f (py_join [c] (prefix f # ss)) =
    Inr ((\<lambda>_. None)(AT \<mapsto> prefix f) ++ map_of (zip (part_names f) ss))"
proof -
  have "py_split [c] (py_join [c] (prefix f # ss)) = prefix f # ss"
    using assms(1,2) by (intro py_split_join) auto
  moreover have "map_of (rev (zip (part_names f) ss)) = map_of (zip (part_names f) ss)"
    using assms(3,5) by (intro map_of_rev_distinct) simp
  ultimately show ?thesis using assms(3,4) by (simp add: CallbackData_parse_def)
qed

text \<open>
  C33. Button data comes back as it was given.  With a separator of one character and distinct
  part names, whatever \<open>new\<close> returns has at most 64 bytes, and \<open>parse\<close> gives the prefix under
  \<open>@\<close> and, for every part name, the text of the value passed for it, by keyword or by position.
  With a longer separator it need not: a value that ends in a part of the separator moves it.
\<close>

theorem callback_data_round_trip:
  assumes "CallbackData_init parts pre [c] = Inr f" "distinct parts" "AT \<notin> set parts"
    and "CallbackData_new f args kwargs = Inr d"
  shows "(\<exists>m bs. CallbackData_parse f d = Inr m \<and> utf8_encode d = Inr bs \<and> length bs \<le> 64 \<and> m AT = Some pre \<and>
      (\<forall>k. m k = None \<longleftrightarrow> k \<noteq> AT \<and> k \<notin> set parts) \<and>
      (\<forall>k v. map_of kwargs k = Some v \<longrightarrow> v \<noteq> Nothing \<longrightarrow> k \<in> set parts \<longrightarrow> m k = text_of_value v) \<and>
      (kwargs = [] \<longrightarrow> map m parts = map text_of_value args)) \<and>
    bindR (CallbackData_init [[120], [121]] [112] [58, 58]) (\<lambda>g.
      bindR (CallbackData_new g [Str [97, 58], Str [98]] []) (\<lambda>d.
      bindR (CallbackData_parse g d) (\<lambda>m. Inr (m [120])))) = Inr (Some [97])"
proof (intro conjI)
  from assms(1) have f: "f = \<lparr>prefix = pre, sep = [c], part_names = parts\<rparr>" "c \<notin> set pre"
    by (auto simp: CallbackData_init_def str_simps split: if_splits)
  from assms(4) obtain ss args1 kwargs1 bs where n: "take_values [c] parts args kwargs = Inr (ss, args1, kwargs1)"
    "args1 = []" "d = py_join [c] (pre # ss)" "utf8_encode d = Inr bs" "length bs \<le> 64"
    by (auto simp: CallbackData_new_def f res_simps Let_def split: if_splits prod.splits)
  note p = take_values_props [OF n(1)]
  let ?m = "(\<lambda>_. None)(AT \<mapsto> pre) ++ map_of (zip parts ss)"
  have m: "CallbackData_parse f d = Inr ?m"
    using parse_joined [of c f ss] p f assms(2) n(3) by (simp add: str_simps)
  have z: "map_of (zip parts ss) k = None \<longleftrightarrow> k \<notin> set parts" for k
    using p by (simp add: map_of_zip_is_None)
  have "map ?m parts = map Some ss"
    unfolding map_zip_back [OF conjunct1 [OF p] assms(2), symmetric] using z
    by (intro map_cong refl) (auto simp: map_add_def split: option.splits)
  then have "map ?m parts = map text_of_value args" if "kwargs = []"
    using take_values_positional [of "[c]" parts args ss args1 kwargs1] n(1,2) that by simp
  moreover have "?m AT = Some pre" "?m k = None \<longleftrightarrow> k \<noteq> AT \<and> k \<notin> set parts" for k
    using z [of AT] z [of k] assms(3) by (auto simp: map_add_def split: option.splits)
  moreover have "?m k = text_of_value v" if "map_of kwargs k = Some v" "v \<noteq> Nothing" "k \<in> set parts" for k v
    using take_values_keyword [OF n(1) that(1,2) assms(2) that(3)] z [of k] that(3)
    by (auto simp: map_add_def split: option.splits)
  ultimately
  show "\<exists>m bs. CallbackData_parse f d = Inr m \<and> utf8_encode d = Inr bs \<and> length bs \<le> 64 \<and> m AT = Some pre \<and>
      (\<forall>k. m k = None \<longleftrightarrow> k \<noteq> AT \<and> k \<notin> set parts) \<and>
      (\<forall>k v. map_of kwargs k = Some v \<longrightarrow> v \<noteq> Nothing \<longrightarrow> k \<in> set parts \<longrightarrow> m k = text_of_value v) \<and>
      (kwargs = [] \<longrightarrow> map m parts = map text_of_value args)"
    using m n(4,5) by (intro exI [of _ ?m] exI [of _ bs]) blast
qed (simp add: CallbackData_init_def CallbackData_new_def CallbackData_parse_def py_in_def py_split.simps
    utf8_encode_def is_scalar_def utf8_char_def AT_def)

theorem callback_data_round_trip_witness:
  "\<exists>f m bs. CallbackData_init [[120], [121]] [112] [58] = Inr f \<and> CallbackData_parse f [112, 58, 97, 58, 98] = Inr m \<and>
     utf8_encode [112, 58, 97, 58, 98] = Inr bs \<and> length bs \<le> 64 \<and> m [120] = Some [97]"
proof -
  let ?f = "\<lparr>prefix = [112], sep = [58], part_names = [[120], [121]]\<rparr>" and ?kw = "[([121], Other [98]), ([120], Str [97])]"
  have i: "CallbackData_init [[120], [121]] [112] [58] = Inr ?f" by (simp add: CallbackData_init_def py_in_def)
  have n: "CallbackData_new ?f [] ?kw = Inr [112, 58, 97, 58, 98]"
    by (simp add: CallbackData_new_def py_in_def utf8_encode_def is_scalar_def utf8_char_def)
  have d: "distinct [[120], [121 :: nat]]" "AT \<notin> set [[120], [121]]" by (simp_all add: AT_def)
  obtain m bs where m: "CallbackData_parse ?f [112, 58, 97, 58, 98] = Inr m" "utf8_encode [112, 58, 97, 58, 98] = Inr bs"
    "length bs \<le> 64"
    "\<forall>k v. map_of ?kw k = Some v \<longrightarrow> v \<noteq> Nothing \<longrightarrow> k \<in> set [[120], [121]] \<longrightarrow> m k = text_of_value v"
    using callback_data_round_trip [OF i d n] by blast
  from m(4) [rule_format, of "[120]" "Str [97]"] have "m [120] = Some [97]" by simp
  with i m(1-3) show ?thesis by blast
qed

end
