(* ===== verification/Bot_Text.thy ===== *)
theory Bot_Text
  imports Py_Str
begin

text \<open>
  The text helpers of pyTelegramBotAPI (\<open>telebot/util.py\<close>): splitting long messages, the text of
  an entity, escaping, the check of a token, and the retry loop around a request.
\<close>

section \<open>Splitting\<close>

text \<open>\<open>text[:n]\<close> for any integer.\<close>

definition slice_to :: "int \<Rightarrow> 'a list \<Rightarrow> 'a list" where
  "slice_to n s = (if n \<ge> 0 then take (nat n) s else take (length s - nat (- n)) s)"

text \<open>\<open>range(0, len(text), n)\<close> raises for 0 and is empty for a negative step.\<close>

function range_from :: "nat \<Rightarrow> nat \<Rightarrow> nat \<Rightarrow> nat list" where
  "range_from i stop step = (if i < stop \<and> 0 < step then i # range_from (i + step) stop step else [])"
  by pat_completeness auto
termination
  by (relation "measure (\<lambda>(i, stop, step). stop - i)") auto

declare range_from.simps [simp del]

definition split_string :: "pystr \<Rightarrow> int \<Rightarrow> pystr list res" where
  "split_string s n =
     (if n = 0 then Inl ValueError
      else if n < 0 then Inr []
      else Inr (map (\<lambda>i. take (nat n) (drop i s)) (range_from 0 (length s) (nat n))))"

definition MAX_MESSAGE_LENGTH :: int where "MAX_MESSAGE_LENGTH = 4096"

definition NEWLINE :: pystr where "NEWLINE = [10]"
definition FULL_STOP :: pystr where "FULL_STOP = [46, 32]"
definition SPACE :: pystr where "SPACE = [32]"

definition text_before_last :: "pystr \<Rightarrow> pystr \<Rightarrow> pystr" where
  "text_before_last substr p = py_join substr (butlast (py_split substr p)) @ substr"

definition cut_part :: "pystr \<Rightarrow> pystr" where
  "cut_part p =
     (if py_in NEWLINE p then text_before_last NEWLINE p
      else if py_in FULL_STOP p then text_before_last FULL_STOP p
      else if py_in SPACE p then text_before_last SPACE p
      else p)"

text \<open>The loop; \<open>None\<close> when it never returns.\<close>

partial_function (option) smart_loop :: "int \<Rightarrow> pystr \<Rightarrow> pystr list option" where
  "smart_loop n s =
     (if int (length s) < n then Some [s]
      else let p = cut_part (slice_to n s)
           in Option.bind (smart_loop n (drop (length p) s)) (\<lambda>ps. Some (p # ps)))"

definition smart_split :: "pystr \<Rightarrow> int \<Rightarrow> pystr list option" where
  "smart_split s n = smart_loop (if n > MAX_MESSAGE_LENGTH then MAX_MESSAGE_LENGTH else n) s"

section \<open>Entities\<close>

record entity =
  offset :: int
  entity_length :: int

text \<open>The loop over the encoded text: where the entity begins and ends, \<open>i\<close> the index of the
  next byte, \<open>off\<close> its offset in UTF-16 units.\<close>

fun entity_loop :: "entity \<Rightarrow> nat list \<Rightarrow> nat \<Rightarrow> int \<Rightarrow> nat \<Rightarrow> nat \<Rightarrow> nat \<times> nat" where
  "entity_loop e [] i off start stop = (start, stop)"
| "entity_loop e (b # bs) i off start stop =
     (if b AND 0xC0 \<noteq> 0x80
      then (let off1 = off + (if b \<ge> 0xF0 then 2 else 1)
            in if off = offset e then entity_loop e bs (i + 1) off1 i stop
               else if off - offset e = entity_length e then (start, i)
               else entity_loop e bs (i + 1) off1 start stop)
      else entity_loop e bs (i + 1) off start stop)"

text \<open>Strict decoding: the bytes of a text, or an error.\<close>

definition utf8_decode :: "bytes \<Rightarrow> pystr res" where
  "utf8_decode bs =
     (let s = utf8_decode_replace bs in if utf8_encode s = Inr bs then Inr s else Inl UnicodeError)"

definition extract_entity :: "pystr \<Rightarrow> entity \<Rightarrow> pystr res" where
  "extract_entity t e =
     bindR (utf8_encode t) (\<lambda>bs.
       let (start, stop) = entity_loop e (map unat bs) 0 0 0 (length bs)
       in utf8_decode (drop start (take stop bs)))"

section \<open>Escaping, tokens, retries\<close>

definition AMP :: pystr where "AMP = [38, 97, 109, 112, 59]"
definition LT :: pystr where "LT = [38, 108, 116, 59]"
definition GT :: pystr where "GT = [38, 103, 116, 59]"

definition escape :: "pystr option \<Rightarrow> pystr option" where
  "escape t = map_option (\<lambda>s. py_replace [62] GT (py_replace [60] LT (py_replace [38] AMP s))) t"

definition validate_token :: "pystr \<Rightarrow> unit res" where
  "validate_token t =
     (if list_ex is_space t then Inl ValueError
      else if \<not> py_in [58] t then Inl ValueError
      else if length (py_split [58] t) \<noteq> 2 then Inl ValueError
      else Inr ())"

text \<open>How one call of the function ends, \<open>TooMany\<close> for the code 429 with its \<open>retry_after\<close>; the
  result has the pauses that were made.\<close>

datatype ('r, 'e) call_end = Returned 'r | TooMany nat 'e | Failed 'e

fun final_end :: "('r, 'e) call_end \<Rightarrow> 'e + 'r" where
  "final_end (Returned r) = Inr r"
| "final_end (TooMany n e) = Inl e"
| "final_end (Failed e) = Inl e"

fun antiflood_loop :: "('s \<Rightarrow> ('r, 'e) call_end \<times> 's) \<Rightarrow> nat \<Rightarrow> 's \<Rightarrow> ('e + 'r) \<times> nat list \<times> 's" where
  "antiflood_loop f 0 s = (case f s of (x, s1) \<Rightarrow> (final_end x, [], s1))"
| "antiflood_loop f (Suc k) s =
     (case f s of
        (TooMany n e, s1) \<Rightarrow> (case antiflood_loop f k s1 of (x, ns, s2) \<Rightarrow> (x, n # ns, s2))
      | (x, s1) \<Rightarrow> (final_end x, [], s1))"

definition antiflood :: "('s \<Rightarrow> ('r, 'e) call_end \<times> 's) \<Rightarrow> int \<Rightarrow> 's \<Rightarrow> ('e + 'r) \<times> nat list \<times> 's" where
  "antiflood f number_retries s = antiflood_loop f (nat (number_retries - 1)) s"

section \<open>Splitting is lossless\<close>

lemma text_before_last_prefix:
  assumes "py_in sub p" "sub \<noteq> []"
  shows "\<exists>r. p = text_before_last sub p @ r" "text_before_last sub p \<noteq> []"
proof -
  obtain i where "py_find sub p = Some i" using assms(1) by (auto simp: py_in_def)
  then have "butlast (py_split sub p) \<noteq> []" using assms(2) by (subst py_split.simps) simp
  then have "py_join sub (butlast (py_split sub p) @ [last (py_split sub p)]) =
    text_before_last sub p @ last (py_split sub p)"
    unfolding text_before_last_def append_assoc by (rule py_join_snoc)
  then show "\<exists>r. p = text_before_last sub p @ r" using py_join_split [of sub p] by auto
  show "text_before_last sub p \<noteq> []" using assms(2) by (simp add: text_before_last_def)
qed


lemma cut_part_prefix:
  assumes "p \<noteq> []"
  shows "\<exists>r. p = cut_part p @ r" "cut_part p \<noteq> []"
  using assms text_before_last_prefix [of NEWLINE p] text_before_last_prefix [of FULL_STOP p]
    text_before_last_prefix [of SPACE p]
  by (auto simp: cut_part_def NEWLINE_def FULL_STOP_def SPACE_def)

lemma smart_loop_total:
  assumes "0 < n"
  shows "\<exists>ps. smart_loop n s = Some ps \<and> concat ps = s \<and> ps \<noteq> [] \<and> (\<forall>p \<in> set ps. int (length p) \<le> n) \<and>
    int (length (last ps)) < n \<and> (\<forall>p \<in> set (butlast ps). p \<noteq> [])"
proof (induction "length s" arbitrary: s rule: less_induct)
  case less
  show ?case
  proof (cases "int (length s) < n")
    case True
    then show ?thesis by (subst smart_loop.simps) simp
  next
    case False
    let ?t = "slice_to n s" and ?p = "cut_part (slice_to n s)"
    have t: "?t \<noteq> []" "int (length ?t) \<le> n" "?t = take (nat n) s" using False assms by (auto simp: slice_to_def)
    obtain r where r: "?t = ?p @ r" "?p \<noteq> []" using cut_part_prefix [OF t(1)] by auto
    have s: "s = ?p @ r @ drop (nat n) s" using r(1) t(3) by (metis append.assoc append_take_drop_id)
    then have d: "drop (length ?p) s = r @ drop (nat n) s" by (metis append_eq_conv_conj)
    have "0 < length ?p" "0 < length s" using r(2) t(1,3) by auto
    then have "length (drop (length ?p) s) < length s" unfolding length_drop by linarith
    from less [OF this] obtain ps where ps: "smart_loop n (drop (length ?p) s) = Some ps"
      "concat ps = drop (length ?p) s" "ps \<noteq> []" "\<forall>p \<in> set ps. int (length p) \<le> n" "int (length (last ps)) < n"
      "\<forall>p \<in> set (butlast ps). p \<noteq> []" by auto
    have "smart_loop n s = Some (?p # ps)" using False ps(1) by (subst smart_loop.simps) (simp add: Let_def)
    moreover have "int (length ?p) \<le> n" using r(1) t(2) by (metis length_append nat_le_iff add_leD1 of_nat_le_iff order_trans le_add1)
    ultimately show ?thesis using ps r(2) s d by (intro exI [of _ "?p # ps"]) auto
  qed
qed

lemma smart_loop_stuck:
  assumes "smart_loop n s = Some ps"
  shows "0 < n"
proof (rule smart_loop.raw_induct [where P = "\<lambda>n _ _. 0 < n", OF _ assms])
  fix f n s ps
  assume "\<And>n s ps. f n s = Some ps \<Longrightarrow> 0 < n"
    and "(if int (length s) < n then Some [s]
      else let p = cut_part (slice_to n s) in Option.bind (f n (drop (length p) s)) (\<lambda>ps. Some (p # ps))) = Some ps"
  then show "0 < n" by (auto split: if_splits simp: Let_def bind_eq_Some_conv)
qed


lemma smart_split_stuck: "n \<le> 0 \<Longrightarrow> smart_split s n = None"
  using smart_loop_stuck by (cases "smart_split s n") (fastforce simp: smart_split_def MAX_MESSAGE_LENGTH_def)+

text \<open>
  C34. A long message is cut without loss.  For every positive limit the loop ends, and the
  parts, put together, are the text; no part is longer than the limit or than 4096, and all but
  the last are not empty.  The last one is empty when a text of exactly the limit has nowhere to
  be cut, and for a limit of 0 or less the loop never ends.
\<close>

theorem smart_split_lossless:
  "(0 < n \<longrightarrow> (\<exists>ps. smart_split s n = Some ps \<and> concat ps = s \<and> (\<forall>p \<in> set ps. int (length p) \<le> min n 4096) \<and>
      (\<forall>p \<in> set (butlast ps). p \<noteq> []))) \<and>
   (n \<le> 0 \<longrightarrow> smart_split s n = None) \<and>
   (int (length s) = n \<and> 0 < n \<and> n \<le> 4096 \<and> cut_part s = s \<longrightarrow> smart_split s n = Some [s, []])"
proof -
  have exact: "smart_split s n = Some [s, []]" if "int (length s) = n \<and> 0 < n \<and> n \<le> 4096 \<and> cut_part s = s"
  proof -
    have "smart_loop n [] = Some [[]]" using that by (subst smart_loop.simps) simp
    moreover have "slice_to n s = s" using that by (auto simp: slice_to_def)
    ultimately have "smart_loop n s = Some [s, []]" using that by (subst smart_loop.simps) simp
    then show ?thesis using that by (simp add: smart_split_def MAX_MESSAGE_LENGTH_def)
  qed
  have total: "\<exists>ps. smart_split s n = Some ps \<and> concat ps = s \<and> (\<forall>p \<in> set ps. int (length p) \<le> min n 4096) \<and>
      (\<forall>p \<in> set (butlast ps). p \<noteq> [])" if "0 < n"
  proof -
    have m: "0 < min n 4096" and e: "smart_split s n = smart_loop (min n 4096) s"
      using that by (simp, cases "n > 4096") (simp_all add: smart_split_def MAX_MESSAGE_LENGTH_def)
    show ?thesis unfolding e using smart_loop_total [OF m, of s] by blast
  qed
  show ?thesis by (intro conjI impI; (erule total | erule smart_split_stuck | rule exact, blast))
qed

theorem smart_split_lossless_witness:
  "smart_split [97, 98, 99] 3 = Some [[97, 98, 99], []]"
  using smart_split_lossless [of 3 "[97, 98, 99]"]
  by (simp add: cut_part_def py_in_def NEWLINE_def FULL_STOP_def SPACE_def)

section \<open>The text of an entity\<close>

text \<open>The length of a text in UTF-16 units, in which Telegram counts.\<close>

definition utf16_units :: "pystr \<Rightarrow> int" where
  "utf16_units s = sum_list (map (\<lambda>c. if c \<ge> 0x10000 then 2 else 1) s)"

lemma utf16_units_simps [simp]:
  "utf16_units [] = 0" "utf16_units (c # s) = (if c \<ge> 0x10000 then 2 else 1) + utf16_units s"
  by (simp_all add: utf16_units_def)

lemma utf16_units_nonneg: "0 \<le> utf16_units s" "s \<noteq> [] \<Longrightarrow> 0 < utf16_units s"
  by (induction s) auto

lemma continuation_byte: "b < 256 \<Longrightarrow> (b AND 0xC0 = 0x80) \<longleftrightarrow> 128 \<le> b \<and> b < (192 :: nat)"
proof -
  assume b: "b < 256"
  have "drop_bit 6 (192 :: nat) = 3" "take_bit 6 (192 :: nat) = 0"
    by (simp_all add: drop_bit_eq_div take_bit_eq_mod)
  then have "drop_bit 6 (b AND 192) = drop_bit 6 b AND 3" "take_bit 6 (b AND 192) = 0"
    by (simp_all only: drop_bit_and take_bit_and and_zero_eq)
  moreover have "x AND 3 = x mod 4" for x :: nat
    using take_bit_eq_mask [of 2 x] by (simp add: take_bit_eq_mod mask_eq_exp_minus_1)
  ultimately have "b AND 192 = 64 * (b div 64 mod 4)"
    using bits_ident [of 6 "b AND 192"] by (simp add: push_bit_eq_mult drop_bit_eq_div)
  moreover have "b div 64 < 4" using b by simp
  ultimately show ?thesis by auto
qed

text \<open>A character is one byte that leads, telling whether it takes two units, and some that
  continue.\<close>

lemma utf8_char_shape:
  assumes "is_scalar c"
  obtains b bs where "map unat (utf8_char c) = b # bs" "b AND 0xC0 \<noteq> 0x80" "b \<ge> 0xF0 \<longleftrightarrow> c \<ge> 0x10000"
    "\<forall>x \<in> set bs. x AND 0xC0 = (0x80 :: nat)"
proof -
  consider "c < 0x80" | "0x80 \<le> c" "c < 0x800" | "0x800 \<le> c" "c < 0x10000" | "0x10000 \<le> c" "c < 0x110000"
    using assms unfolding is_scalar_def by fastforce
  then show thesis
  proof cases
    case 1
    then have "map unat (utf8_char c) = [c]" by (simp add: utf8_char_def unat_of_nat_byte)
    with 1 that show thesis by (auto simp: continuation_byte)
  next
    case 2
    then have q: "c div 64 < 32" "c mod 64 < 64" by auto
    have "map unat (utf8_char c) = [0xC0 + c div 64, 0x80 + c mod 64]"
      using 2 q by (simp add: utf8_char_def unat_of_nat_byte del: of_nat_add)
    with 2 q that show thesis by (auto simp: continuation_byte)
  next
    case 3
    then have q: "c div 4096 < 16" "c div 64 mod 64 < 64" "c mod 64 < 64" by auto
    have "map unat (utf8_char c) = [0xE0 + c div 4096, 0x80 + c div 64 mod 64, 0x80 + c mod 64]"
      using 3 q by (simp add: utf8_char_def unat_of_nat_byte del: of_nat_add)
    with 3 q that show thesis by (auto simp: continuation_byte)
  next
    case 4
    then have q: "c div 262144 < 5" "c div 4096 mod 64 < 64" "c div 64 mod 64 < 64" "c mod 64 < 64" by auto
    have "map unat (utf8_char c)
      = [0xF0 + c div 262144, 0x80 + c div 4096 mod 64, 0x80 + c div 64 mod 64, 0x80 + c mod 64]"
      using 4 q by (simp add: utf8_char_def unat_of_nat_byte del: of_nat_add)
    with 4 q that show thesis by (auto simp: continuation_byte)
  qed
qed


lemma entity_loop_continue:
  "\<forall>x \<in> set xs. x AND 0xC0 = (0x80 :: nat) \<Longrightarrow>
   entity_loop e (xs @ bs) i off start stop = entity_loop e bs (i + length xs) off start stop"
  by (induction xs arbitrary: i) auto

definition char_units :: "nat \<Rightarrow> int" where
  "char_units c = (if c \<ge> 0x10000 then 2 else 1)"

lemma entity_loop_char:
  assumes "is_scalar c"
  shows "entity_loop e (map unat (utf8_char c) @ bs) i off start stop =
    (if off = offset e then entity_loop e bs (i + length (utf8_char c)) (off + char_units c) i stop
     else if off - offset e = entity_length e then (start, i)
     else entity_loop e bs (i + length (utf8_char c)) (off + char_units c) start stop)"
proof -
  obtain b xs where b: "map unat (utf8_char c) = b # xs" "b AND 0xC0 \<noteq> 0x80" "b \<ge> 0xF0 \<longleftrightarrow> c \<ge> 0x10000"
    "\<forall>x \<in> set xs. x AND 0xC0 = (0x80 :: nat)" using assms by (rule utf8_char_shape)
  then have "length (utf8_char c) = Suc (length xs)" by (metis length_map length_Cons)
  with b show ?thesis by (simp add: Let_def entity_loop_continue char_units_def)
qed

definition encoded :: "pystr \<Rightarrow> bytes" where
  "encoded s = concat (map utf8_char s)"

lemma encoded_simps [simp]:
  "encoded [] = []" "encoded (c # s) = utf8_char c @ encoded s" "encoded (s @ t) = encoded s @ encoded t"
  by (simp_all add: encoded_def)

lemma utf8_decode_encoded: "list_all is_scalar s \<Longrightarrow> utf8_decode (encoded s) = Inr s"
  by (simp add: utf8_decode_def encoded_def utf8_decode_encode utf8_encode_def Let_def)

text \<open>Characters none of which begins or ends the entity are passed over.\<close>

lemma entity_loop_pass:
  assumes "list_all is_scalar s"
    and "off + utf16_units s \<le> offset e \<and> 0 \<le> entity_length e \<or>
      offset e < off \<and> (entity_length e = 0 \<or> off + utf16_units s \<le> offset e + entity_length e)"
  shows "entity_loop e (map unat (encoded s) @ bs) i off start stop =
    entity_loop e bs (i + length (encoded s)) (off + utf16_units s) start stop"
  using assms
proof (induction s arbitrary: i off)
  case (Cons c s)
  have "0 < char_units c" "utf16_units (c # s) = char_units c + utf16_units s" "0 \<le> utf16_units s"
    by (simp_all add: char_units_def utf16_units_nonneg)
  with Cons(3) have n: "off \<noteq> offset e" "off - offset e \<noteq> entity_length e"
    "off + char_units c + utf16_units s \<le> offset e \<and> 0 \<le> entity_length e \<or>
      offset e < off + char_units c \<and>
      (entity_length e = 0 \<or> off + char_units c + utf16_units s \<le> offset e + entity_length e)"
    by auto
  from Cons(2) have "is_scalar c" "list_all is_scalar s" by simp_all
  with Cons(1) [OF _ n(3), of "i + length (utf8_char c)"] n(1,2) \<open>utf16_units (c # s) = _\<close> show ?case
    by (simp add: entity_loop_char add.assoc del: utf16_units_simps(2))
qed simp

text \<open>
  C35. The text of an entity is what its offsets name.  Telegram counts offsets and lengths in
  UTF-16 units, the code walks the UTF-8 bytes: for any split of a text into what is before,
  inside and behind the entity, the result is the part inside, whatever planes its characters
  come from.  An entity of length 0 instead gives everything behind its offset, or the whole
  text when it stands at the end.
\<close>

theorem entity_text:
  assumes "list_all is_scalar (before @ inside @ behind)"
    and "offset e = utf16_units before" "entity_length e = utf16_units inside"
  shows "extract_entity (before @ inside @ behind) e =
    Inr (if inside \<noteq> [] then inside else if behind \<noteq> [] then behind else before)"
proof -
  let ?t = "before @ inside @ behind" and ?n = "length (encoded before)"
  have sc: "list_all is_scalar before" "list_all is_scalar inside" "list_all is_scalar behind" using assms(1) by simp_all
  have "entity_loop e (map unat (encoded ?t)) 0 0 0 (length (encoded ?t)) =
    entity_loop e (map unat (encoded inside) @ map unat (encoded behind)) ?n (offset e) 0 (length (encoded ?t))"
    using entity_loop_pass [OF sc(1), of 0 e "map unat (encoded inside) @ map unat (encoded behind)" 0 0 "length (encoded ?t)"]
      assms(2,3) utf16_units_nonneg(1) [of inside] by simp
  moreover have "entity_loop e (map unat (encoded inside) @ map unat (encoded behind)) ?n (offset e) 0 (length (encoded ?t)) =
    (if inside = [] \<and> behind = [] then 0 else ?n,
     if inside = [] then length (encoded ?t) else ?n + length (encoded inside))"
  proof (cases inside)
    case Nil
    show ?thesis
    proof (cases behind)
      case (Cons c s)
      with Nil sc(3) assms(3) entity_loop_pass [of s "offset e + char_units c" e "[]" "?n + length (utf8_char c)" ?n "length (encoded ?t)"]
      show ?thesis by (simp add: entity_loop_char char_units_def)
    qed (use Nil in simp)
  next
    case (Cons c s)
    have l: "offset e + char_units c + utf16_units s = offset e + entity_length e"
      using Cons assms(3) by (simp add: char_units_def)
    have p: "entity_loop e (map unat (encoded inside) @ map unat (encoded behind)) ?n (offset e) 0 (length (encoded ?t)) =
      entity_loop e (map unat (encoded behind)) (?n + length (encoded inside)) (offset e + entity_length e) ?n (length (encoded ?t))"
      using Cons sc(2) l entity_loop_pass [of s "offset e + char_units c" e "map unat (encoded behind)"
          "?n + length (utf8_char c)" ?n "length (encoded ?t)"]
      by (simp add: entity_loop_char char_units_def add.assoc)
    show ?thesis
    proof (cases behind)
      case Nil
      with p Cons show ?thesis by simp
    next
      case (Cons d r)
      moreover have "0 < entity_length e" using assms(3) utf16_units_nonneg(2) [of inside] \<open>inside = c # s\<close> by simp
      ultimately show ?thesis using p sc(3) \<open>inside = c # s\<close> by (simp add: entity_loop_char)
    qed
  qed
  moreover have "utf8_encode ?t = Inr (encoded ?t)" using assms(1) by (simp add: utf8_encode_def encoded_def)
  ultimately have "extract_entity ?t e =
      utf8_decode (encoded (if inside \<noteq> [] then inside else if behind \<noteq> [] then behind else before))"
    by (simp add: extract_entity_def)
  with sc show ?thesis by (simp add: utf8_decode_encoded)
qed

theorem entity_text_witness:
  "extract_entity [97, 0x1F600, 98] \<lparr>offset = 1, entity_length = 2\<rparr> = Inr [0x1F600]"
  using entity_text [of "[97]" "[0x1F600]" "[98]" "\<lparr>offset = 1, entity_length = 2\<rparr>"] by (simp add: is_scalar_def)

section \<open>Escaping\<close>

lemma py_replace_char: "py_replace [c] new s = concat (map (\<lambda>x. if x = c then new else [x]) s)"
proof (induction "[c]" s rule: py_split.induct)
  case (1 s)
  show ?case
  proof (cases "c \<in> set s")
    case True
    then obtain xs ys where s: "s = xs @ c # ys" "c \<notin> set xs" by (metis split_list_first)
    then have "py_replace [c] new ys = concat (map (\<lambda>x. if x = c then new else [x]) ys)"
      using 1 by (simp add: str_simps)
    moreover have "concat (map (\<lambda>x. if x = c then new else [x]) xs) = xs" using s(2) by (induction xs) auto
    ultimately show ?thesis using s by (simp add: py_replace_def py_split_char_Cons py_join_Cons)
  next
    case False
    then have "concat (map (\<lambda>x. if x = c then new else [x]) s) = s" by (induction s) auto
    with False show ?thesis by (simp add: py_replace_def py_split_char_no)
  qed
qed

text \<open>HTML escaping, character by character.\<close>

definition escaped_char :: "nat \<Rightarrow> pystr" where
  "escaped_char c = (if c = 38 then AMP else if c = 60 then LT else if c = 62 then GT else [c])"

lemma concat_map_concat: "concat (map f (concat (map g xs))) = concat (map (\<lambda>x. concat (map f (g x))) xs)"
  by (induction xs) auto

lemma escape_chars: "escape (Some s) = Some (concat (map escaped_char s))"
  unfolding escape_def option.map py_replace_char concat_map_concat
  by (auto intro!: arg_cong [of _ _ concat] simp: escaped_char_def AMP_def LT_def GT_def)

lemma escaped_inj: "concat (map escaped_char s) = concat (map escaped_char t) \<Longrightarrow> s = t"
proof (induction s arbitrary: t)
  case Nil
  then show ?case by (cases t) (auto simp: escaped_char_def AMP_def LT_def GT_def split: if_splits)
next
  case (Cons c s)
  then obtain d t' where t: "t = d # t'" by (cases t) (auto simp: escaped_char_def AMP_def LT_def GT_def split: if_splits)
  from Cons(2) t have "c = d \<and> concat (map escaped_char s) = concat (map escaped_char t')"
    by (auto simp: escaped_char_def [of c] escaped_char_def [of d] AMP_def LT_def GT_def split: if_splits)
  with Cons(1) t show ?case by blast
qed

text \<open>The escaped text has no markup and determines the text.\<close>

lemma escape_safe:
  "60 \<notin> set (the (escape (Some s)))" "62 \<notin> set (the (escape (Some s)))" "escape (Some s) = escape (Some t) \<Longrightarrow> s = t"
proof -
  have "x \<notin> set (escaped_char c)" if "x = 60 \<or> x = 62" for x c
    using that by (auto simp: escaped_char_def AMP_def LT_def GT_def)
  then show "60 \<notin> set (the (escape (Some s)))" "62 \<notin> set (the (escape (Some s)))"
    unfolding escape_chars by auto
  show "escape (Some s) = escape (Some t) \<Longrightarrow> s = t" unfolding escape_chars using escaped_inj by simp
qed

section \<open>Retries\<close>

text \<open>The function is called at most \<open>number_retries\<close> times, and at least once: one pause
  less.\<close>

lemma antiflood_pauses:
  "antiflood f n s = (x, ns, s1) \<Longrightarrow> int (length ns) \<le> max 0 (n - 1)"
proof -
  have "antiflood_loop f k s = (x, ns, s1) \<Longrightarrow> length ns \<le> k" for k x ns
    by (induction k arbitrary: s x ns) (auto split: prod.splits call_end.splits)
  then show "antiflood f n s = (x, ns, s1) \<Longrightarrow> ?thesis" by (fastforce simp: antiflood_def)
qed

end
