(* ===== verification/Spec2Isabelle.thy ===== *)
theory Spec2Isabelle
  imports Session_Outcome Dispatcher_Laws Framing FakeTls_Exchange Proxy Web_Carrier File_Id Auth Srp Client_Utils Rpc_Error
    Sql_Storage_Laws Pan115_Cipher Pickcode P115_Cipher_Laws P115_Lz4 Bot_Storage_Laws Bot_Updates_Laws Callback_Data Bot_Text
begin

text \<open>
  Verification of the core of this repository's Python programs.

  The repository is a collection of independent programs.  Modelled are those with logic
  of their own: kurigram (under \<open>src/kurigram/pyrogram\<close>), a Telegram client library, whose
  protocol stack is the main part, with its session storage; pyTelegramBotAPI
  (\<open>src/pyTelegramBotAPI/telebot\<close>), a library for bots over the HTTP API, of which the way from
  polling to the handlers, the dialogue states and the text helpers are modelled; the cipher
  module of the 123Cloud desktop backend (\<open>src/123Cloud/desktop/backend/app/pan115_cipher.py\<close>);
  and the pickcodes and ciphers of p115client (\<open>src/p115client/modules/p115pickcode\<close> and
  \<open>p115cipher\<close>).

  How kurigram's parts interact.  A client invokes a request on its \<open>Session\<close>.  The session
  makes a message (\<open>MsgFactory\<close>), seals it in an MTProto envelope (\<open>mtproto.pack\<close>, with the
  auth key that \<open>Auth.create\<close> has agreed on) and hands the packet to its \<open>Connection\<close>, which
  owns a transport.  The transport frames the packet (abridged, intermediate, padded, full or
  obfuscated), and \<open>TCP\<close> below it encrypts the stream for MTProto proxies, wraps it in TLS
  records, or replaces the socket by the multiplexed carrier of a WEB proxy.  Incoming packets
  go the way back: \<open>recv_worker\<close> reads a packet, \<open>handle_packet\<close> opens it
  (\<open>mtproto.unpack\<close>), checks message ids, and hands results to the requests that wait; updates go
  to the \<open>Dispatcher\<close>, whose workers call the user's handlers.  Keys, peers and update states
  are kept in a \<open>Storage\<close>.

  How pyTelegramBotAPI's parts interact.  \<open>TeleBot.polling\<close> calls \<open>__retrieve_updates\<close>, which asks
  for the updates behind the last one seen and gives the batch to \<open>process_new_updates\<close>: function
  middlewares first, then a split by kind; next-step and reply handlers take messages out of
  their chat, the rest is queued for a pool of workers, which run class middlewares and the
  first handler whose filters pass.  Handlers keep the state of a dialogue in a storage, and
  read the data of buttons with a \<open>CallbackData\<close>.

  Theories.

  \<^item> \<open>Prelude\<close>: Python results as \<open>py_error + 'a\<close>, bytes, integers in bytes, \<open>io.BytesIO\<close>,
    slices, exclusive or; the collections \<open>res_simps\<close>, \<open>codec_simps\<close>, \<open>stream_simps\<close>.
  \<^item> \<open>TL_Primitives\<close>, \<open>TL_Objects\<close> (\<open>raw/core\<close>): the wire format, the locale \<open>wire_codec\<close>;
    the round trip of whole objects.
  \<^item> \<open>Aes_Modes\<close> (\<open>crypto/aes.py\<close>): IGE and CTR over the locale \<open>block_cipher\<close>.
  \<^item> \<open>Mtproto\<close> (\<open>crypto/mtproto.py\<close>): \<open>pack\<close> opens for its receiver, \<open>unpack\<close> returns what
    passed all checks and everything a conforming server sends.
  \<^item> \<open>Msg_Factory\<close> (\<open>session/internals\<close>): ids and sequence numbers.
  \<^item> \<open>Session\<close> (\<open>session/session.py\<close>): the record \<open>session\<close> is the object's state; every
    handler is a function on it, cut at its \<open>await\<close>s.  The invariant \<open>session_ok\<close>, freshness
    of accepted messages, delivery of results, stopping, salts, retries.
  \<^item> \<open>Session_Life\<close>, \<open>Session_Outcome\<close>: \<open>start\<close>, \<open>stop\<close> and \<open>restart\<close> as coroutines that
    interleave at their waits, as a step relation.  The lock of \<open>restart\<close> and the state as
    invariants; a stop is final, with the schedules where it is not.
  \<^item> \<open>Dispatcher\<close>, \<open>Dispatcher_Laws\<close> (\<open>dispatcher.py\<close>, the combinators of \<open>filters.py\<close>): handlers
    in groups, the dispatch of an update to them, the queue and its workers as a step relation.
  \<^item> \<open>Tcp\<close> (\<open>connection/transport/tcp/tcp.py\<close>, \<open>faketls_records.py\<close>): the locale
    \<open>exact_reader\<close> is what a layer promises to the one above.  \<open>Framing\<close> (the six packet
    transports) extends it to the locale \<open>framing\<close>, interpreted for every transport.
  \<^item> \<open>FakeTls\<close>, \<open>FakeTls_Writer\<close>, \<open>FakeTls_Greeting\<close>, \<open>FakeTls_Exchange\<close> (\<open>crypto/faketls.py\<close>,
    \<open>TCP._greet_fake_tls_proxy\<close>): the ClientHello of a fake-TLS proxy as the operations write
    it; a reader of RFC 8446 as its specification; the exchange with the proxy.
  \<^item> \<open>Base64\<close>, \<open>Proxy\<close> (\<open>connection/proxy.py\<close>, \<open>connection.py\<close>): proxy configuration,
    the choice of the transport, connecting.
  \<^item> \<open>Web_Frames\<close>, \<open>Web_Carrier\<close> (\<open>web_proxy_carrier.py\<close>): frames and chunked bodies; the
    carrier as a step relation over its tasks, with flow control and numbering as invariants
    of every reachable state.
  \<^item> \<open>Py_Struct\<close>, \<open>File_Id\<close> (\<open>file_id.py\<close>): the \<open>struct\<close> formats used, file ids.
  \<^item> \<open>Prime\<close>, \<open>Rsa\<close> (\<open>crypto/prime.py\<close>, \<open>crypto/rsa.py\<close>), \<open>Auth\<close> (\<open>session/auth.py\<close>): the
    key exchange, its checks, its retries, its agreement.
  \<^item> \<open>Srp\<close> (\<open>utils/crypto.py\<close>): the password proof.
  \<^item> \<open>Client_Utils\<close> (\<open>utils/\<close>): peer numbers, the LRU cache, text splitting, inline ids.
  \<^item> \<open>Rpc_Error\<close> (\<open>errors/rpc_error.py\<close>): from a server error to an exception.
  \<^item> \<open>Sql_Storage\<close>, \<open>Sql_Storage_Laws\<close> (\<open>storage/storage.py\<close>, \<open>sqlite_storage.py\<close>): the tables with
    the statements the code runs on them; session strings, migrations, update states, usernames.
  \<^item> \<open>Py_Str\<close>: the string methods of Python that the next ones use.
  \<^item> \<open>Bot_Storage\<close>, \<open>Bot_Storage_Laws\<close> (\<open>telebot/storage\<close>): the two storages of dialogue states.  The
    locale \<open>state_store\<close> is what the bot relies on, \<open>strict_store\<close> what the memory storage promises
    beyond it; both storages refine one machine with an entry per dialogue.
  \<^item> \<open>Bot_Updates\<close>, \<open>Bot_Updates_Laws\<close> (\<open>telebot/__init__.py\<close>, \<open>handler_backends.py\<close>, \<open>WorkerThread\<close> of
    \<open>util.py\<close>): from a poll to the tasks on the queue and from a task to its handlers; every update
    is handed over once, and where that fails.
  \<^item> \<open>Callback_Data\<close> (\<open>telebot/callback_data.py\<close>) and \<open>Bot_Text\<close> (\<open>telebot/util.py\<close>): the data of
    buttons; splitting, entities, escaping, tokens, retries.
  \<^item> \<open>Aes128\<close>, \<open>Pan115_Cipher\<close> (\<open>pan115_cipher.py\<close>): AES-128 from its computed S-box up (the
    program's own \<open>block_cipher\<close>), CBC, LZ4 against a specification of the block format, the
    decoding of an answer.
  \<^item> \<open>P115_Cipher\<close>, \<open>P115_Cipher_Laws\<close>, \<open>P115_Lz4\<close> (\<open>p115cipher\<close>): the RSA cipher of requests and
    answers, with Fermat's theorem for the key pair of its witness; the fast LZ4 decoder, which
    agrees with the one of \<open>Pan115_Cipher\<close>.
  \<^item> \<open>Pickcode\<close>: ids and stable points to pickcodes and back.

  Parameters.  What is not in the repository is an argument: SHA-1, SHA-256, PBKDF2, the AES
  block function of pyaes (law: decryption undoes encryption on 16-byte blocks), gzip and zlib,
  the generated object tables, \<open>urandom\<close>, \<open>randint\<close> and the clock (their draws are lists or
  functions of a counter), the bytes the network delivers and how it cuts them, the JSON
  reader, the user's handlers, filters and middlewares, the answers of the HTTP API.
  Laws about them are hypotheses of the theorems, and each such theorem has a witness with
  concrete functions.

  Fuel and bounds.  Reading objects is bounded by Python's recursion limit, modelled as fuel
  with \<open>RecursionError\<close> at its end; the round trip says how much suffices.  The factorisation
  has fuel, and \<open>decompose_returns\<close> shows that some amount suffices and more changes nothing.
  The remaining loops are structural or have termination proofs; \<open>split_text\<close> with limit 0,
  which does not end, is \<open>None\<close>, and so are \<open>smart_split\<close> with a limit below 1 and an LZ4 match of distance 0.  Integers keep
  their width wherever bytes are made of them: a number that does not fit is the error Python
  raises.

  Not modelled.  Sockets, DNS, TLS contexts and HTTP as I/O; logging; the generated API classes
  and the client's methods around them; SQLite itself, its files and transactions; HTML and
  Markdown parsing, which rests on regular expressions and \<open>html.parser\<close>; the content of the
  request that \<open>Session.start\<close> sends and how it cancels tracked tasks; the handshake of the WEB
  carrier; proxy links; \<open>build_upload_request\<close>; of pyTelegramBotAPI the methods that wrap API
  calls, the types, the asynchronous copies, the Redis storage and the file and Redis backends
  of handlers, web app data; the other programs of the repository, which wrap HTTP APIs.
  Timeouts appear as the nondeterminism of the environment.
\<close>

end
